(* ===== verification/Prelude.thy ===== *)
theory Prelude
  imports Main "HOL-Library.Word" "HOL-Library.Monad_Syntax" "HOL-Library.Signed_Division"
begin

text \<open>
  Shared ground of the development: the integer types of the C code, the lemma collections, the
  byte memory with little-endian loads and stores, and address ranges. Everything here is generic;
  no definition of this theory models a file of the kernel.
\<close>

unbundle bit_operations_syntax

subsection \<open>Integer types and lemma collections\<close>

type_synonym u8 = "8 word"
type_synonym u16 = "16 word"
type_synonym u32 = "32 word"
type_synonym u64 = "64 word"
type_synonym memory = "u64 \<Rightarrow> u8"

named_theorems mem_simps \<open>reads after writes\<close>
named_theorems frame_simps \<open>what an operation leaves unchanged\<close>
named_theorems range_simps \<open>address range arithmetic\<close>

subsection \<open>Word arithmetic\<close>

lemma unat_add_nowrap: "unat a + n < 2 ^ 64 \<Longrightarrow> unat (a + of_nat n :: u64) = unat a + n"
  by (simp add: unat_word_ariths unat_of_nat)

lemma unat_of_nat64: "n < 2 ^ 64 \<Longrightarrow> unat (of_nat n :: u64) = n"
  by (simp add: unat_of_nat)

lemma unat_sub_nowrap: "b \<le> a \<Longrightarrow> unat (a - b :: u64) = unat a - unat b"
  by (simp add: unat_sub)

lemma unat_sub_wrap: "unat (a - b :: u64) = (if unat b \<le> unat a then unat a - unat b else 2 ^ 64 + unat a - unat b)"
  by (cases "b \<le> a") (auto simp: unat_sub_if' word_le_nat_alt)

lemma unat_lt64 [simp]: "unat (a :: u64) < 18446744073709551616"
  using unsigned_less [of a] by simp

lemma of_nat_unat64 [simp]: "of_nat (unat (a :: u64)) = a"
  by (rule word_nat_cases [of a]) (simp add: unat_of_nat64)

lemma sint_of_nat64: "n < 2 ^ 63 \<Longrightarrow> sint (of_nat n :: u64) = int n"
  by (simp add: signed_of_nat signed_take_bit_int_eq_self)

lemma sdiv_of_nat: "int a sdiv int b = int (a div b)"
  by (cases "a = 0"; cases "b = 0") (simp_all add: signed_divide_int_def zdiv_int)

lemma signed_div_of_nat:
  "n < 2 ^ 63 \<Longrightarrow> word_of_int (sint (of_nat n :: u64) sdiv int k) = (of_nat (n div k) :: u64)"
  by (simp add: sint_of_nat64 sdiv_of_nat)

subsection \<open>Address ranges\<close>

text \<open>\<open>in_rng a n b\<close>: the address \<open>b\<close> is one of the \<open>n\<close> addresses from \<open>a\<close> on (with the
  wrap-around of 64-bit addresses).\<close>

definition in_rng :: "u64 \<Rightarrow> nat \<Rightarrow> u64 \<Rightarrow> bool" where
  "in_rng a n b \<longleftrightarrow> unat (b - a) < n"

definition sep :: "u64 \<Rightarrow> nat \<Rightarrow> u64 \<Rightarrow> nat \<Rightarrow> bool" where
  "sep a n b k \<longleftrightarrow> (\<forall>x. in_rng a n x \<longrightarrow> \<not> in_rng b k x)"

lemma in_rng_0 [simp]: "\<not> in_rng a 0 b"
  by (simp add: in_rng_def)

lemma in_rng_first [simp]: "in_rng a n a \<longleftrightarrow> 0 < n"
  by (simp add: in_rng_def)

lemma in_rng_nat:
  assumes "unat a + n \<le> 2 ^ 64"
  shows "in_rng a n b \<longleftrightarrow> unat a \<le> unat b \<and> unat b < unat a + n"
  using assms unat_lt64 [of b] by (auto simp: in_rng_def unat_sub_wrap)

lemma in_rng_Suc: "in_rng a (Suc n) b \<longleftrightarrow> b = a \<or> in_rng (a + 1) n b \<and> b \<noteq> a"
proof (cases "b = a")
  case False
  then have "b - a \<noteq> 0" by simp
  then have "unat (b - a - 1) = unat (b - a) - 1" and "0 < unat (b - a)"
    by (simp_all add: unat_minus_one unat_gt_0)
  then show ?thesis using False by (auto simp: in_rng_def diff_diff_eq)
qed (simp add: in_rng_def)

lemma in_rng_split:
  assumes "n + k \<le> 2 ^ 64"
  shows "in_rng a (n + k) b \<longleftrightarrow> in_rng a n b \<or> in_rng (a + of_nat n) k b"
proof (cases "k = 0")
  case False
  then have n: "unat (of_nat n :: u64) = n" using assms by (intro unat_of_nat64) simp
  have "b - (a + of_nat n) = (b - a) - of_nat n" by simp
  then have "unat (b - (a + of_nat n)) =
      (if n \<le> unat (b - a) then unat (b - a) - n else 2 ^ 64 + unat (b - a) - n)"
    using unat_sub_wrap [of "b - a" "of_nat n"] n by metis
  then show ?thesis using assms by (auto simp: in_rng_def)
qed simp

lemma in_rng_mono: "in_rng a n b \<Longrightarrow> n \<le> k \<Longrightarrow> in_rng a k b"
  by (simp add: in_rng_def)

lemma in_rng_offset: "i < n \<Longrightarrow> n \<le> 2 ^ 64 \<Longrightarrow> in_rng a n (a + of_nat i)"
  by (simp add: in_rng_def unat_of_nat)

lemma in_rng_E:
  assumes "in_rng a n b"
  obtains i where "i < n" "b = a + of_nat i"
proof
  show "unat (b - a) < n" using assms by (simp add: in_rng_def)
  show "b = a + of_nat (unat (b - a))" by simp
qed

lemma sep_commute: "sep a n b k \<longleftrightarrow> sep b k a n"
  by (auto simp: sep_def)

lemma sep_mono: "sep a n b k \<Longrightarrow> n' \<le> n \<Longrightarrow> k' \<le> k \<Longrightarrow> sep a n' b k'"
  by (meson in_rng_mono sep_def)

lemma sep_nat:
  assumes "unat a + n \<le> unat b \<or> unat b + k \<le> unat a"
    and "unat a + n \<le> 2 ^ 64" and "unat b + k \<le> 2 ^ 64"
  shows "sep a n b k"
  using assms by (auto simp: sep_def in_rng_nat)

lemma sep_not_in: "sep a n b k \<Longrightarrow> in_rng a n x \<Longrightarrow> \<not> in_rng b k x"
  by (simp add: sep_def)

subsection \<open>Little-endian memory access\<close>

text \<open>RISC-V is little endian: byte \<open>i\<close> of an \<open>n\<close>-byte access at \<open>a\<close> is at \<open>a + i\<close>.\<close>

primrec read_le :: "nat \<Rightarrow> memory \<Rightarrow> u64 \<Rightarrow> 'a::len word" where
  "read_le 0 m a = 0"
| "read_le (Suc n) m a = ucast (m a) OR push_bit 8 (read_le n m (a + 1))"

primrec write_le :: "nat \<Rightarrow> u64 \<Rightarrow> 'a::len word \<Rightarrow> memory \<Rightarrow> memory" where
  "write_le 0 a v m = m"
| "write_le (Suc n) a v m = (write_le n (a + 1) (drop_bit 8 v) m)(a := ucast v)"

lemma write_le_apply:
  "write_le n a v m b = (if in_rng a n b then ucast (drop_bit (8 * unat (b - a)) v) else m b)"
  if "n \<le> 2 ^ 64"
  using that
proof (induction n arbitrary: a v)
  case (Suc n)
  show ?case
  proof (cases "b = a")
    case False
    then have nz: "b - a \<noteq> 0" by simp
    have u: "unat (b - (a + 1)) = unat (b - a) - 1"
      using nz by (simp add: unat_minus_one flip: diff_diff_eq)
    moreover have "0 < unat (b - a)" using nz by (simp add: unat_gt_0)
    ultimately have "8 + 8 * unat (b - (a + 1)) = 8 * unat (b - a)" by simp
    then show ?thesis
      using False Suc by (simp add: in_rng_Suc drop_bit_drop_bit add.commute)
  qed simp
qed simp

lemma write_le_other [mem_simps]: "n \<le> 2 ^ 64 \<Longrightarrow> \<not> in_rng a n b \<Longrightarrow> write_le n a v m b = m b"
  by (simp add: write_le_apply)

lemma read_le_cong:
  "(\<And>x. in_rng a n x \<Longrightarrow> m x = m' x) \<Longrightarrow> (read_le n m a :: 'a::len word) = read_le n m' a"
proof (induction n arbitrary: a)
  case (Suc n)
  have "(read_le n m (a + 1) :: 'a word) = read_le n m' (a + 1)"
  proof (rule Suc.IH)
    fix x assume "in_rng (a + 1) n x"
    then show "m x = m' x" using Suc.prems by (cases "x = a") (auto simp: in_rng_Suc)
  qed
  moreover have "m a = m' a" using Suc.prems by simp
  ultimately show ?case by simp
qed simp

lemma read_le_bit:
  "bit (read_le n m a :: 'a::len word) k \<longleftrightarrow>
     k < 8 * n \<and> k < LENGTH('a) \<and> bit (m (a + of_nat (k div 8))) (k mod 8)"
proof (induction n arbitrary: a k)
  case (Suc n)
  show ?case
  proof (cases "k < 8")
    case True
    then show ?thesis by (auto simp: bit_or_iff bit_push_bit_iff bit_ucast_iff)
  next
    case False
    then have d: "k div 8 = Suc ((k - 8) div 8)" and "k mod 8 = (k - 8) mod 8"
      by (simp_all add: le_div_geq le_mod_geq)
    moreover have "\<not> bit (m a) k" using False by (auto dest: bit_imp_le_length)
    ultimately show ?thesis
      using False Suc.IH [of "a + 1" "k - 8"]
      by (auto simp: bit_or_iff bit_push_bit_iff bit_ucast_iff algebra_simps)
  qed
qed simp

lemma read_write_le:
  assumes "n \<le> 2 ^ 64"
  shows "(read_le n (write_le n a v m) a :: 'a::len word) = take_bit (8 * n) v"
proof (rule bit_word_eqI)
  fix k assume k: "k < LENGTH('a)"
  have "k < 8 * n \<Longrightarrow> unat (of_nat (k div 8) :: u64) = k div 8"
    using assms by (intro unat_of_nat64) linarith
  then show "bit (read_le n (write_le n a v m) a :: 'a word) k = bit (take_bit (8 * n) v) k"
    using k assms
    by (auto simp: read_le_bit write_le_apply in_rng_def bit_take_bit_iff bit_ucast_iff
        bit_drop_bit_eq)
qed

lemma read_write_le_sep [mem_simps]:
  "n \<le> 2 ^ 64 \<Longrightarrow> sep a n b k \<Longrightarrow> read_le k (write_le n a v m) b = read_le k m b"
  by (rule read_le_cong) (metis sep_def write_le_other)

lemma read_le_byte:
  assumes "k < n" "8 * n \<le> LENGTH('a::len)"
  shows "ucast (drop_bit (8 * k) (read_le n m a :: 'a word)) = m (a + of_nat k)"
proof (rule bit_word_eqI)
  fix j assume "j < LENGTH(8)"
  then have "(8 * k + j) div 8 = k" "(8 * k + j) mod 8 = j" "8 * k + j < 8 * n"
    using assms by auto
  then show "bit (ucast (drop_bit (8 * k) (read_le n m a :: 'a word)) :: u8) j = bit (m (a + of_nat k)) j"
    using assms \<open>j < LENGTH(8)\<close> by (simp add: bit_ucast_iff bit_drop_bit_eq read_le_bit)
qed

lemma write_read_le:
  assumes "8 * n \<le> LENGTH('a::len)" "n \<le> 2 ^ 64"
  shows "write_le n a (read_le n m a :: 'a word) m = m"
  using assms by (auto simp: fun_eq_iff write_le_apply read_le_byte in_rng_def)

subsection \<open>The access widths of the kernel\<close>

abbreviation load16 :: "memory \<Rightarrow> u64 \<Rightarrow> u16" where "load16 \<equiv> read_le 2"
abbreviation load32 :: "memory \<Rightarrow> u64 \<Rightarrow> u32" where "load32 \<equiv> read_le 4"
abbreviation load64 :: "memory \<Rightarrow> u64 \<Rightarrow> u64" where "load64 \<equiv> read_le 8"
abbreviation store16 :: "u64 \<Rightarrow> u16 \<Rightarrow> memory \<Rightarrow> memory" where "store16 \<equiv> write_le 2"
abbreviation store32 :: "u64 \<Rightarrow> u32 \<Rightarrow> memory \<Rightarrow> memory" where "store32 \<equiv> write_le 4"
abbreviation store64 :: "u64 \<Rightarrow> u64 \<Rightarrow> memory \<Rightarrow> memory" where "store64 \<equiv> write_le 8"

lemma load16_store16 [simp, mem_simps]: "load16 (store16 a v m) a = v"
  by (simp add: read_write_le take_bit_word_eq_self)

lemma load32_store32 [simp, mem_simps]: "load32 (store32 a v m) a = v"
  by (simp add: read_write_le take_bit_word_eq_self)

lemma load64_store64 [simp, mem_simps]: "load64 (store64 a v m) a = v"
  by (simp add: read_write_le take_bit_word_eq_self)

lemma store16_load16 [simp]: "store16 a (load16 m a) m = m"
  by (simp add: write_read_le)

lemma store64_load64 [simp]: "store64 a (load64 m a) m = m"
  by (simp add: write_read_le)

end
