(* ===== verification/Machine.thy ===== *)
theory Machine
  imports Prelude
begin

text \<open>
  The state the kernel runs on: physical memory as bytes, the \<^verbatim>\<open>satp\<close> register, the text sent to
  the SBI console, and the C globals of \<^verbatim>\<open>memory.c\<close>. Globals are record fields, not bytes of
  \<open>mem\<close>: they live in the kernel image, below the page pool.

  An operation that may fail to return (a spin lock that is held, a \<^verbatim>\<open>while(1)\<close>, a read past the
  end of an object) has a result of type \<open>option\<close>, and \<open>None\<close> is that outcome.
\<close>

subsection \<open>The globals of the bucket allocator\<close>

record free_buckets_alloc_t =
  mutating :: bool
  used :: u64
  free_16 :: u64
  free_64 :: u64
  free_256 :: u64
  free_1024 :: u64
  free_4096 :: u64
  free_16384 :: u64
  free_65536 :: u64

subsection \<open>The kernel state\<close>

record kstate =
  mem :: memory
  satp :: u64
  console_out :: string
  pages_bottom :: u64
  memory_start :: u64
  heap_bottom :: u64
  mutating_heap :: bool
  GLOBAL_ALLOC :: free_buckets_alloc_t

definition GLOBAL_ALLOC0 :: free_buckets_alloc_t where
  "GLOBAL_ALLOC0 = \<lparr>mutating = False, used = 0, free_16 = 0, free_64 = 0, free_256 = 0,
     free_1024 = 0, free_4096 = 0, free_16384 = 0, free_65536 = 0\<rparr>"

text \<open>The state at power-on: zeroed globals, MMU off.\<close>

definition kstate0 :: kstate where
  "kstate0 = \<lparr>mem = (\<lambda>_. 0), satp = 0, console_out = [], pages_bottom = 0, memory_start = 0,
     heap_bottom = 0, mutating_heap = False, GLOBAL_ALLOC = GLOBAL_ALLOC0\<rparr>"

subsection \<open>Memory accesses of the kernel\<close>

text \<open>
  With the MMU on, the upper half of the address space is the linear window onto physical memory
  that \<^verbatim>\<open>create_mmu_table\<close> installs (\<open>KERNEL_SPACE_OFFSET\<close> is physical address 0), and the kernel
  image is mapped to itself. With the MMU off, addresses are physical. \<open>kaddr\<close> is the physical
  address the hardware uses for a kernel pointer.
\<close>

definition KERNEL_SPACE_OFFSET :: u64 where
  "KERNEL_SPACE_OFFSET = 0xffffffc000000000"

definition PAGE_SIZE :: u64 where
  "PAGE_SIZE = 4096"

definition mmu_enabled :: "kstate \<Rightarrow> bool" where
  "mmu_enabled s \<longleftrightarrow> satp s AND 0x8000000000000000 \<noteq> 0"

definition kaddr :: "kstate \<Rightarrow> u64 \<Rightarrow> u64" where
  "kaddr s a = (if mmu_enabled s \<and> KERNEL_SPACE_OFFSET \<le> a then a - KERNEL_SPACE_OFFSET else a)"

definition ld8 :: "kstate \<Rightarrow> u64 \<Rightarrow> u8" where "ld8 s a = mem s (kaddr s a)"
definition ld16 :: "kstate \<Rightarrow> u64 \<Rightarrow> u16" where "ld16 s a = load16 (mem s) (kaddr s a)"
definition ld32 :: "kstate \<Rightarrow> u64 \<Rightarrow> u32" where "ld32 s a = load32 (mem s) (kaddr s a)"
definition ld64 :: "kstate \<Rightarrow> u64 \<Rightarrow> u64" where "ld64 s a = load64 (mem s) (kaddr s a)"

definition st8 :: "u64 \<Rightarrow> u8 \<Rightarrow> kstate \<Rightarrow> kstate" where
  "st8 a v s = s\<lparr>mem := (mem s)(kaddr s a := v)\<rparr>"
definition st16 :: "u64 \<Rightarrow> u16 \<Rightarrow> kstate \<Rightarrow> kstate" where
  "st16 a v s = s\<lparr>mem := store16 (kaddr s a) v (mem s)\<rparr>"
definition st32 :: "u64 \<Rightarrow> u32 \<Rightarrow> kstate \<Rightarrow> kstate" where
  "st32 a v s = s\<lparr>mem := store32 (kaddr s a) v (mem s)\<rparr>"
definition st64 :: "u64 \<Rightarrow> u64 \<Rightarrow> kstate \<Rightarrow> kstate" where
  "st64 a v s = s\<lparr>mem := store64 (kaddr s a) v (mem s)\<rparr>"

subsection \<open>Frame facts\<close>

text \<open>\<open>same_regs s t\<close>: \<open>t\<close> differs from \<open>s\<close> in memory only.\<close>

definition same_regs :: "kstate \<Rightarrow> kstate \<Rightarrow> bool" where
  "same_regs s t \<longleftrightarrow> t = s\<lparr>mem := mem t\<rparr>"

lemma same_regs_refl [simp, intro]: "same_regs s s"
  by (simp add: same_regs_def)

lemma same_regs_trans: "same_regs s t \<Longrightarrow> same_regs t u \<Longrightarrow> same_regs s u"
  by (cases s, cases t, cases u) (simp add: same_regs_def)

lemma mmu_enabled_mem_update [simp, frame_simps]:
  "mmu_enabled (s\<lparr>mem := m\<rparr>) = mmu_enabled s"
  "mmu_enabled (s\<lparr>mutating_heap := l\<rparr>) = mmu_enabled s"
  "mmu_enabled (s\<lparr>console_out := c\<rparr>) = mmu_enabled s"
  "mmu_enabled (s\<lparr>GLOBAL_ALLOC := g\<rparr>) = mmu_enabled s"
  by (simp_all add: mmu_enabled_def)

lemma kaddr_update [simp, frame_simps]:
  "kaddr (s\<lparr>mem := m\<rparr>) = kaddr s"
  "kaddr (s\<lparr>mutating_heap := l\<rparr>) = kaddr s"
  "kaddr (s\<lparr>console_out := c\<rparr>) = kaddr s"
  "kaddr (s\<lparr>GLOBAL_ALLOC := g\<rparr>) = kaddr s"
  by (auto simp: kaddr_def fun_eq_iff)

lemma kaddr_st [simp, frame_simps]:
  "kaddr (st8 a v8 s) = kaddr s" "kaddr (st16 a v16 s) = kaddr s"
  "kaddr (st32 a v32 s) = kaddr s" "kaddr (st64 a v64 s) = kaddr s"
  by (simp_all add: st8_def st16_def st32_def st64_def)

lemma kaddr_low: "\<not> KERNEL_SPACE_OFFSET \<le> a \<Longrightarrow> kaddr s a = a"
  by (simp add: kaddr_def)

lemma kaddr_off: "\<not> mmu_enabled s \<Longrightarrow> kaddr s a = a"
  by (simp add: kaddr_def)

lemma ld64_st64 [simp, mem_simps]: "ld64 (st64 a v s) a = v"
  by (simp add: ld64_def st64_def kaddr_def mmu_enabled_def)

lemma ld16_st16 [simp, mem_simps]: "ld16 (st16 a v s) a = v"
  by (simp add: ld16_def st16_def kaddr_def mmu_enabled_def)

lemma ld64_st64_other [mem_simps]:
  "sep (kaddr s a) 8 (kaddr s b) 8 \<Longrightarrow> ld64 (st64 a v s) b = ld64 s b"
  by (simp add: ld64_def st64_def read_write_le_sep)

end
