(* ===== verification/Console.thy ===== *)
theory Console
  imports Machine
begin

text \<open>
  \<^verbatim>\<open>kernel/src/console.c\<close>: the formatted output of the kernel. The characters go to
  \<^verbatim>\<open>sbi_console_putchar\<close>, modelled as appending to \<open>console_out\<close>. A variadic argument is a
  64-bit slot (as the RV64 calling convention passes it) or a string; fetching an argument that is
  not there, or stepping over the terminating NUL of the format, is \<open>None\<close>.
\<close>

datatype va = VWord u64 | VStr string

datatype console_printf_size_t = SIZE_INT | SIZE_LONG | SIZE_LONG_LONG

definition hex_digit :: "u64 \<Rightarrow> char" where
  "hex_digit d = ''0123456789abcdef'' ! unat d"

text \<open>The digit loop fills a 16-byte buffer from its end; \<open>acc\<close> is the filled part.\<close>

function hex_loop :: "u64 \<Rightarrow> string \<Rightarrow> string" where
  "hex_loop x acc = (if x \<noteq> 0 then hex_loop (x div 16) (hex_digit (x mod 16) # acc) else acc)"
  by pat_completeness auto
termination
proof (relation "measure (\<lambda>(x, acc). unat x)", simp_all)
  fix x :: u64 assume "x \<noteq> 0"
  then have "0 < unat x" by (simp add: unat_gt_0)
  then show "unat (x div 16) < unat x" by (simp add: unat_div)
qed

declare hex_loop.simps [simp del]

definition put_hex :: "u64 \<Rightarrow> string" where
  "put_hex x = (if x = 0 then ''0'' else hex_loop x [])"

definition va_arg_word :: "console_printf_size_t \<Rightarrow> va list \<Rightarrow> (u64 \<times> va list) option" where
  "va_arg_word sz va =
     (case va of
        VWord w # va' \<Rightarrow>
          Some (case sz of SIZE_INT \<Rightarrow> ucast (ucast w :: u32) | SIZE_LONG \<Rightarrow> w | SIZE_LONG_LONG \<Rightarrow> w, va')
      | _ \<Rightarrow> None)"

definition va_arg_str :: "va list \<Rightarrow> (string \<times> va list) option" where
  "va_arg_str va = (case va of VStr t # va' \<Rightarrow> Some (t, va') | _ \<Rightarrow> None)"

definition to_char :: "u64 \<Rightarrow> char" where
  "to_char w = char_of (unat (ucast w :: u8))"

text \<open>What follows an \<open>l\<close>: the size and the rest of the format, which starts at the character
  that decides between a hexadecimal number and the fall-back.\<close>

definition long_size :: "string \<Rightarrow> console_printf_size_t \<times> string" where
  "long_size f = (case f of e # g \<Rightarrow> if e = CHR ''l'' then (SIZE_LONG_LONG, g) else (SIZE_LONG, f)
                  | [] \<Rightarrow> (SIZE_LONG, []))"

lemma long_size_length: "length (snd (long_size f)) \<le> length f"
  by (simp add: long_size_def split: list.splits)

lemma long_size_eq: "(sz, g) = long_size f \<Longrightarrow> length g < Suc (Suc (length f))"
  using long_size_length [of f] by (metis le_imp_less_Suc less_SucI snd_conv)

function console_vprintf :: "string \<Rightarrow> va list \<Rightarrow> string option" where
  "console_vprintf [] va = Some []"
| "console_vprintf (c # f) va =
     (if c \<noteq> CHR ''%'' then map_option ((#) c) (console_vprintf f va)
      else case f of [] \<Rightarrow> None
      | d # f' \<Rightarrow>
         if d = CHR ''c'' then do {
           (w, va') \<leftarrow> va_arg_word SIZE_INT va;
           map_option ((#) (to_char w)) (console_vprintf f' va') }
         else if d = CHR ''p'' then do {
           (p, va') \<leftarrow> va_arg_word SIZE_LONG va;
           map_option ((@) (''0x'' @ put_hex p)) (console_vprintf f' va') }
         else if d = CHR ''s'' then do {
           (t, va') \<leftarrow> va_arg_str va;
           map_option ((@) t) (console_vprintf f' va') }
         else if d = CHR ''l'' then
           (let (sz, g) = long_size f' in do {
              (x, va') \<leftarrow> va_arg_word sz va;
              (case g of e # g' \<Rightarrow>
                 if e = CHR ''x'' then map_option ((@) (put_hex x)) (console_vprintf g' va')
                 else console_vprintf g va'
               | [] \<Rightarrow> console_vprintf g va') })
         else if d = CHR ''x'' then do {
           (x, va') \<leftarrow> va_arg_word SIZE_INT va;
           map_option ((@) (put_hex x)) (console_vprintf f' va') }
         else if d = CHR ''%'' then map_option ((#) CHR ''%'') (console_vprintf f' va)
         else console_vprintf f' va)"
  by pat_completeness auto
termination
  by (relation "measure (\<lambda>(f, va). length f)")
    (auto dest: long_size_eq)

definition console_puts :: "string \<Rightarrow> kstate \<Rightarrow> kstate" where
  "console_puts t s = s\<lparr>console_out := console_out s @ t\<rparr>"

definition console_write :: "(nat \<Rightarrow> char) \<Rightarrow> nat \<Rightarrow> kstate \<Rightarrow> kstate" where
  "console_write b len s = s\<lparr>console_out := console_out s @ map b [0..<len]\<rparr>"

definition console_printf :: "string \<Rightarrow> va list \<Rightarrow> kstate \<Rightarrow> kstate option" where
  "console_printf fmt va s = do { out \<leftarrow> console_vprintf fmt va; Some (console_puts out s) }"

function console_log_16 :: "u64 \<Rightarrow> u32" where
  "console_log_16 n = (if n \<noteq> 0 then console_log_16 (drop_bit 4 n) + 1 else 0)"
  by pat_completeness auto
termination
proof (relation "measure unat", simp_all)
  fix n :: u64 assume "n \<noteq> 0"
  then have "0 < unat n" by (simp add: unat_gt_0)
  then show "unat (drop_bit 4 n) < unat n" by (simp add: drop_bit_eq_div unat_div)
qed

declare console_log_16.simps [simp del]

subsection \<open>Hexadecimal output\<close>

text \<open>The number a hexadecimal numeral stands for.\<close>

definition hex_digit_value :: "char \<Rightarrow> nat" where
  "hex_digit_value c = (let n = of_char c in if 97 \<le> n then n - 87 else n - 48)"

definition hex_value :: "string \<Rightarrow> nat" where
  "hex_value t = foldl (\<lambda>n c. 16 * n + hex_digit_value c) 0 t"

lemma hex_digit_value_digit: "d < 16 \<Longrightarrow> hex_digit_value (''0123456789abcdef'' ! d) = d"
proof -
  assume "d < 16"
  then have "d \<in> {0, 1, 2, 3, 4, 5, 6, 7, 8, 9, 10, 11, 12, 13, 14, 15}"
    unfolding insert_iff empty_iff by presburger
  then show ?thesis by (auto simp: hex_digit_value_def)
qed

lemma hex_digit_value_mod [simp]: "hex_digit_value (hex_digit (x mod 16)) = unat x mod 16"
  by (simp add: hex_digit_def unat_mod hex_digit_value_digit)

lemma hex_loop_0 [simp]: "hex_loop 0 acc = acc"
  by (simp add: hex_loop.simps)

lemma hex_loop_value:
  "foldl (\<lambda>n c. 16 * n + hex_digit_value c) 0 (hex_loop x acc)
     = foldl (\<lambda>n c. 16 * n + hex_digit_value c) (unat x) acc"
proof (induction x acc rule: hex_loop.induct)
  case (1 x acc)
  then show ?case
    by (cases "x = 0") (simp_all add: hex_loop.simps [of x acc] unat_div)
qed

lemma hex_loop_length: "unat x < 16 ^ k \<Longrightarrow> length (hex_loop x acc) \<le> length acc + k"
proof (induction k arbitrary: x acc)
  case 0
  then show ?case by (simp add: hex_loop.simps unat_eq_zero)
next
  case (Suc k)
  then have "unat (x div 16) < 16 ^ k" by (simp add: unat_div less_mult_imp_div_less mult.commute)
  from Suc.IH [OF this, of "hex_digit (x mod 16) # acc"] show ?case
    by (simp add: hex_loop.simps [of x acc])
qed

lemma hex_digit_nonzero: "x mod 16 \<noteq> 0 \<Longrightarrow> hex_digit (x mod 16) \<noteq> CHR ''0''"
proof
  assume nz: "x mod 16 \<noteq> 0" and "hex_digit (x mod 16) = CHR ''0''"
  then have "hex_digit_value (hex_digit (x mod 16)) = 0" by (simp add: hex_digit_value_def)
  then have "unat (x mod 16) = 0" by (simp add: unat_mod)
  with nz show False by (simp add: unat_eq_zero)
qed

lemma hex_loop_no_leading_zero: "x \<noteq> 0 \<Longrightarrow> hex_loop x acc \<noteq> [] \<and> hd (hex_loop x acc) \<noteq> CHR ''0''"
proof (induction x acc rule: hex_loop.induct)
  case (1 x acc)
  show ?case
  proof (cases "x div 16 = 0")
    case True
    then have "x mod 16 \<noteq> 0"
      using 1(2) by (metis add.right_neutral mult_zero_left word_mod_div_equality add_0)
    then show ?thesis
      using 1(2) True by (simp add: hex_loop.simps [of x] hex_digit_nonzero)
  next
    case False
    then show ?thesis using 1 by (simp add: hex_loop.simps [of x acc])
  qed
qed

text \<open>\<^verbatim>\<open>%x\<close>, \<^verbatim>\<open>%lx\<close> and \<^verbatim>\<open>%p\<close> print the value: the digits read back as the number, there are
  at most 16 of them (the size of the buffer the loop fills from its end, so it never writes
  before the buffer), and there is no leading zero.\<close>

lemma put_hex_correct:
  "hex_value (put_hex x) = unat x \<and> length (put_hex x) \<le> 16 \<and>
   (hd (put_hex x) = CHR ''0'' \<longleftrightarrow> x = 0)"
proof (cases "x = 0")
  case True
  then show ?thesis by (simp add: put_hex_def hex_value_def hex_digit_value_def)
next
  case False
  have "hex_value (put_hex x) = unat x"
    using False hex_loop_value [of x "[]"] by (simp add: put_hex_def hex_value_def)
  moreover have "length (put_hex x) \<le> 16"
    using False hex_loop_length [of x 16 "[]"] by (simp add: put_hex_def)
  moreover have "hd (put_hex x) \<noteq> CHR ''0''"
    using False hex_loop_no_leading_zero [of x] by (simp add: put_hex_def)
  ultimately show ?thesis using False by simp
qed

subsection \<open>Plain text and frames\<close>

lemma console_vprintf_plain [simp]: "CHR ''%'' \<notin> set t \<Longrightarrow> console_vprintf t va = Some t"
  by (induction t) auto

lemma console_printf_Some:
  "console_printf fmt va s = Some t \<Longrightarrow> \<exists>out. t = s\<lparr>console_out := console_out s @ out\<rparr>"
  by (auto simp: console_printf_def console_puts_def bind_eq_Some_conv)

end
