(* ===== verification/Sync.thy ===== *)
theory Sync
  imports Machine
begin

text \<open>
  \<^verbatim>\<open>kernel/src/sync.c\<close>: the spin lock, as one hart runs it (a loop that returns only when the
  lock was free) and as several harts run it (a step relation with one step per atomic
  instruction). The second part proves mutual exclusion and that a spinning hart can always still
  get the lock.
\<close>

subsection \<open>One hart\<close>

text \<open>\<^verbatim>\<open>atomic_compare_exchange\<close>: success, the new value of the lock, the new value of \<open>expected\<close>.\<close>

definition atomic_compare_exchange :: "bool \<Rightarrow> bool \<Rightarrow> bool \<Rightarrow> bool \<times> bool \<times> bool" where
  "atomic_compare_exchange lock expected desired =
     (if lock = expected then (True, desired, expected) else (False, lock, lock))"

partial_function (option) spin_loop :: "bool \<Rightarrow> bool \<Rightarrow> bool option" where
  "spin_loop lock expected =
     (case atomic_compare_exchange lock expected True of
        (ok, lock', expected') \<Rightarrow> if ok then Some lock' else spin_loop lock' False)"

definition spin_lock :: "bool \<Rightarrow> bool option" where
  "spin_lock lock = spin_loop lock False"

definition spin_unlock :: "bool \<Rightarrow> bool" where
  "spin_unlock lock = False"

lemma spin_loop_held:
  assumes ret: "spin_loop lock expected = Some r"
  shows "\<not> expected \<longrightarrow> \<not> lock \<and> r"
proof (rule spin_loop.raw_induct [where P = "\<lambda>lock expected r. \<not> expected \<longrightarrow> \<not> lock \<and> r", OF _ ret])
  fix spin lock expected r
  assume IH: "\<And>lock expected r. spin lock expected = Some r \<Longrightarrow> \<not> expected \<longrightarrow> \<not> lock \<and> r"
    and eq: "(case atomic_compare_exchange lock expected True of
        (ok, lock', expected') \<Rightarrow> if ok then Some lock' else spin lock' False) = Some r"
  show "\<not> expected \<longrightarrow> \<not> lock \<and> r"
    using eq IH [of lock False r] by (auto simp: atomic_compare_exchange_def split: if_splits)
qed

lemma spin_lock_simps [simp]: "spin_lock False = Some True" "spin_lock True = None"
proof -
  show "spin_lock False = Some True"
    by (simp add: spin_lock_def spin_loop.simps atomic_compare_exchange_def)
  show "spin_lock True = None"
    by (cases "spin_lock True") (auto simp: spin_lock_def dest: spin_loop_held)
qed

lemma spin_lock_Some [simp]: "spin_lock l = Some r \<longleftrightarrow> \<not> l \<and> r"
  by (cases l) auto

lemma spin_unlock_simp [simp]: "spin_unlock l = False"
  by (simp add: spin_unlock_def)

text \<open>The page allocator's lock.\<close>

definition heap_lock :: "kstate \<Rightarrow> kstate option" where
  "heap_lock s = do { l \<leftarrow> spin_lock (mutating_heap s); Some (s\<lparr>mutating_heap := l\<rparr>) }"

definition heap_unlock :: "kstate \<Rightarrow> kstate" where
  "heap_unlock s = s\<lparr>mutating_heap := spin_unlock (mutating_heap s)\<rparr>"

lemma heap_lock_free [simp]: "\<not> mutating_heap s \<Longrightarrow> heap_lock s = Some (s\<lparr>mutating_heap := True\<rparr>)"
  by (simp add: heap_lock_def)

lemma heap_lock_held [simp]: "mutating_heap s \<Longrightarrow> heap_lock s = None"
  by (simp add: heap_lock_def)

subsection \<open>Several harts\<close>

text \<open>Where a hart is: outside, in the loop of \<^verbatim>\<open>spin_lock\<close> with its local \<open>expected\<close>, or after
  it.\<close>

datatype spin_pc = Outside | Spinning bool | Holding

record spin_sys =
  spin_t :: bool
  harts :: "nat \<Rightarrow> spin_pc"

definition spin_init :: spin_sys where
  "spin_init = \<lparr>spin_t = False, harts = (\<lambda>_. Outside)\<rparr>"

text \<open>One rule per atomic step. The compare-exchange is the weak one, so it may also fail for no
  reason; after a failure the loop sets \<open>expected\<close> back to \<open>false\<close>.\<close>

inductive spin_step :: "spin_sys \<Rightarrow> spin_sys \<Rightarrow> bool" where
  enter: "harts y i = Outside \<Longrightarrow> spin_step y (y\<lparr>harts := (harts y)(i := Spinning False)\<rparr>)"
| cas_ok: "harts y i = Spinning e \<Longrightarrow> spin_t y = e \<Longrightarrow>
     spin_step y (y\<lparr>spin_t := True, harts := (harts y)(i := Holding)\<rparr>)"
| cas_fail: "harts y i = Spinning e \<Longrightarrow>
     spin_step y (y\<lparr>harts := (harts y)(i := Spinning False)\<rparr>)"
| unlock: "harts y i = Holding \<Longrightarrow>
     spin_step y (y\<lparr>spin_t := spin_unlock (spin_t y), harts := (harts y)(i := Outside)\<rparr>)"

inductive_cases spin_stepE: "spin_step y z"

inductive spin_reachable :: "spin_sys \<Rightarrow> bool" where
  init: "spin_reachable spin_init"
| step: "spin_reachable y \<Longrightarrow> spin_step y z \<Longrightarrow> spin_reachable z"

definition spin_inv :: "spin_sys \<Rightarrow> bool" where
  "spin_inv y \<longleftrightarrow>
     (\<forall>i e. harts y i = Spinning e \<longrightarrow> \<not> e) \<and>
     (\<forall>i. harts y i = Holding \<longrightarrow> spin_t y) \<and>
     (spin_t y \<longrightarrow> (\<exists>i. harts y i = Holding)) \<and>
     (\<forall>i j. harts y i = Holding \<longrightarrow> harts y j = Holding \<longrightarrow> i = j)"

lemma spin_step_inv: "spin_step y z \<Longrightarrow> spin_inv y \<Longrightarrow> spin_inv z"
proof (induction rule: spin_step.induct)
  case (enter y i)
  then have "harts y k = Holding \<Longrightarrow> k \<noteq> i" for k by auto
  then show ?case using enter unfolding spin_inv_def by (auto split: if_splits)
next
  case (cas_ok y i e)
  then show ?case unfolding spin_inv_def by (auto split: if_splits)
next
  case (cas_fail y i e)
  then have "harts y k = Holding \<Longrightarrow> k \<noteq> i" for k by auto
  then show ?case using cas_fail unfolding spin_inv_def by (auto split: if_splits)
next
  case (unlock y i)
  then show ?case unfolding spin_inv_def by (auto split: if_splits)
qed

lemma spin_reachable_inv: "spin_reachable y \<Longrightarrow> spin_inv y"
proof (induction rule: spin_reachable.induct)
  case init
  show ?case by (simp add: spin_inv_def spin_init_def)
next
  case (step y z)
  then show ?case by (blast intro: spin_step_inv)
qed

text \<open>C37. Mutual exclusion of the spin lock: in every state that any number of harts can reach
  by interleaving the atomic steps of \<^verbatim>\<open>spin_lock\<close> and \<^verbatim>\<open>spin_unlock\<close>, at most one hart is
  past \<^verbatim>\<open>spin_lock\<close>.\<close>

theorem spin_mutual_exclusion:
  "spin_reachable y \<Longrightarrow> harts y i = Holding \<Longrightarrow> harts y j = Holding \<Longrightarrow> i = j"
  using spin_reachable_inv by (auto simp: spin_inv_def)

lemma spin_reachable_holding:
  "spin_reachable (spin_init\<lparr>spin_t := True, harts := (\<lambda>_. Outside)(0 := Holding)\<rparr>)"
proof -
  let ?a = "spin_init\<lparr>harts := (harts spin_init)(0 := Spinning False)\<rparr>"
  have "spin_reachable ?a"
    by (rule spin_reachable.step [OF spin_reachable.init]) (rule spin_step.enter, simp add: spin_init_def)
  moreover have "spin_step ?a (?a\<lparr>spin_t := True, harts := (harts ?a)(0 := Holding)\<rparr>)"
    by (rule spin_step.cas_ok [where e = False]) (simp_all add: spin_init_def)
  ultimately have "spin_reachable (?a\<lparr>spin_t := True, harts := (harts ?a)(0 := Holding)\<rparr>)"
    by (rule spin_reachable.step)
  moreover have "?a\<lparr>spin_t := True, harts := (harts ?a)(0 := Holding)\<rparr>
      = spin_init\<lparr>spin_t := True, harts := (\<lambda>_. Outside)(0 := Holding)\<rparr>"
    by (simp add: spin_init_def)
  ultimately show ?thesis by simp
qed

theorem spin_mutual_exclusion_witness:
  "\<exists>y. spin_reachable y \<and> harts y 0 = Holding \<and> \<not> (harts y 1 = Holding)"
proof -
  let ?y = "spin_init\<lparr>spin_t := True, harts := (\<lambda>_. Outside)(0 := Holding)\<rparr>"
  have h0: "harts ?y 0 = Holding" by simp
  have "harts ?y 1 \<noteq> Holding"
  proof
    assume "harts ?y 1 = Holding"
    from spin_mutual_exclusion [OF spin_reachable_holding h0 this] show False by simp
  qed
  with spin_reachable_holding h0 show ?thesis by blast
qed

text \<open>No lockout: from every reachable state in which a hart spins there is a continuation in
  which it gets the lock (the holder releases it, then the next compare-exchange succeeds).\<close>

theorem spin_no_lockout:
  assumes "spin_reachable y" and "harts y i = Spinning e"
  shows "\<exists>z. spin_step\<^sup>*\<^sup>* y z \<and> harts z i = Holding"
proof -
  have inv: "spin_inv y" using assms(1) by (rule spin_reachable_inv)
  then have e: "\<not> e" using assms(2) by (auto simp: spin_inv_def)
  have free: "\<exists>z. spin_step w z \<and> harts z i = Holding"
    if "harts w i = Spinning False" "\<not> spin_t w" for w
  proof (intro exI conjI)
    show "spin_step w (w\<lparr>spin_t := True, harts := (harts w)(i := Holding)\<rparr>)"
      using that by (intro spin_step.cas_ok [where e = False]) auto
  qed simp
  show ?thesis
  proof (cases "spin_t y")
    case False
    with assms(2) e obtain z where "spin_step y z" "harts z i = Holding" using free [of y] by auto
    then show ?thesis by (meson r_into_rtranclp)
  next
    case True
    then obtain j where j: "harts y j = Holding" using inv by (auto simp: spin_inv_def)
    let ?w = "y\<lparr>spin_t := spin_unlock (spin_t y), harts := (harts y)(j := Outside)\<rparr>"
    have "spin_step y ?w" using j by (rule spin_step.unlock)
    moreover have "harts ?w i = Spinning False" using assms(2) j e by auto
    then obtain z where "spin_step ?w z" "harts z i = Holding" using free [of ?w] by auto
    ultimately show ?thesis by (meson converse_rtranclp_into_rtranclp r_into_rtranclp)
  qed
qed

theorem spin_no_lockout_witness:
  "\<exists>z. spin_step\<^sup>*\<^sup>* (spin_init\<lparr>harts := (harts spin_init)(3 := Spinning False)\<rparr>) z \<and>
       harts z 3 = Holding"
proof (rule spin_no_lockout [where e = False])
  show "spin_reachable (spin_init\<lparr>harts := (harts spin_init)(3 := Spinning False)\<rparr>)"
    by (rule spin_reachable.step [OF spin_reachable.init]) (rule spin_step.enter, simp add: spin_init_def)
qed simp

end
