(* ===== verification/Addr.thy ===== *)
theory Addr
  imports Machine
begin

text \<open>
  The address conversions at the top of \<^verbatim>\<open>kernel/src/mmu.c\<close>: physical addresses to the kernel's
  window (\<^verbatim>\<open>phys2safe\<close>) and back (\<^verbatim>\<open>safe2phys\<close>), with their \<^verbatim>\<open>_nommu\<close> variants.
\<close>

definition phys2safe :: "kstate \<Rightarrow> u64 \<Rightarrow> u64" where
  "phys2safe s phys_addr =
     (if mmu_enabled s \<and> phys_addr \<le> KERNEL_SPACE_OFFSET then
        (if phys_addr + KERNEL_SPACE_OFFSET \<ge> KERNEL_SPACE_OFFSET
         then phys_addr + KERNEL_SPACE_OFFSET else 0)
      else phys_addr)"

definition phys2safe_nommu :: "u64 \<Rightarrow> u64" where
  "phys2safe_nommu phys_addr =
     (if phys_addr \<le> KERNEL_SPACE_OFFSET then
        (if phys_addr + KERNEL_SPACE_OFFSET \<ge> KERNEL_SPACE_OFFSET
         then phys_addr + KERNEL_SPACE_OFFSET else 0)
      else phys_addr)"

definition safe2phys :: "kstate \<Rightarrow> u64 \<Rightarrow> u64" where
  "safe2phys s safe_addr =
     (if mmu_enabled s \<and> safe_addr \<ge> KERNEL_SPACE_OFFSET
      then safe_addr - KERNEL_SPACE_OFFSET else safe_addr)"

definition safe2phys_nommu :: "u64 \<Rightarrow> u64" where
  "safe2phys_nommu safe_addr =
     (if safe_addr \<ge> KERNEL_SPACE_OFFSET then safe_addr - KERNEL_SPACE_OFFSET else safe_addr)"

subsection \<open>The window\<close>

text \<open>The window covers the first \<open>2 ^ 38\<close> bytes of physical memory.\<close>

definition window_size :: nat where "window_size = 2 ^ 38"

lemma unat_KSO [simp]: "unat KERNEL_SPACE_OFFSET = 18446743798831644672"
  by (simp add: KERNEL_SPACE_OFFSET_def)

lemma window_no_wrap:
  "unat (a + KERNEL_SPACE_OFFSET) =
     (if unat a < window_size then unat a + unat KERNEL_SPACE_OFFSET
      else unat a + unat KERNEL_SPACE_OFFSET - 2 ^ 64)"
  using unat_lt64 [of a] by (auto simp: unat_plus_if' window_size_def)

lemma phys2safe_window:
  "unat a < window_size \<Longrightarrow>
     phys2safe s a = (if mmu_enabled s then a + KERNEL_SPACE_OFFSET else a)"
  by (simp add: phys2safe_def word_le_nat_alt window_no_wrap) (simp add: window_size_def)

lemma phys2safe_outside:
  "window_size \<le> unat a \<Longrightarrow> mmu_enabled s \<Longrightarrow>
     phys2safe s a = (if a \<le> KERNEL_SPACE_OFFSET then 0 else a)"
  by (auto simp: phys2safe_def word_le_nat_alt window_no_wrap)

lemma phys2safe_nonzero: "unat t < window_size \<Longrightarrow> t \<noteq> 0 \<Longrightarrow> phys2safe s t \<noteq> 0"
  using window_no_wrap [of t] by (auto simp: phys2safe_window)

lemma kaddr_phys2safe [simp]: "unat a < window_size \<Longrightarrow> kaddr s (phys2safe s a) = a"
  by (simp add: phys2safe_window kaddr_def word_le_nat_alt window_no_wrap)

lemma phys2safe_add:
  "unat a + i < window_size \<Longrightarrow> phys2safe s (a + of_nat i) = phys2safe s a + of_nat i"
  using unat_add_nowrap [of a i] by (simp add: phys2safe_window window_size_def)

lemma kaddr_phys2safe_add [simp]:
  "unat a + i < window_size \<Longrightarrow> kaddr s (phys2safe s a + of_nat i) = a + of_nat i"
  using unat_add_nowrap [of a i] by (simp add: phys2safe_add [symmetric] window_size_def)

lemma safe2phys_kaddr: "safe2phys s a = kaddr s a"
  by (simp add: safe2phys_def kaddr_def)

lemma phys2safe_frame [simp, frame_simps]:
  "phys2safe (s\<lparr>mem := m\<rparr>) = phys2safe s"
  "phys2safe (s\<lparr>mutating_heap := l\<rparr>) = phys2safe s"
  "phys2safe (s\<lparr>GLOBAL_ALLOC := g\<rparr>) = phys2safe s"
  "phys2safe (s\<lparr>console_out := c\<rparr>) = phys2safe s"
  by (auto simp: phys2safe_def fun_eq_iff)

text \<open>The conversions round-trip on the physical memory the window covers, with the MMU on
  and off; a window address is never taken for a low one.\<close>

theorem safe2phys_phys2safe:
  "unat a < window_size \<Longrightarrow>
     safe2phys s (phys2safe s a) = a \<and> (mmu_enabled s \<longrightarrow> KERNEL_SPACE_OFFSET \<le> phys2safe s a) \<and>
     safe2phys_nommu (phys2safe_nommu a) = a"
proof -
  assume a: "unat a < window_size"
  have "phys2safe_nommu a = a + KERNEL_SPACE_OFFSET"
    using a by (simp add: phys2safe_nommu_def word_le_nat_alt window_no_wrap) (simp add: window_size_def)
  then have "safe2phys_nommu (phys2safe_nommu a) = a"
    using a by (simp add: safe2phys_nommu_def word_le_nat_alt window_no_wrap)
  moreover have "mmu_enabled s \<longrightarrow> KERNEL_SPACE_OFFSET \<le> phys2safe s a"
    using a by (simp add: phys2safe_window word_le_nat_alt window_no_wrap)
  ultimately show ?thesis using a by (simp add: safe2phys_kaddr)
qed

theorem safe2phys_phys2safe_witness:
  "safe2phys (kstate0\<lparr>satp := 0x8000000000080000\<rparr>)
     (phys2safe (kstate0\<lparr>satp := 0x8000000000080000\<rparr>) 0x80200000) = 0x80200000"
  using safe2phys_phys2safe [of "0x80200000" "kstate0\<lparr>satp := 0x8000000000080000\<rparr>"]
  by (simp add: window_size_def)

text \<open>With the MMU on, \<^verbatim>\<open>phys2safe\<close> never returns NULL for a NULL argument: it returns the
  start of the window. The checks \<^verbatim>\<open>if (unformatted == NULL)\<close> that follow
  \<^verbatim>\<open>unformatted = phys2safe(alloc_pages(..))\<close> in the allocator are therefore dead once
  paging is on.\<close>

theorem phys2safe_null:
  "phys2safe s 0 = (if mmu_enabled s then KERNEL_SPACE_OFFSET else 0) \<and> KERNEL_SPACE_OFFSET \<noteq> 0"
  by (simp add: phys2safe_def KERNEL_SPACE_OFFSET_def)

end
