(* ===== verification/Page_Alloc.thy ===== *)
theory Page_Alloc
  imports Console Sync Addr
begin

text \<open>
  The page allocator of \<^verbatim>\<open>kernel/src/memory.c\<close>: a table of 16-bit reference counts between
  \<^verbatim>\<open>pages_bottom\<close> and \<^verbatim>\<open>heap_bottom\<close>, one entry per page of the pool that starts at
  \<^verbatim>\<open>heap_bottom\<close>. The operations work on the table through pointers, in the byte memory.
\<close>

abbreviation NL :: char where "NL \<equiv> CHR 0x0A"

subsection \<open>Pointer loops\<close>

text \<open>\<^verbatim>\<open>for (q = from; q < end; q++) body\<close> with \<open>k\<close> bytes per element. The loop need not end when the
  pointer can step over the end of the address space, so it is a partial function.\<close>

partial_function (option) for_ptr ::
  "u64 \<Rightarrow> (u64 \<Rightarrow> kstate \<Rightarrow> kstate) \<Rightarrow> u64 \<Rightarrow> u64 \<Rightarrow> kstate \<Rightarrow> kstate option" where
  "for_ptr k body q e s = (if q < e then for_ptr k body (q + k) e (body q s) else Some s)"

primrec ptr_iter :: "nat \<Rightarrow> u64 \<Rightarrow> (u64 \<Rightarrow> kstate \<Rightarrow> kstate) \<Rightarrow> u64 \<Rightarrow> kstate \<Rightarrow> kstate" where
  "ptr_iter 0 k body q s = s"
| "ptr_iter (Suc n) k body q s = ptr_iter n k body (q + k) (body q s)"

lemma for_ptr_iter:
  assumes "0 < unat k" and "unat q + unat k * n < 2 ^ 64"
  shows "for_ptr k body q (q + of_nat (unat k * n)) s = Some (ptr_iter n k body q s)"
  using assms(2)
proof (induction n arbitrary: q s)
  case 0
  then show ?case by (simp add: for_ptr.simps)
next
  case (Suc n)
  let ?e = "q + of_nat (unat k * Suc n)"
  have e: "unat ?e = unat q + unat k * Suc n" using Suc.prems by (intro unat_add_nowrap) simp
  have lt: "q < ?e" using assms(1) e by (simp add: word_less_nat_alt)
  have uk: "unat (q + k) = unat q + unat k"
    using Suc.prems unat_add_nowrap [of q "unat k"] by simp
  have "?e = (q + k) + of_nat (unat k * n)" by (simp add: algebra_simps)
  moreover have "unat (q + k) + unat k * n < 2 ^ 64" using Suc.prems uk by simp
  ultimately have "for_ptr k body (q + k) ?e (body q s) = Some (ptr_iter n k body (q + k) (body q s))"
    using Suc.IH by metis
  then show ?case using lt by (subst for_ptr.simps) simp
qed

subsection \<open>Operations\<close>

definition page_ref_count :: "kstate \<Rightarrow> u64 \<Rightarrow> u64" where
  "page_ref_count s page =
     (if page > heap_bottom s
      then pages_bottom s + 2 * word_of_int (sint (page - heap_bottom s) sdiv 4096)
      else 0)"

primrec mark_loop :: "nat \<Rightarrow> u64 \<Rightarrow> kstate \<Rightarrow> kstate" where
  "mark_loop 0 p s = s"
| "mark_loop (Suc n) p s = mark_loop n (p + 2) (st16 p 1 s)"

definition mark_as_used :: "kstate \<Rightarrow> u64 \<Rightarrow> u64 \<Rightarrow> kstate option" where
  "mark_as_used s page sz = do {
     s \<leftarrow> heap_lock s;
     let p = page_ref_count s page;
     if p = 0 then Some (heap_unlock s)
     else Some (heap_unlock (mark_loop (unat ((sz + PAGE_SIZE - 1) div PAGE_SIZE)) p s)) }"

partial_function (option) run_free :: "kstate \<Rightarrow> u64 \<Rightarrow> u64 \<Rightarrow> bool option" where
  "run_free s q e =
     (if q < e then (if ld16 s q \<noteq> 0 then Some False else run_free s (q + 2) e) else Some True)"

partial_function (option) find_run :: "kstate \<Rightarrow> u64 \<Rightarrow> u64 \<Rightarrow> u64 option option" where
  "find_run s count p =
     (if p < heap_bottom s - 2 * count then do {
        enough \<leftarrow> (if ld16 s p = 0 then run_free s (p + 2) (p + 2 * count) else Some False);
        if enough then Some (Some p) else find_run s count (p + 2) }
      else Some None)"

definition alloc_pages :: "kstate \<Rightarrow> u64 \<Rightarrow> (u64 \<times> kstate) option" where
  "alloc_pages s count = do {
     s \<leftarrow> heap_lock s;
     r \<leftarrow> find_run s count (pages_bottom s);
     case r of
       Some p \<Rightarrow> do {
         s \<leftarrow> for_ptr 2 (\<lambda>q. st16 q 1) p (p + 2 * count) s;
         let page = heap_bottom s + 4096 * word_of_int (sint (p - pages_bottom s) sdiv 2);
         let page = phys2safe s page;
         s \<leftarrow> for_ptr 8 (\<lambda>q. st64 q 0) page (page + 4096 * count) s;
         Some (safe2phys s page, heap_unlock s) }
     | None \<Rightarrow> do {
         s \<leftarrow> console_printf (''[alloc_pages] unable to allocate %lx pages'' @ [NL]) [VWord count] s;
         Some (0, heap_unlock s) } }"

primrec incr_loop :: "nat \<Rightarrow> u64 \<Rightarrow> kstate \<Rightarrow> kstate" where
  "incr_loop 0 rc s = s"
| "incr_loop (Suc n) rc s =
     incr_loop n (rc + 2)
       (if ld16 s rc \<noteq> 0xffff \<and> ld16 s rc \<noteq> 0 then st16 rc (ld16 s rc + 1) s else s)"

definition incr_page_ref_count :: "kstate \<Rightarrow> u64 \<Rightarrow> u64 \<Rightarrow> kstate option" where
  "incr_page_ref_count s page count = do {
     s \<leftarrow> heap_lock s;
     let rc = page_ref_count s page;
     if rc = 0 then Some (heap_unlock s)
     else Some (heap_unlock (incr_loop (unat count) rc s)) }"

primrec decr_loop :: "nat \<Rightarrow> u64 \<Rightarrow> kstate \<Rightarrow> kstate" where
  "decr_loop 0 rc s = s"
| "decr_loop (Suc n) rc s =
     decr_loop n (rc + 2) (if ld16 s rc \<noteq> 0 then st16 rc (ld16 s rc - 1) s else s)"

definition dealloc_pages :: "kstate \<Rightarrow> u64 \<Rightarrow> u64 \<Rightarrow> kstate option" where
  "dealloc_pages s page count = do {
     s \<leftarrow> heap_lock s;
     let page = safe2phys s page;
     let rc = page_ref_count s page;
     if rc = 0 then Some (heap_unlock s)
     else Some (heap_unlock (decr_loop (unat count) rc s)) }"

subsection \<open>Layout of the table and the pool\<close>

text \<open>\<open>page_layout s N\<close>: the table has \<open>N\<close> entries, the pool of \<open>N\<close> pages follows it, and both lie
  inside the window the kernel can address.\<close>

definition page_layout :: "kstate \<Rightarrow> nat \<Rightarrow> bool" where
  "page_layout s N \<longleftrightarrow>
     pages_bottom s \<noteq> 0 \<and> 4096 dvd unat (heap_bottom s) \<and>
     unat (heap_bottom s) = unat (pages_bottom s) + 2 * N \<and>
     unat (heap_bottom s) + 4096 * N < window_size"

definition rc_ptr :: "kstate \<Rightarrow> nat \<Rightarrow> u64" where
  "rc_ptr s i = pages_bottom s + of_nat (2 * i)"

definition rc :: "kstate \<Rightarrow> nat \<Rightarrow> u16" where
  "rc s i = ld16 s (rc_ptr s i)"

definition page_addr :: "kstate \<Rightarrow> nat \<Rightarrow> u64" where
  "page_addr s i = heap_bottom s + of_nat (4096 * i)"

lemma page_layoutD:
  assumes "page_layout s N"
  shows "unat (heap_bottom s) = unat (pages_bottom s) + 2 * N"
    and "unat (heap_bottom s) + 4096 * N < window_size"
    and "unat (pages_bottom s) + 4098 * N < 274877906944"
    and "0 < unat (pages_bottom s)"
    and "4096 dvd unat (heap_bottom s)"
  using assms by (auto simp: page_layout_def window_size_def unat_gt_0)

lemma unat_rc_ptr: "page_layout s N \<Longrightarrow> i \<le> N \<Longrightarrow> unat (rc_ptr s i) = unat (pages_bottom s) + 2 * i"
  unfolding rc_ptr_def by (rule unat_add_nowrap) (simp add: page_layout_def window_size_def)

lemma unat_page_addr: "page_layout s N \<Longrightarrow> i \<le> N \<Longrightarrow> unat (page_addr s i) = unat (heap_bottom s) + 4096 * i"
  unfolding page_addr_def by (rule unat_add_nowrap) (simp add: page_layout_def window_size_def)

lemma rc_ptr_Suc: "rc_ptr s (Suc i) = rc_ptr s i + 2"
  by (simp add: rc_ptr_def algebra_simps)

lemma rc_ptr_N: "page_layout s N \<Longrightarrow> heap_bottom s = rc_ptr s N"
  by (rule word_unat_eq_iff [THEN iffD2]) (simp add: unat_rc_ptr, simp add: page_layout_def)

lemma kaddr_small: "unat a \<le> window_size \<Longrightarrow> kaddr s a = a"
  by (rule kaddr_low) (simp add: word_le_nat_alt window_size_def)

lemma kaddr_rc_ptr: "page_layout s N \<Longrightarrow> i \<le> N \<Longrightarrow> kaddr s (rc_ptr s i) = rc_ptr s i"
  by (rule kaddr_small) (simp add: unat_rc_ptr, simp add: page_layout_def)

lemma page_layout_frame [simp, frame_simps]:
  "page_layout (s\<lparr>mem := m\<rparr>) N = page_layout s N"
  "page_layout (s\<lparr>mutating_heap := l\<rparr>) N = page_layout s N"
  "page_layout (s\<lparr>console_out := c\<rparr>) N = page_layout s N"
  "page_layout (s\<lparr>GLOBAL_ALLOC := g\<rparr>) N = page_layout s N"
  by (simp_all add: page_layout_def)

lemma rc_ptr_frame [simp, frame_simps]:
  "rc_ptr (s\<lparr>mem := m\<rparr>) = rc_ptr s"
  "rc_ptr (s\<lparr>mutating_heap := l\<rparr>) = rc_ptr s"
  "rc_ptr (s\<lparr>console_out := c\<rparr>) = rc_ptr s"
  "rc_ptr (s\<lparr>GLOBAL_ALLOC := g\<rparr>) = rc_ptr s"
  by (simp_all add: rc_ptr_def fun_eq_iff)

lemma page_layout_bound: "page_layout s N \<Longrightarrow> unat (pages_bottom s) + 4098 * N \<le> 2 ^ 38"
  by (simp add: page_layout_def window_size_def)

lemma rc_ptr_sep: "page_layout s N \<Longrightarrow> i < N \<Longrightarrow> j < N \<Longrightarrow> i \<noteq> j \<Longrightarrow> sep (rc_ptr s i) 2 (rc_ptr s j) 2"
  using page_layout_bound [of s N] unat_rc_ptr [of s N i] unat_rc_ptr [of s N j]
  by (intro sep_nat) auto

lemma rc_st16:
  assumes "page_layout s N" "i < N" "j < N"
  shows "rc (st16 (rc_ptr s i) v s) j = (if i = j then v else rc s j)"
proof (cases "i = j")
  case True
  then show ?thesis by (simp add: rc_def st16_def ld16_def)
next
  case False
  then show ?thesis
    using assms rc_ptr_sep [of s N i j]
    by (simp add: rc_def st16_def ld16_def kaddr_rc_ptr read_write_le_sep)
qed

lemma rc_frame [simp, frame_simps]:
  "rc (s\<lparr>mutating_heap := l\<rparr>) = rc s"
  "rc (s\<lparr>console_out := c\<rparr>) = rc s"
  "rc (s\<lparr>GLOBAL_ALLOC := g\<rparr>) = rc s"
  by (simp_all add: rc_def ld16_def fun_eq_iff)

lemma page_layout_st [simp, frame_simps]:
  "page_layout (st16 a v s) N = page_layout s N" "page_layout (st64 a w s) N = page_layout s N"
  "rc_ptr (st16 a v s) = rc_ptr s" "rc_ptr (st64 a w s) = rc_ptr s"
  by (simp_all add: st16_def st64_def)

subsection \<open>The loops over the table\<close>

lemma rc_ptr_less: "page_layout s N \<Longrightarrow> i \<le> N \<Longrightarrow> j \<le> N \<Longrightarrow> rc_ptr s i < rc_ptr s j \<longleftrightarrow> i < j"
  by (simp add: word_less_nat_alt unat_rc_ptr)

lemma run_free_eq:
  "page_layout s N \<Longrightarrow> i + n \<le> N \<Longrightarrow>
     run_free s (rc_ptr s i) (rc_ptr s (i + n)) = Some (\<forall>j<n. rc s (i + j) = 0)"
proof (induction n arbitrary: i)
  case 0
  then show ?case by (simp add: run_free.simps)
next
  case (Suc n)
  have lt: "rc_ptr s i < rc_ptr s (i + Suc n)" using Suc.prems by (subst rc_ptr_less) auto
  have IH: "run_free s (rc_ptr s (Suc i)) (rc_ptr s (Suc i + n)) = Some (\<forall>j<n. rc s (Suc i + j) = 0)"
    using Suc by (intro Suc.IH) auto
  have "(\<forall>j<Suc n. rc s (i + j) = 0) \<longleftrightarrow> rc s i = 0 \<and> (\<forall>j<n. rc s (Suc i + j) = 0)"
    by (auto simp: less_Suc_eq_0_disj)
  then show ?case
    using lt IH by (subst run_free.simps) (auto simp: rc_def rc_ptr_Suc)
qed

text \<open>The run of \<open>n\<close> pages from page \<open>i\<close> is free.\<close>

definition free_run :: "kstate \<Rightarrow> nat \<Rightarrow> nat \<Rightarrow> bool" where
  "free_run s n i \<longleftrightarrow> (\<forall>j<n. rc s (i + j) = 0)"

lemma run_limit: "page_layout s N \<Longrightarrow> n \<le> N \<Longrightarrow> heap_bottom s - 2 * of_nat n = rc_ptr s (N - n)"
  by (simp add: rc_ptr_N rc_ptr_def of_nat_diff algebra_simps)

lemma find_run_eq:
  assumes "page_layout s N" "0 < n" "n \<le> N"
  shows "i \<le> N - n \<Longrightarrow> find_run s (of_nat n) (rc_ptr s i) =
     Some (map_option (rc_ptr s) (find (free_run s n) [i..<N - n]))"
proof (induction "N - n - i" arbitrary: i)
  case 0
  then have "i = N - n" by simp
  then show ?case using assms by (subst find_run.simps) (simp add: run_limit)
next
  case (Suc d)
  then have i: "i < N - n" by simp
  have lt: "rc_ptr s i < heap_bottom s - 2 * of_nat n"
    using assms i rc_ptr_less [of s N i "N - n"] by (simp add: run_limit)
  obtain k where k: "n = Suc k" using assms(2) by (cases n) auto
  have a: "rc_ptr s i + 2 * of_nat n = rc_ptr s (Suc i + k)" by (simp add: rc_ptr_def k algebra_simps)
  have rest: "run_free s (rc_ptr s i + 2) (rc_ptr s i + 2 * of_nat n) = Some (\<forall>j<k. rc s (Suc i + j) = 0)"
    unfolding a rc_ptr_Suc [symmetric] using assms i k by (intro run_free_eq) auto
  have fr: "free_run s n i \<longleftrightarrow> rc s i = 0 \<and> (\<forall>j<k. rc s (Suc i + j) = 0)"
    by (auto simp: free_run_def k less_Suc_eq_0_disj)
  have IH: "find_run s (of_nat n) (rc_ptr s i + 2) =
      Some (map_option (rc_ptr s) (find (free_run s n) [Suc i..<N - n]))"
    using Suc.hyps(1) [of "Suc i"] Suc.hyps(2) i by (simp add: rc_ptr_Suc)
  show ?case
    using lt rest fr IH i by (subst find_run.simps) (auto simp: upt_conv_Cons rc_def)
qed

text \<open>The three loops that walk the table apply a function to each count.\<close>

primrec upd_loop :: "(u16 \<Rightarrow> u16) \<Rightarrow> nat \<Rightarrow> u64 \<Rightarrow> kstate \<Rightarrow> kstate" where
  "upd_loop f 0 p s = s"
| "upd_loop f (Suc n) p s = upd_loop f n (p + 2) (st16 p (f (ld16 s p)) s)"

definition incr1 :: "u16 \<Rightarrow> u16" where
  "incr1 x = (if x \<noteq> 0xffff \<and> x \<noteq> 0 then x + 1 else x)"

definition decr1 :: "u16 \<Rightarrow> u16" where
  "decr1 x = (if x \<noteq> 0 then x - 1 else x)"

lemma st16_ld16 [simp]: "st16 p (ld16 s p) s = s"
  by (simp add: st16_def ld16_def)

lemma loops_upd:
  "mark_loop n p s = upd_loop (\<lambda>_. 1) n p s"
  "incr_loop n p s = upd_loop incr1 n p s"
  "decr_loop n p s = upd_loop decr1 n p s"
proof -
  show "mark_loop n p s = upd_loop (\<lambda>_. 1) n p s" by (induction n arbitrary: p s) simp_all
  have "(if ld16 s rc \<noteq> 0xffff \<and> ld16 s rc \<noteq> 0 then st16 rc (ld16 s rc + 1) s else s) = st16 rc (incr1 (ld16 s rc)) s"
    for rc s unfolding incr1_def using st16_ld16 [of rc s] by (auto simp del: st16_ld16)
  then show "incr_loop n p s = upd_loop incr1 n p s"
    by (induction n arbitrary: p s) (simp_all only: incr_loop.simps upd_loop.simps)
  have "(if ld16 s rc \<noteq> 0 then st16 rc (ld16 s rc - 1) s else s) = st16 rc (decr1 (ld16 s rc)) s"
    for rc s unfolding decr1_def using st16_ld16 [of rc s] by (auto simp del: st16_ld16)
  then show "decr_loop n p s = upd_loop decr1 n p s"
    by (induction n arbitrary: p s) (simp_all only: decr_loop.simps upd_loop.simps)
qed

lemma mark_loop_iter: "ptr_iter n 2 (\<lambda>q. st16 q 1) p s = upd_loop (\<lambda>_. 1) n p s"
  by (induction n arbitrary: p s) simp_all

lemma same_regs_st [simp]: "same_regs s (st16 a v s)" "same_regs s (st64 a w s)"
  by (simp_all add: same_regs_def st16_def st64_def)

lemma upd_loop_regs: "same_regs s (upd_loop f n p s)"
  by (induction n arbitrary: p s) (auto intro: same_regs_trans [OF same_regs_st(1)])

lemma upd_loop_rc:
  "page_layout s N \<Longrightarrow> i + n \<le> N \<Longrightarrow> j < N \<Longrightarrow>
     rc (upd_loop f n (rc_ptr s i) s) j = (if i \<le> j \<and> j < i + n then f (rc s j) else rc s j)"
proof (induction n arbitrary: i s)
  case (Suc n)
  let ?t = "st16 (rc_ptr s i) (f (rc s i)) s"
  have "rc (upd_loop f n (rc_ptr ?t (Suc i)) ?t) j = (if Suc i \<le> j \<and> j < Suc i + n then f (rc ?t j) else rc ?t j)"
    using Suc.prems by (intro Suc.IH) auto
  moreover have "rc ?t j = (if i = j then f (rc s i) else rc s j)"
    using Suc.prems by (intro rc_st16) auto
  ultimately show ?case by (auto simp: rc_ptr_Suc rc_def)
qed auto

lemma in_rng_rc_ptr:
  "page_layout s N \<Longrightarrow> i + n \<le> N \<Longrightarrow>
     in_rng (rc_ptr s i) (2 * n) b \<longleftrightarrow>
       unat (pages_bottom s) + 2 * i \<le> unat b \<and> unat b < unat (pages_bottom s) + 2 * i + 2 * n"
  using page_layoutD [of s N] by (subst in_rng_nat) (auto simp: unat_rc_ptr)

lemma upd_loop_mem:
  "page_layout s N \<Longrightarrow> i + n \<le> N \<Longrightarrow> \<not> in_rng (rc_ptr s i) (2 * n) b \<Longrightarrow>
     mem (upd_loop f n (rc_ptr s i) s) b = mem s b"
proof (induction n arbitrary: i s)
  case (Suc n)
  let ?t = "st16 (rc_ptr s i) (f (ld16 s (rc_ptr s i))) s"
  have split: "in_rng (rc_ptr s i) (2 * Suc n) b \<longleftrightarrow> in_rng (rc_ptr s i) 2 b \<or> in_rng (rc_ptr s (Suc i)) (2 * n) b"
    using page_layoutD [of s N] Suc.prems in_rng_split [of 2 "2 * n" "rc_ptr s i" b] by (simp add: rc_ptr_Suc)
  have "mem (upd_loop f n (rc_ptr ?t (Suc i)) ?t) b = mem ?t b"
    using Suc.prems split by (intro Suc.IH) auto
  moreover have "mem ?t b = mem s b"
    using Suc.prems split by (simp add: st16_def kaddr_rc_ptr write_le_apply)
  ultimately show ?case by (simp add: rc_ptr_Suc)
qed simp

lemma zero_iter:
  "8 * n \<le> 2 ^ 64 \<Longrightarrow> (\<And>i. i < n \<Longrightarrow> kaddr s (q + of_nat (8 * i)) = a + of_nat (8 * i)) \<Longrightarrow>
     ptr_iter n 8 (\<lambda>q. st64 q 0) q s = s\<lparr>mem := (\<lambda>b. if in_rng a (8 * n) b then 0 else mem s b)\<rparr>"
proof (induction n arbitrary: q a s)
  case (Suc n)
  let ?t = "st64 q 0 s"
  have "kaddr ?t ((q + 8) + of_nat (8 * i)) = (a + 8) + of_nat (8 * i)" if "i < n" for i
    using Suc.prems(2) [of "Suc i"] that by (simp add: algebra_simps)
  then have IH: "ptr_iter n 8 (\<lambda>q. st64 q 0) (q + 8) ?t =
      ?t\<lparr>mem := (\<lambda>b. if in_rng (a + 8) (8 * n) b then 0 else mem ?t b)\<rparr>"
    using Suc.prems(1) by (intro Suc.IH) auto
  have "kaddr s q = a" using Suc.prems(2) [of 0] by simp
  moreover have "in_rng a (8 * Suc n) b \<longleftrightarrow> in_rng a 8 b \<or> in_rng (a + 8) (8 * n) b" for b
    using Suc.prems(1) in_rng_split [of 8 "8 * n" a b] by simp
  ultimately have "(\<lambda>b. if in_rng (a + 8) (8 * n) b then 0 else mem ?t b) =
      (\<lambda>b. if in_rng a (8 * Suc n) b then 0 else mem s b)"
    by (auto simp: st64_def write_le_apply fun_eq_iff)
  moreover have "?t\<lparr>mem := m\<rparr> = s\<lparr>mem := m\<rparr>" for m by (simp add: st64_def)
  ultimately show ?case using IH by simp
qed simp

subsection \<open>Allocation\<close>

text \<open>\<open>pages_taken s N i n t\<close>: from \<open>s\<close> to \<open>t\<close> exactly the pages \<open>i, \<dots>, i + n - 1\<close> went into use:
  their counts are 1, their bytes are zero, and no other byte and no register changed.\<close>

definition pages_taken :: "kstate \<Rightarrow> nat \<Rightarrow> nat \<Rightarrow> nat \<Rightarrow> kstate \<Rightarrow> bool" where
  "pages_taken s N i n t \<longleftrightarrow>
     same_regs s t \<and>
     (\<forall>j<N. rc t j = (if i \<le> j \<and> j < i + n then 1 else rc s j)) \<and>
     (\<forall>b. in_rng (page_addr s i) (4096 * n) b \<longrightarrow> mem t b = 0) \<and>
     (\<forall>b. \<not> in_rng (page_addr s i) (4096 * n) b \<and> \<not> in_rng (rc_ptr s i) (2 * n) b \<longrightarrow> mem t b = mem s b)"

lemma page_of_rc_ptr:
  assumes "page_layout s N" "i \<le> N"
  shows "heap_bottom s + 4096 * word_of_int (sint (rc_ptr s i - pages_bottom s) sdiv 2) = page_addr s i"
proof -
  have "2 * i < 2 ^ 63" using page_layout_bound [OF assms(1)] assms(2) by simp
  from signed_div_of_nat [OF this, of 2]
  have "word_of_int (sint (of_nat (2 * i) :: u64) sdiv 2) = (of_nat i :: u64)" by simp
  moreover have "rc_ptr s i - pages_bottom s = of_nat (2 * i)" by (simp add: rc_ptr_def)
  ultimately show ?thesis by (simp add: page_addr_def)
qed

lemma in_rng_page_addr:
  "page_layout s N \<Longrightarrow> i + n \<le> N \<Longrightarrow>
     in_rng (page_addr s i) (4096 * n) b \<longleftrightarrow>
       unat (heap_bottom s) + 4096 * i \<le> unat b \<and> unat b < unat (heap_bottom s) + 4096 * i + 4096 * n"
  using page_layoutD [of s N] by (subst in_rng_nat) (auto simp: unat_page_addr)

lemma unat8: "unat (8 :: u64) = 8" by simp

lemma zero_pages:
  assumes "page_layout s N" "i + n \<le> N"
  shows "for_ptr 8 (\<lambda>q. st64 q 0) (phys2safe s (page_addr s i))
            (phys2safe s (page_addr s i) + 4096 * of_nat n) s
         = Some (s\<lparr>mem := (\<lambda>b. if in_rng (page_addr s i) (4096 * n) b then 0 else mem s b)\<rparr>)"
proof -
  let ?a = "page_addr s i" and ?q = "phys2safe s (page_addr s i)"
  have lim: "unat ?a + 4096 * n < window_size"
    using assms page_layoutD(2) [OF assms(1)] by (simp add: unat_page_addr)
  have ka: "kaddr s (?q + of_nat (8 * j)) = ?a + of_nat (8 * j)" if "j < 512 * n" for j
    using lim that by (intro kaddr_phys2safe_add) simp
  have "unat ?q + 8 * (512 * n) < 2 ^ 64"
    using lim by (simp add: phys2safe_window window_no_wrap) (simp add: window_size_def)
  then have "for_ptr 8 (\<lambda>q. st64 q 0) ?q (?q + of_nat (8 * (512 * n))) s
      = Some (ptr_iter (512 * n) 8 (\<lambda>q. st64 q 0) ?q s)"
    by (rule for_ptr_iter [of 8 ?q "512 * n", unfolded unat8, rotated]) simp
  moreover have "ptr_iter (512 * n) 8 (\<lambda>q. st64 q 0) ?q s =
      s\<lparr>mem := (\<lambda>b. if in_rng ?a (8 * (512 * n)) b then 0 else mem s b)\<rparr>"
    using lim ka by (intro zero_iter) (simp_all add: window_size_def)
  moreover have "?q + 4096 * of_nat n = ?q + of_nat (8 * (512 * n))" by (simp add: algebra_simps)
  moreover have "8 * (512 * n) = 4096 * n" by simp
  ultimately show ?thesis by metis
qed

lemma unable_to_allocate:
  "console_vprintf (''[alloc_pages] unable to allocate %lx pages'' @ [NL]) [VWord count] =
     Some (''[alloc_pages] unable to allocate '' @ put_hex count @ '' pages'' @ [NL])"
  by (simp add: long_size_def va_arg_word_def)

lemma alloc_pages_Some:
  assumes lay: "page_layout s N" and free: "\<not> mutating_heap s" and n: "0 < n" "n \<le> N"
    and found: "find (free_run s n) [0..<N - n] = Some i"
  shows "\<exists>t. alloc_pages s (of_nat n) = Some (page_addr s i, t) \<and> pages_taken s N i n t"
proof -
  let ?s = "s\<lparr>mutating_heap := True\<rparr>"
  have i: "i < N - n" using found by (auto simp: find_Some_iff)
  have lay': "page_layout ?s N" using lay by simp
  have run: "find_run ?s (of_nat n) (pages_bottom ?s) = Some (Some (rc_ptr s i))"
    using find_run_eq [OF lay' n, of 0] found by (simp add: free_run_def [abs_def] rc_ptr_def)
  let ?m = "upd_loop (\<lambda>_. 1) n (rc_ptr s i) ?s"
  have "for_ptr 2 (\<lambda>q. st16 q 1) (rc_ptr s i) (rc_ptr s i + of_nat (unat (2 :: u64) * n)) ?s = Some ?m"
    using for_ptr_iter [of 2 "rc_ptr s i" n "\<lambda>q. st16 q 1" ?s] lay i page_layout_bound [OF lay]
    by (simp add: mark_loop_iter unat_rc_ptr)
  then have mark: "for_ptr 2 (\<lambda>q. st16 q 1) (rc_ptr s i) (rc_ptr s i + 2 * of_nat n) ?s = Some ?m"
    by simp
  have regs: "?m = ?s\<lparr>mem := mem ?m\<rparr>" using upd_loop_regs [of ?s "\<lambda>_. 1" n "rc_ptr s i"] by (simp add: same_regs_def)
  let ?t = "s\<lparr>mem := (\<lambda>b. if in_rng (page_addr s i) (4096 * n) b then 0 else mem ?m b)\<rparr>"
  have laym: "page_layout ?m N" using lay' regs by (metis page_layout_frame(1))
  have pm: "page_addr ?m i = page_addr s i" "rc_ptr ?m = rc_ptr s" "pages_bottom ?m = pages_bottom s"
    "phys2safe ?m = phys2safe s" "kaddr ?m = kaddr s"
    by (subst regs; simp add: page_addr_def)+
  have page: "heap_bottom ?m + 4096 * word_of_int (sint (rc_ptr s i - pages_bottom ?m) sdiv 2) = page_addr s i"
    using page_of_rc_ptr [OF laym, of i] i pm by simp
  have zero: "for_ptr 8 (\<lambda>q. st64 q 0) (phys2safe s (page_addr s i))
      (phys2safe s (page_addr s i) + 4096 * of_nat n) ?m =
      Some (?m\<lparr>mem := (\<lambda>b. if in_rng (page_addr s i) (4096 * n) b then 0 else mem ?m b)\<rparr>)"
    using zero_pages [OF laym, of i n] i pm by simp
  have small: "unat (page_addr s i) < window_size"
    using lay i page_layoutD(2) [OF lay] by (simp add: unat_page_addr)
  have "alloc_pages s (of_nat n) = Some (page_addr s i, ?t)"
    using free run mark page zero small pm
    by (simp add: alloc_pages_def Let_def safe2phys_kaddr heap_unlock_def) (subst regs, simp)
  moreover have "pages_taken s N i n ?t"
    unfolding pages_taken_def
  proof (intro conjI allI impI)
    fix j assume j: "j < N"
    have "ld16 ?t (rc_ptr s j) = ld16 ?m (rc_ptr s j)"
      unfolding ld16_def using j i lay kaddr_rc_ptr [OF lay, of j] pm page_layoutD [OF lay]
      by (simp, intro read_le_cong)
        (auto simp: in_rng_page_addr [OF lay] in_rng_nat unat_rc_ptr)
    then show "rc ?t j = (if i \<le> j \<and> j < i + n then 1 else rc s j)"
      using upd_loop_rc [OF lay', of i n j "\<lambda>_. 1"] i j pm by (simp add: rc_def)
  next
    fix b assume "\<not> in_rng (page_addr s i) (4096 * n) b \<and> \<not> in_rng (rc_ptr s i) (2 * n) b"
    then show "mem ?t b = mem s b"
      using upd_loop_mem [OF lay', of i n b] i by simp
  qed (simp_all add: same_regs_def)
  ultimately show ?thesis by blast
qed

lemma alloc_pages_None:
  assumes lay: "page_layout s N" and free: "\<not> mutating_heap s" and n: "0 < n" "n \<le> N"
    and found: "find (free_run s n) [0..<N - n] = None"
  shows "alloc_pages s (of_nat n) = Some (0, s\<lparr>console_out := console_out s @
     ''[alloc_pages] unable to allocate '' @ put_hex (of_nat n) @ '' pages'' @ [NL]\<rparr>)"
proof -
  let ?s = "s\<lparr>mutating_heap := True\<rparr>"
  have "page_layout ?s N" using lay by simp
  from find_run_eq [OF this n, of 0] found
  have run: "find_run ?s (of_nat n) (pages_bottom ?s) = Some None"
    by (simp add: free_run_def [abs_def] rc_ptr_def)
  have "console_printf (''[alloc_pages] unable to allocate %lx pages'' @ [NL]) [VWord (of_nat n)] ?s
    = Some (?s\<lparr>console_out := console_out s @
        ''[alloc_pages] unable to allocate '' @ put_hex (of_nat n) @ '' pages'' @ [NL]\<rparr>)"
    unfolding console_printf_def unable_to_allocate by (simp add: console_puts_def)
  with run free show ?thesis by (simp add: alloc_pages_def heap_unlock_def)
qed

text \<open>C6. First-fit allocation. \<^verbatim>\<open>alloc_pages(n)\<close> always returns, with the lock released. If some run of
  \<open>n\<close> free pages starts at an index below \<open>N - n\<close>, it returns the address of the first one, whose
  counts become 1 and whose bytes become zero, with everything else unchanged; otherwise it
  returns NULL, reports it on the console, and changes nothing else.\<close>

theorem alloc_pages_spec:
  assumes "page_layout s N" "\<not> mutating_heap s" "0 < n" "n \<le> N"
  shows "case find (free_run s n) [0..<N - n] of
           Some i \<Rightarrow> \<exists>t. alloc_pages s (of_nat n) = Some (page_addr s i, t) \<and> pages_taken s N i n t
         | None \<Rightarrow> alloc_pages s (of_nat n) = Some (0, s\<lparr>console_out := console_out s @
             ''[alloc_pages] unable to allocate '' @ put_hex (of_nat n) @ '' pages'' @ [NL]\<rparr>)"
  using assms by (auto split: option.split simp: alloc_pages_Some alloc_pages_None)

text \<open>A concrete machine: RAM as QEMU's virt machine has it, a table of 2048 counts, all free.\<close>

definition demo_state :: kstate where
  "demo_state = kstate0\<lparr>pages_bottom := 0x80420000, heap_bottom := 0x80421000\<rparr>"

lemma demo_layout: "page_layout demo_state 2048"
  by (simp add: page_layout_def demo_state_def kstate0_def window_size_def)

lemma read_le_zero: "read_le n (\<lambda>_. 0) a = 0"
  by (induction n arbitrary: a) simp_all

lemma demo_rc [simp]: "rc demo_state i = 0"
  by (simp add: rc_def ld16_def demo_state_def kstate0_def read_le_zero)

lemma demo_unlocked [simp]: "\<not> mutating_heap demo_state"
  by (simp add: demo_state_def kstate0_def)

lemma demo_first: "0 < n \<Longrightarrow> n < 2048 \<Longrightarrow> find (free_run demo_state n) [0..<2048 - n] = Some 0"
  by (subst upt_conv_Cons) (auto simp: free_run_def)

theorem alloc_pages_spec_witness:
  "\<exists>t. alloc_pages demo_state 3 = Some (0x80421000, t) \<and> pages_taken demo_state 2048 0 3 t"
proof -
  have "find (free_run demo_state 3) [0..<2048 - 3] = Some 0" by (rule demo_first) simp_all
  moreover have "page_addr demo_state 0 = 0x80421000" by (simp add: page_addr_def demo_state_def)
  ultimately show ?thesis
    using alloc_pages_spec [OF demo_layout demo_unlocked, of 3] by simp
qed

subsection \<open>Reference counting\<close>

lemma page_ref_count_addr:
  assumes "page_layout s N" "i \<le> N"
  shows "page_ref_count s (page_addr s i) = (if i = 0 then 0 else rc_ptr s i)"
proof -
  have "page_addr s i > heap_bottom s \<longleftrightarrow> i \<noteq> 0"
    using assms by (simp add: word_less_nat_alt unat_page_addr)
  moreover have "4096 * i < 2 ^ 63" using page_layoutD(3) [OF assms(1)] assms(2) by simp
  from signed_div_of_nat [OF this, of 4096]
  have "word_of_int (sint (of_nat (4096 * i) :: u64) sdiv 4096) = (of_nat i :: u64)" by simp
  moreover have "page_addr s i - heap_bottom s = of_nat (4096 * i)" by (simp add: page_addr_def)
  ultimately show ?thesis by (simp add: page_ref_count_def rc_ptr_def)
qed

lemma page_addr_frame [simp, frame_simps]:
  "page_addr (s\<lparr>mem := m\<rparr>) = page_addr s"
  "page_addr (s\<lparr>mutating_heap := l\<rparr>) = page_addr s"
  "page_addr (s\<lparr>console_out := c\<rparr>) = page_addr s"
  "page_addr (s\<lparr>GLOBAL_ALLOC := g\<rparr>) = page_addr s"
  by (simp_all add: page_addr_def fun_eq_iff)

text \<open>\<open>counts_updated s N i n f t\<close>: from \<open>s\<close> to \<open>t\<close> the counts of the pages \<open>i, \<dots>, i + n - 1\<close> went
  through \<open>f\<close> and no byte outside those counts changed.\<close>

definition counts_updated :: "kstate \<Rightarrow> nat \<Rightarrow> nat \<Rightarrow> nat \<Rightarrow> (u16 \<Rightarrow> u16) \<Rightarrow> kstate \<Rightarrow> bool" where
  "counts_updated s N i n f t \<longleftrightarrow>
     same_regs s t \<and>
     (\<forall>j<N. rc t j = (if i \<le> j \<and> j < i + n then f (rc s j) else rc s j)) \<and>
     (\<forall>b. \<not> in_rng (rc_ptr s i) (2 * n) b \<longrightarrow> mem t b = mem s b)"

lemma heap_unlock_regs:
  "\<not> mutating_heap s \<Longrightarrow> same_regs (s\<lparr>mutating_heap := True\<rparr>) m \<Longrightarrow> heap_unlock m = s\<lparr>mem := mem m\<rparr>"
  by (cases s, cases m) (simp add: same_regs_def heap_unlock_def)

lemma upd_loop_counts:
  assumes "page_layout s N" "\<not> mutating_heap s" "i + n \<le> N"
  shows "counts_updated s N i n f
    (heap_unlock (upd_loop f n (rc_ptr s i) (s\<lparr>mutating_heap := True\<rparr>)))"
proof -
  let ?s = "s\<lparr>mutating_heap := True\<rparr>"
  let ?m = "upd_loop f n (rc_ptr s i) ?s"
  have lay: "page_layout ?s N" using assms(1) by simp
  have "?m = ?s\<lparr>mem := mem ?m\<rparr>" using upd_loop_regs by (simp add: same_regs_def)
  have t: "heap_unlock ?m = s\<lparr>mem := mem ?m\<rparr>"
    using assms(2) upd_loop_regs by (rule heap_unlock_regs)
  have "rc (s\<lparr>mem := mem ?m\<rparr>) j = rc ?m j" for j
    by (subst (2) \<open>?m = ?s\<lparr>mem := mem ?m\<rparr>\<close>) (simp add: rc_def ld16_def)
  then show ?thesis
    unfolding counts_updated_def t
    using upd_loop_rc [OF lay assms(3), of _ f] upd_loop_mem [OF lay assms(3), of _ f]
    by (auto simp: same_regs_def)
qed

lemma unat_incr1: "unat (incr1 x) = (if x = 0xffff \<or> x = 0 then unat x else unat x + 1)"
proof (cases "x = 0xffff")
  case False
  then have "unat x \<noteq> 65535" using word_unat_eq_iff [of x "0xffff"] by simp
  moreover have "unat x < 2 ^ LENGTH(16)" by (rule unsigned_less)
  ultimately have "unat x + 1 < 65536" by simp
  then show ?thesis by (auto simp: incr1_def unat_word_ariths)
qed (simp add: incr1_def)

lemma unat_decr1: "unat (decr1 x) = unat x - 1"
  by (simp add: decr1_def unat_minus_one)

text \<open>A pointer to a page of the pool, physical or in the window.\<close>

lemma pool_ptr:
  assumes "page_layout s N" "i \<le> N" "p = page_addr s i \<or> p = phys2safe s (page_addr s i)"
  shows "safe2phys s p = page_addr s i"
proof -
  have "unat (page_addr s i) < window_size"
    using assms page_layoutD [OF assms(1)] by (simp add: unat_page_addr)
  then show ?thesis using assms(3) kaddr_small [of "page_addr s i" s] by (auto simp: safe2phys_kaddr)
qed

lemma rc_ptr_nonzero: "page_layout s N \<Longrightarrow> i \<le> N \<Longrightarrow> rc_ptr s i \<noteq> 0"
  using unat_rc_ptr [of s N i] page_layoutD(4) [of s N] by force

lemma safe2phys_frame [simp, frame_simps]:
  "safe2phys (s\<lparr>mutating_heap := l\<rparr>) = safe2phys s"
  by (simp add: safe2phys_kaddr fun_eq_iff)

lemma dealloc_pages_eq:
  assumes "page_layout s N" "\<not> mutating_heap s" "0 < i" "i + n \<le> N"
    and "p = page_addr s i \<or> p = phys2safe s (page_addr s i)"
  shows "dealloc_pages s p (of_nat n) =
    Some (heap_unlock (upd_loop decr1 n (rc_ptr s i) (s\<lparr>mutating_heap := True\<rparr>)))"
  using assms page_ref_count_addr [of "s\<lparr>mutating_heap := True\<rparr>" N i] page_layoutD(3) [OF assms(1)]
    rc_ptr_nonzero [OF assms(1), of i] pool_ptr [OF assms(1) _ assms(5)]
  by (simp add: dealloc_pages_def loops_upd unat_of_nat64)

lemma dealloc_pages_first:
  assumes "page_layout s N" "\<not> mutating_heap s"
    and "p = page_addr s 0 \<or> p = phys2safe s (page_addr s 0)"
  shows "dealloc_pages s p n = Some s"
  using assms page_ref_count_addr [of "s\<lparr>mutating_heap := True\<rparr>" N 0] pool_ptr [OF assms(1) _ assms(3)]
  by (simp add: dealloc_pages_def heap_unlock_def)

text \<open>C7. \<^verbatim>\<open>dealloc_pages\<close> and \<^verbatim>\<open>incr_page_ref_count\<close> on a page of the pool other than the first change
  exactly the counts of the named pages, by one, and neither count ever wraps: a count of 0 stays
  0 and a count of 65535 is not incremented. \<^verbatim>\<open>dealloc_pages\<close> takes the window address of the
  page or its physical address.\<close>

theorem ref_count_ops:
  assumes "page_layout s N" "\<not> mutating_heap s" "0 < i" "i + n \<le> N"
  shows "\<exists>t u. dealloc_pages s (phys2safe s (page_addr s i)) (of_nat n) = Some t \<and>
               counts_updated s N i n decr1 t \<and>
               dealloc_pages s (page_addr s i) (of_nat n) = Some t \<and>
               incr_page_ref_count s (page_addr s i) (of_nat n) = Some u \<and>
               counts_updated s N i n incr1 u \<and>
               (\<forall>x. unat (decr1 x) = unat x - 1 \<and> unat x \<le> unat (incr1 x) \<and> unat (incr1 x) \<le> unat x + 1)"
proof -
  have n: "unat (of_nat n :: u64) = n"
    using assms page_layoutD(3) [OF assms(1)] by (intro unat_of_nat64) simp
  have "incr_page_ref_count s (page_addr s i) (of_nat n) =
      Some (heap_unlock (upd_loop incr1 n (rc_ptr s i) (s\<lparr>mutating_heap := True\<rparr>)))"
    using assms n page_ref_count_addr [of "s\<lparr>mutating_heap := True\<rparr>" N i] rc_ptr_nonzero [OF assms(1), of i]
    by (simp add: incr_page_ref_count_def loops_upd)
  then show ?thesis
    using dealloc_pages_eq [OF assms] upd_loop_counts [OF assms(1,2,4)] unat_decr1
    by (simp add: unat_incr1)
qed

theorem ref_count_ops_witness:
  "\<exists>t u. dealloc_pages demo_state (phys2safe demo_state (page_addr demo_state 5)) 2 = Some t \<and>
         counts_updated demo_state 2048 5 2 decr1 t \<and>
         incr_page_ref_count demo_state (page_addr demo_state 5) 2 = Some u \<and>
         counts_updated demo_state 2048 5 2 incr1 u"
  using ref_count_ops [OF demo_layout demo_unlocked, of 5 2] by auto

text \<open>The first page of the pool has no reachable count: \<^verbatim>\<open>page_ref_count\<close> compares with
  \<^verbatim>\<open>page > heap_bottom\<close>, so for the page at \<^verbatim>\<open>heap_bottom\<close> it returns NULL and releasing, sharing or
  marking that page does nothing at all. A page that \<^verbatim>\<open>alloc_pages\<close> took there is never free
  again.\<close>

theorem first_page_never_released:
  "page_layout s N \<Longrightarrow> \<not> mutating_heap s \<Longrightarrow>
     dealloc_pages s (page_addr s 0) n = Some s \<and>
     dealloc_pages s (phys2safe s (page_addr s 0)) n = Some s \<and>
     incr_page_ref_count s (page_addr s 0) n = Some s \<and> mark_as_used s (page_addr s 0) sz = Some s"
proof -
  assume lay: "page_layout s N" and free: "\<not> mutating_heap s"
  have "page_ref_count (s\<lparr>mutating_heap := True\<rparr>) (page_addr s 0) = 0"
    using page_ref_count_addr [of "s\<lparr>mutating_heap := True\<rparr>" N 0] lay by simp
  then show ?thesis using free dealloc_pages_first [OF lay free]
    by (simp add: incr_page_ref_count_def mark_as_used_def heap_unlock_def)
qed

theorem first_page_never_released_witness:
  "dealloc_pages demo_state (page_addr demo_state 0) 1 = Some demo_state"
  using first_page_never_released [OF demo_layout demo_unlocked, of 1] by simp

text \<open>\<^verbatim>\<open>mark_as_used\<close> marks the pages that the first \<open>sz\<close> bytes from the page touch, and no
  others.\<close>

theorem mark_as_used_spec:
  assumes "page_layout s N" "\<not> mutating_heap s" "0 < i" "i + (sz + 4095) div 4096 \<le> N"
  shows "\<exists>t. mark_as_used s (page_addr s i) (of_nat sz) = Some t \<and>
             counts_updated s N i ((sz + 4095) div 4096) (\<lambda>_. 1) t"
proof -
  let ?s = "s\<lparr>mutating_heap := True\<rparr>"
  have p: "page_ref_count ?s (page_addr s i) = rc_ptr s i"
    using page_ref_count_addr [of ?s N i] assms by simp
  have nz: "rc_ptr s i \<noteq> 0"
    using unat_rc_ptr [OF assms(1), of i] assms page_layoutD(4) [OF assms(1)] by force
  have "sz + 4095 < 2 ^ 64"
    using assms(4) page_layoutD(3) [OF assms(1)] dividend_less_div_times [of 4096 "sz + 4095"] by simp
  then have "unat (of_nat (sz + 4095) :: u64) = sz + 4095" by (rule unat_of_nat64)
  then have "unat (of_nat (sz + 4095) div 4096 :: u64) = (sz + 4095) div 4096"
    by (simp only: unat_div unsigned_numeral) simp
  then have c: "unat ((of_nat sz + PAGE_SIZE - 1) div PAGE_SIZE) = (sz + 4095) div 4096"
    by (simp add: PAGE_SIZE_def add.commute)
  show ?thesis
    using assms p nz c upd_loop_counts [OF assms(1,2,4), of "\<lambda>_. 1"]
    by (simp add: mark_as_used_def loops_upd)
qed

theorem mark_as_used_spec_witness:
  "\<exists>t. mark_as_used demo_state (page_addr demo_state 4) 5000 = Some t \<and>
       counts_updated demo_state 2048 4 2 (\<lambda>_. 1) t"
  using mark_as_used_spec [OF demo_layout demo_unlocked, of 4 5000] by simp

end
