(* ===== verification/Page_Pool.thy ===== *)
theory Page_Pool
  imports Page_Alloc "HOL-Library.Multiset"
begin

text \<open>
  What the page allocator promises its clients (the bucket allocator and the page tables), as a
  locale, and the interpretation of the locale on \<^verbatim>\<open>alloc_pages\<close>. The second part follows whole
  histories of allocation, sharing and release by any number of owners.
\<close>

subsection \<open>The interface\<close>

text \<open>\<open>avail s b\<close> and \<open>held s b\<close>: the byte at \<open>b\<close> is in a page that is free, or in use. \<open>alloc s n\<close> is
  \<open>None\<close> when the request fails.\<close>

locale page_source =
  fixes inv :: "'s \<Rightarrow> bool"
    and avail :: "'s \<Rightarrow> u64 \<Rightarrow> bool"
    and held :: "'s \<Rightarrow> u64 \<Rightarrow> bool"
    and content :: "'s \<Rightarrow> u64 \<Rightarrow> u8"
    and alloc :: "'s \<Rightarrow> nat \<Rightarrow> (u64 \<times> 's) option"
  assumes alloc_inv: "inv s \<Longrightarrow> alloc s n = Some (a, t) \<Longrightarrow> inv t"
    and alloc_avail: "inv s \<Longrightarrow> alloc s n = Some (a, t) \<Longrightarrow> in_rng a (4096 * n) b \<Longrightarrow> avail s b"
    and alloc_taken: "inv s \<Longrightarrow> alloc s n = Some (a, t) \<Longrightarrow> avail t b \<longleftrightarrow> avail s b \<and> \<not> in_rng a (4096 * n) b"
    and alloc_held: "inv s \<Longrightarrow> alloc s n = Some (a, t) \<Longrightarrow> held t b \<longleftrightarrow> held s b \<or> in_rng a (4096 * n) b"
    and alloc_zero: "inv s \<Longrightarrow> alloc s n = Some (a, t) \<Longrightarrow> in_rng a (4096 * n) b \<Longrightarrow> content t b = 0"
    and alloc_keeps: "inv s \<Longrightarrow> alloc s n = Some (a, t) \<Longrightarrow> held s b \<Longrightarrow> content t b = content s b"
begin

text \<open>A sequence of requests.\<close>

inductive allocs :: "'s \<Rightarrow> (u64 \<times> nat) list \<Rightarrow> 's \<Rightarrow> bool" where
  allocs_Nil: "allocs s [] s"
| allocs_Cons: "alloc s n = Some (a, t) \<Longrightarrow> allocs t bs u \<Longrightarrow> allocs s ((a, n) # bs) u"

lemma allocs_inv: "allocs s bs u \<Longrightarrow> inv s \<Longrightarrow> inv u"
  by (induction rule: allocs.induct) (auto dest: alloc_inv)

lemma allocs_avail:
  "allocs s bs u \<Longrightarrow> inv s \<Longrightarrow> (a, n) \<in> set bs \<Longrightarrow> in_rng a (4096 * n) b \<Longrightarrow> avail s b"
proof (induction rule: allocs.induct)
  case (allocs_Cons s m c t bs u)
  then show ?case using alloc_avail alloc_taken alloc_inv by fastforce
qed simp

lemma allocs_disjoint:
  "allocs s bs u \<Longrightarrow> inv s \<Longrightarrow> i < j \<Longrightarrow> j < length bs \<Longrightarrow>
     sep (fst (bs ! i)) (4096 * snd (bs ! i)) (fst (bs ! j)) (4096 * snd (bs ! j))"
proof (induction arbitrary: i j rule: allocs.induct)
  case (allocs_Cons s m c t bs u)
  have it: "inv t" using allocs_Cons alloc_inv by blast
  obtain j' where j': "j = Suc j'" using allocs_Cons.prems(2) by (cases j) auto
  show ?case
  proof (cases i)
    case 0
    have mem: "bs ! j' \<in> set bs" using allocs_Cons.prems j' by simp
    have "\<not> in_rng (fst (bs ! j')) (4096 * snd (bs ! j')) x" if "in_rng c (4096 * m) x" for x
      using allocs_avail [OF allocs_Cons.hyps(2) it, of "fst (bs ! j')" "snd (bs ! j')" x]
        alloc_taken [OF allocs_Cons.prems(1) allocs_Cons.hyps(1), of x] mem that by auto
    then show ?thesis by (simp add: 0 j' sep_def)
  next
    case (Suc i')
    then show ?thesis using allocs_Cons.IH [OF it, of i' j'] allocs_Cons.prems j' by simp
  qed
qed simp

lemma allocs_keeps: "allocs s bs u \<Longrightarrow> inv s \<Longrightarrow> held s b \<Longrightarrow> content u b = content s b"
proof (induction rule: allocs.induct)
  case (allocs_Cons s n a t bs u)
  then show ?case using alloc_keeps alloc_held alloc_inv by metis
qed simp

lemma allocs_zero:
  "allocs s bs u \<Longrightarrow> inv s \<Longrightarrow> (a, n) \<in> set bs \<Longrightarrow> in_rng a (4096 * n) b \<Longrightarrow> content u b = 0"
proof (induction rule: allocs.induct)
  case (allocs_Cons s m c t bs u)
  then have it: "inv t" using alloc_inv by blast
  show ?case
  proof (cases "(a, n) \<in> set bs")
    case True
    then show ?thesis using allocs_Cons it by blast
  next
    case False
    then have "c = a" "m = n" using allocs_Cons.prems by auto
    then have "held t b" "content t b = 0" using allocs_Cons alloc_held alloc_zero by blast+
    then show ?thesis using allocs_keeps [OF allocs_Cons.hyps(2) it] by simp
  qed
qed simp

end

subsection \<open>The page allocator provides it\<close>

definition npages :: "kstate \<Rightarrow> nat" where
  "npages s = (unat (heap_bottom s) - unat (pages_bottom s)) div 2"

definition pool_inv :: "kstate \<Rightarrow> bool" where
  "pool_inv s \<longleftrightarrow> page_layout s (npages s) \<and> \<not> mutating_heap s"

definition pool_avail :: "kstate \<Rightarrow> u64 \<Rightarrow> bool" where
  "pool_avail s b \<longleftrightarrow> (\<exists>j<npages s. rc s j = 0 \<and> in_rng (page_addr s j) 4096 b)"

definition pool_held :: "kstate \<Rightarrow> u64 \<Rightarrow> bool" where
  "pool_held s b \<longleftrightarrow> (\<exists>j<npages s. rc s j \<noteq> 0 \<and> in_rng (page_addr s j) 4096 b)"

text \<open>The requests the pool can serve, with NULL as \<open>None\<close>.\<close>

definition pool_alloc :: "kstate \<Rightarrow> nat \<Rightarrow> (u64 \<times> kstate) option" where
  "pool_alloc s n =
     (if 0 < n \<and> n \<le> npages s then
        (case alloc_pages s (of_nat n) of
           Some (a, t) \<Rightarrow> if a = 0 then None else Some (a, t)
         | None \<Rightarrow> None)
      else None)"

lemma page_layout_npages: "page_layout s N \<Longrightarrow> npages s = N"
  by (simp add: npages_def page_layoutD(1))

lemma same_regs_layout:
  assumes "same_regs s t"
  shows "npages t = npages s" "page_layout t N = page_layout s N" "page_addr t = page_addr s"
    "rc_ptr t = rc_ptr s" "mutating_heap t = mutating_heap s" "kaddr t = kaddr s"
    "phys2safe t = phys2safe s" "mmu_enabled t = mmu_enabled s"
proof -
  obtain m where "t = s\<lparr>mem := m\<rparr>" using assms by (metis same_regs_def)
  then show "npages t = npages s" "page_layout t N = page_layout s N" "page_addr t = page_addr s"
    "rc_ptr t = rc_ptr s" "mutating_heap t = mutating_heap s" "kaddr t = kaddr s"
    "phys2safe t = phys2safe s" "mmu_enabled t = mmu_enabled s"
    by (simp_all add: npages_def)
qed

lemma page_addr_nonzero: "page_layout s N \<Longrightarrow> i \<le> N \<Longrightarrow> page_addr s i \<noteq> 0"
  using unat_page_addr [of s N i] page_layoutD [of s N] by force

lemma pool_alloc_Some:
  assumes "pool_inv s" "pool_alloc s n = Some (a, t)"
  obtains i where "a = page_addr s i" "i + n < npages s" "0 < n" "free_run s n i"
    "pages_taken s (npages s) i n t"
proof -
  let ?N = "npages s"
  have n: "0 < n" "n \<le> ?N" and al: "alloc_pages s (of_nat n) = Some (a, t)" "a \<noteq> 0"
    using assms(2) by (auto simp: pool_alloc_def split: if_splits option.splits prod.splits)
  have lay: "page_layout s ?N" "\<not> mutating_heap s" using assms(1) by (auto simp: pool_inv_def)
  obtain i where i: "find (free_run s n) [0..<?N - n] = Some i"
    using alloc_pages_None [OF lay n] al by (cases "find (free_run s n) [0..<?N - n]") auto
  then have "i < ?N - n" "free_run s n i" by (auto simp: find_Some_iff)
  moreover have "a = page_addr s i" "pages_taken s ?N i n t"
    using alloc_pages_Some [OF lay n i] al by auto
  ultimately show ?thesis using that n by auto
qed

lemma page_index:
  assumes "page_layout s N" "i + n \<le> N"
  shows "in_rng (page_addr s i) (4096 * n) b \<longleftrightarrow> (\<exists>j. i \<le> j \<and> j < i + n \<and> in_rng (page_addr s j) 4096 b)"
proof
  assume b: "in_rng (page_addr s i) (4096 * n) b"
  let ?j = "(unat b - unat (heap_bottom s)) div 4096"
  have r: "unat (heap_bottom s) + 4096 * i \<le> unat b" "unat b < unat (heap_bottom s) + 4096 * i + 4096 * n"
    using b by (simp_all add: in_rng_page_addr [OF assms])
  then have j: "i \<le> ?j" "?j < i + n" by (simp_all add: less_eq_div_iff_mult_less_eq div_less_iff_less_mult)
  moreover have "4096 * ?j \<le> unat b - unat (heap_bottom s)" "unat b - unat (heap_bottom s) < 4096 * ?j + 4096"
    using dividend_less_div_times [of 4096 "unat b - unat (heap_bottom s)"] by simp_all
  then have "in_rng (page_addr s ?j) (4096 * 1) b"
    using r j assms by (subst in_rng_page_addr [OF assms(1)]) auto
  ultimately show "\<exists>j. i \<le> j \<and> j < i + n \<and> in_rng (page_addr s j) 4096 b" by auto
next
  assume "\<exists>j. i \<le> j \<and> j < i + n \<and> in_rng (page_addr s j) 4096 b"
  then obtain j where j: "i \<le> j" "j < i + n" "in_rng (page_addr s j) (4096 * 1) b" by auto
  then show "in_rng (page_addr s i) (4096 * n) b"
    using assms in_rng_page_addr [OF assms(1), of j 1 b] by (simp add: in_rng_page_addr [OF assms])
qed

lemma page_unique:
  assumes "page_layout s N" "j < N" "k < N" "in_rng (page_addr s j) 4096 b" "in_rng (page_addr s k) 4096 b"
  shows "j = k"
  using assms(2-5) in_rng_page_addr [OF assms(1), of j 1 b] in_rng_page_addr [OF assms(1), of k 1 b] by simp

text \<open>A byte of the pool lies in one page, and that page decides.\<close>

lemma pool_byte:
  assumes "page_layout s (npages s)" "j < npages s" "in_rng (page_addr s j) 4096 b"
  shows "pool_avail s b \<longleftrightarrow> rc s j = 0" "pool_held s b \<longleftrightarrow> rc s j \<noteq> 0"
  using assms page_unique [OF assms(1) assms(2) _ assms(3)]
  unfolding pool_avail_def pool_held_def by metis+

lemma not_pool_byte:
  assumes "\<not> (\<exists>j<npages s. in_rng (page_addr s j) 4096 b)"
  shows "\<not> pool_avail s b" "\<not> pool_held s b"
  using assms by (auto simp: pool_avail_def pool_held_def)

lemma pages_taken_byte:
  assumes lay: "page_layout s (npages s)" and i: "i + n < npages s"
    and tk: "pages_taken s (npages s) i n t"
    and j: "j < npages s" "in_rng (page_addr s j) 4096 b"
  shows "in_rng (page_addr s i) (4096 * n) b \<longleftrightarrow> i \<le> j \<and> j < i + n"
    and "pool_avail t b \<longleftrightarrow> rc s j = 0 \<and> \<not> (i \<le> j \<and> j < i + n)"
    and "pool_held t b \<longleftrightarrow> rc s j \<noteq> 0 \<or> i \<le> j \<and> j < i + n"
proof -
  have regs: "same_regs s t" and rct: "rc t j = (if i \<le> j \<and> j < i + n then 1 else rc s j)"
    using tk j by (auto simp: pages_taken_def)
  note same = same_regs_layout [OF regs]
  show "in_rng (page_addr s i) (4096 * n) b \<longleftrightarrow> i \<le> j \<and> j < i + n"
    using page_index [OF lay, of i n b] page_unique [OF lay j(1) _ j(2)] i j
    by (metis less_imp_le less_trans)
  have "pool_avail t b \<longleftrightarrow> rc t j = 0" "pool_held t b \<longleftrightarrow> rc t j \<noteq> 0"
    using pool_byte [of t j b] lay j same by simp_all
  then show "pool_avail t b \<longleftrightarrow> rc s j = 0 \<and> \<not> (i \<le> j \<and> j < i + n)"
    and "pool_held t b \<longleftrightarrow> rc s j \<noteq> 0 \<or> i \<le> j \<and> j < i + n"
    using rct by auto
qed

lemma pool_above_table:
  assumes "page_layout s N" "j < N" "in_rng (page_addr s j) 4096 b" "k + m \<le> N"
  shows "\<not> in_rng (rc_ptr s k) (2 * m) b"
  using assms in_rng_page_addr [OF assms(1), of j 1 b] in_rng_rc_ptr [OF assms(1,4), of b]
    page_layoutD(1) [OF assms(1)] by simp

interpretation pool: page_source pool_inv pool_avail pool_held mem pool_alloc
proof unfold_locales
  fix s n a t
  assume si: "pool_inv s" and al: "pool_alloc s n = Some (a, t)"
  let ?N = "npages s"
  from pool_alloc_Some [OF si al] obtain i where i: "a = page_addr s i" "i + n < ?N" "free_run s n i"
    "pages_taken s ?N i n t" by metis
  have lay: "page_layout s ?N" using si by (simp add: pool_inv_def)
  have regs: "same_regs s t" using i(4) by (simp add: pages_taken_def)
  note same = same_regs_layout [OF regs]
  note byte = pages_taken_byte [OF lay i(2,4)] pool_byte [OF lay]
  have free: "rc s j = 0" if "i \<le> j" "j < i + n" for j
    using i(3) that by (metis free_run_def le_add_diff_inverse nat_add_left_cancel_less)
  have blk: "\<exists>j<?N. in_rng (page_addr s j) 4096 b" if "in_rng a (4096 * n) b" for b
    using that page_index [OF lay, of i n b] i(1,2) by (auto intro: order.strict_trans)
  show "pool_inv t" using si same by (simp add: pool_inv_def)
  fix b
  show "mem t b = 0" if "in_rng a (4096 * n) b"
    using i(1,4) that by (simp add: pages_taken_def)
  show "pool_avail s b" if "in_rng a (4096 * n) b"
    using that blk [OF that] byte free i(1) by auto
  show "pool_avail t b \<longleftrightarrow> pool_avail s b \<and> \<not> in_rng a (4096 * n) b"
    using blk [of b] byte [of _ b] not_pool_byte [of s b] not_pool_byte [of t b] same i(1) by metis
  show "pool_held t b \<longleftrightarrow> pool_held s b \<or> in_rng a (4096 * n) b"
    using blk [of b] byte [of _ b] not_pool_byte [of s b] not_pool_byte [of t b] same i(1) by metis
  show "mem t b = mem s b" if h: "pool_held s b"
  proof -
    obtain j where j: "j < ?N" "rc s j \<noteq> 0" "in_rng (page_addr s j) 4096 b" using h by (auto simp: pool_held_def)
    then have "\<not> in_rng (page_addr s i) (4096 * n) b" using byte(1) [OF j(1,3)] free by auto
    moreover have "\<not> in_rng (rc_ptr s i) (2 * n) b" using pool_above_table [OF lay j(1,3)] i(2) by simp
    ultimately show ?thesis using i(4) by (simp add: pages_taken_def)
  qed
qed

end
