(* ===== verification/Mem_Ops.thy ===== *)
theory Mem_Ops
  imports Addr
begin

text \<open>
  \<^verbatim>\<open>memcpy\<close>, \<^verbatim>\<open>memset\<close> and \<^verbatim>\<open>memeq\<close> of \<^verbatim>\<open>kernel/src/memory.c\<close>, byte loops over kernel pointers, and
  the notion of a pointer range that is contiguous in physical memory.
\<close>

subsection \<open>Operations\<close>

partial_function (option) memcpy_loop :: "u64 \<Rightarrow> u64 \<Rightarrow> u64 \<Rightarrow> kstate \<Rightarrow> kstate option" where
  "memcpy_loop d1 s1 e s =
     (if d1 < e then memcpy_loop (d1 + 1) (s1 + 1) e (st8 d1 (ld8 s s1) s) else Some s)"

definition memcpy :: "kstate \<Rightarrow> u64 \<Rightarrow> u64 \<Rightarrow> u64 \<Rightarrow> (u64 \<times> kstate) option" where
  "memcpy s dest src n = do { s \<leftarrow> memcpy_loop dest src (dest + n) s; Some (dest, s) }"

partial_function (option) memset_loop :: "u64 \<Rightarrow> u8 \<Rightarrow> u64 \<Rightarrow> kstate \<Rightarrow> kstate option" where
  "memset_loop p1 c e s = (if p1 < e then memset_loop (p1 + 1) c e (st8 p1 c s) else Some s)"

definition memset :: "kstate \<Rightarrow> u64 \<Rightarrow> u32 \<Rightarrow> u64 \<Rightarrow> (u64 \<times> kstate) option" where
  "memset s p i n = do { s \<leftarrow> memset_loop p (ucast i) (p + n) s; Some (p, s) }"

primrec memeq_loop :: "kstate \<Rightarrow> nat \<Rightarrow> u64 \<Rightarrow> u64 \<Rightarrow> bool" where
  "memeq_loop s 0 p1 q1 = True"
| "memeq_loop s (Suc n) p1 q1 = (if ld8 s p1 \<noteq> ld8 s q1 then False else memeq_loop s n (p1 + 1) (q1 + 1))"

definition memeq :: "kstate \<Rightarrow> u64 \<Rightarrow> u64 \<Rightarrow> u64 \<Rightarrow> bool" where
  "memeq s p q sz = memeq_loop s (unat sz) p q"

subsection \<open>Contiguous pointer ranges\<close>

text \<open>\<open>span s a n\<close>: the \<open>n\<close> bytes at the kernel pointer \<open>a\<close> are \<open>n\<close> consecutive bytes of physical
  memory, and neither range wraps around.\<close>

definition span :: "kstate \<Rightarrow> u64 \<Rightarrow> nat \<Rightarrow> bool" where
  "span s a n \<longleftrightarrow> unat a + n < 2 ^ 64 \<and> unat (kaddr s a) + n < 2 ^ 64 \<and>
     (\<forall>k<n. kaddr s (a + of_nat k) = kaddr s a + of_nat k)"

lemma spanD:
  assumes "span s a n"
  shows "unat a + n < 18446744073709551616" "unat (kaddr s a) + n < 18446744073709551616"
    "k < n \<Longrightarrow> kaddr s (a + of_nat k) = kaddr s a + of_nat k"
  using assms by (auto simp: span_def)

lemma span_mono: "span s a n \<Longrightarrow> k \<le> n \<Longrightarrow> span s a k"
  by (auto simp: span_def)

lemma span_shift:
  assumes "span s a n" "j + k \<le> n" "0 < k"
  shows "span s (a + of_nat j) k" "kaddr s (a + of_nat j) = kaddr s a + of_nat j"
proof -
  show ka: "kaddr s (a + of_nat j) = kaddr s a + of_nat j" using assms by (intro spanD(3)) auto
  have "unat (a + of_nat j) = unat a + j" "unat (kaddr s a + of_nat j) = unat (kaddr s a) + j"
    using assms spanD(1,2) [OF assms(1)] by (auto intro: unat_add_nowrap)
  moreover have "kaddr s (a + of_nat j + of_nat i) = kaddr s a + of_nat j + of_nat i" if "i < k" for i
    using spanD(3) [OF assms(1), of "j + i"] that assms(2) by (simp add: add.assoc)
  ultimately show "span s (a + of_nat j) k"
    using assms spanD(1,2) [OF assms(1)] ka by (simp add: span_def)
qed

lemma span_phys2safe: "unat p + n < window_size \<Longrightarrow> span s (phys2safe s p) n"
proof -
  assume p: "unat p + n < window_size"
  then have "unat (phys2safe s p) + n < 2 ^ 64"
    by (simp add: phys2safe_window window_no_wrap) (simp add: window_size_def)
  then show ?thesis using p by (simp add: span_def) (simp add: window_size_def)
qed

lemma span_frame [simp, frame_simps]:
  "span (s\<lparr>mem := m\<rparr>) = span s"
  "span (s\<lparr>mutating_heap := l\<rparr>) = span s"
  "span (s\<lparr>console_out := c\<rparr>) = span s"
  "span (s\<lparr>GLOBAL_ALLOC := g\<rparr>) = span s"
  "span (st8 a v s) = span s" "span (st64 a w s) = span s"
  by (simp_all add: span_def fun_eq_iff)

subsection \<open>Copying\<close>

text \<open>Memory \<open>m\<close> with the \<open>n\<close> bytes at \<open>d\<close> replaced by the bytes that \<open>m\<close> has at \<open>c\<close>.\<close>

definition copy_bytes :: "u64 \<Rightarrow> u64 \<Rightarrow> nat \<Rightarrow> memory \<Rightarrow> memory" where
  "copy_bytes d c n m = (\<lambda>b. if in_rng d n b then m (c + (b - d)) else m b)"

lemma span_Suc: "span s a (Suc n) \<Longrightarrow> span s (a + 1) n"
proof (cases n)
  case 0
  assume "span s a (Suc n)"
  then have "unat a + 1 < 2 ^ 64" using 0 by (simp add: span_def)
  then have "unat (a + 1) = unat a + 1" using unat_add_nowrap [of a 1] by simp
  then show ?thesis using 0 \<open>unat a + 1 < 2 ^ 64\<close> by (simp add: span_def)
next
  case (Suc k)
  assume "span s a (Suc n)"
  from span_shift(1) [OF this, of 1 n] Suc show ?thesis by simp
qed

lemma kaddr_Suc: "span s a (Suc (Suc n)) \<Longrightarrow> kaddr s (a + 1) = kaddr s a + 1"
  using spanD(3) [of s a "Suc (Suc n)" 1] by simp

lemma ptr_less_end: "unat p + Suc n < 2 ^ 64 \<Longrightarrow> (p :: u64) < p + of_nat (Suc n)"
proof -
  assume "unat p + Suc n < 2 ^ 64"
  from unat_add_nowrap [OF this] show ?thesis by (simp add: word_less_nat_alt del: of_nat_Suc)
qed

lemma in_rng_shift1: "in_rng (a + 1) n b \<Longrightarrow> Suc n \<le> 2 ^ 64 \<Longrightarrow> in_rng a (Suc n) b"
  using in_rng_split [of 1 n a b] by simp

lemma copy_bytes_Suc:
  assumes "sep d (Suc n) c (Suc n)" "Suc n \<le> 2 ^ 64"
  shows "copy_bytes (d + 1) (c + 1) n (m(d := m c)) = copy_bytes d c (Suc n) m"
proof
  fix b
  have d: "\<not> in_rng (c + 1) n d" "\<not> in_rng (d + 1) n d"
  proof -
    have "in_rng d (Suc n) d" by simp
    then have "\<not> in_rng c (Suc n) d" using assms(1) by (meson sep_not_in)
    then show "\<not> in_rng (c + 1) n d" using in_rng_shift1 [of c n d] assms(2) by blast
    have "unat (d - (d + 1)) = 18446744073709551615" by (simp add: unsigned_minus_1_eq_mask mask_eq_exp_minus_1)
    then show "\<not> in_rng (d + 1) n d" using assms(2) by (simp add: in_rng_def)
  qed
  show "copy_bytes (d + 1) (c + 1) n (m(d := m c)) b = copy_bytes d c (Suc n) m b"
  proof (cases "in_rng (d + 1) n b")
    case True
    then have "in_rng (c + 1) n (c + 1 + (b - (d + 1)))" by (simp only: in_rng_def add_diff_cancel_left')
    then have "c + 1 + (b - (d + 1)) \<noteq> d" using d(1) by metis
    moreover have "c + 1 + (b - (d + 1)) = c + (b - d)" by simp
    ultimately show ?thesis
      using True in_rng_shift1 [of d n b] assms(2) by (simp add: copy_bytes_def)
  next
    case False
    then show ?thesis using d(2) by (auto simp: copy_bytes_def in_rng_Suc)
  qed
qed

lemma memcpy_loop_eq:
  "span s d n \<Longrightarrow> span s c n \<Longrightarrow> sep (kaddr s d) n (kaddr s c) n \<Longrightarrow>
     memcpy_loop d c (d + of_nat n) s = Some (s\<lparr>mem := copy_bytes (kaddr s d) (kaddr s c) n (mem s)\<rparr>)"
proof (induction n arbitrary: d c s)
  case 0
  have "copy_bytes (kaddr s d) (kaddr s c) 0 (mem s) = mem s" by (simp add: copy_bytes_def)
  then show ?case by (subst memcpy_loop.simps) simp
next
  case (Suc n)
  let ?t = "st8 d (ld8 s c) s"
  have lt: "d < d + of_nat (Suc n)" using spanD(1) [OF Suc.prems(1)] by (intro ptr_less_end) simp
  have sz: "Suc n \<le> 2 ^ 64" using spanD(1) [OF Suc.prems(1)] by simp
  have mt: "mem ?t = (mem s)(kaddr s d := mem s (kaddr s c))" by (simp add: st8_def ld8_def)
  have st: "?t\<lparr>mem := m\<rparr> = s\<lparr>mem := m\<rparr>" for m by (simp add: st8_def)
  have "memcpy_loop (d + 1) (c + 1) (d + 1 + of_nat n) ?t =
      Some (s\<lparr>mem := copy_bytes (kaddr s d) (kaddr s c) (Suc n) (mem s)\<rparr>)"
  proof (cases n)
    case 0
    have "(mem s)(kaddr s d := mem s (kaddr s c)) = copy_bytes (kaddr s d) (kaddr s c) 1 (mem s)"
      by (auto simp: copy_bytes_def fun_eq_iff in_rng_Suc)
    then show ?thesis using 0 mt by (subst memcpy_loop.simps) (simp add: st8_def ld8_def)
  next
    case (Suc k)
    have ks: "kaddr s (d + 1) = kaddr s d + 1" "kaddr s (c + 1) = kaddr s c + 1"
      using Suc.prems kaddr_Suc Suc by auto
    have "sep (kaddr s d + 1) n (kaddr s c + 1) n"
      using Suc.prems(3) in_rng_shift1 sz by (meson sep_def)
    then have "memcpy_loop (d + 1) (c + 1) (d + 1 + of_nat n) ?t =
        Some (?t\<lparr>mem := copy_bytes (kaddr ?t (d + 1)) (kaddr ?t (c + 1)) n (mem ?t)\<rparr>)"
      using Suc.prems span_Suc ks by (intro Suc.IH) auto
    then show ?thesis
      using ks mt st copy_bytes_Suc [OF Suc.prems(3) sz, of "mem s"] by simp
  qed
  moreover have "d + of_nat (Suc n) = d + 1 + of_nat n" by (simp add: add.assoc)
  ultimately show ?case using lt by (subst memcpy_loop.simps) (simp del: of_nat_Suc add: add.assoc)
qed

lemma memcpy_eq:
  assumes "span s dest n" "span s src n" "sep (kaddr s dest) n (kaddr s src) n"
  shows "memcpy s dest src (of_nat n) =
    Some (dest, s\<lparr>mem := copy_bytes (kaddr s dest) (kaddr s src) n (mem s)\<rparr>)"
  using assms by (simp add: memcpy_def memcpy_loop_eq)

text \<open>A machine with the MMU on and RAM from \<open>0x80000000\<close>.\<close>

definition paging_state :: kstate where
  "paging_state = kstate0\<lparr>satp := 0x8000000000080500\<rparr>"

lemma paging_state_span: "unat p + n < window_size \<Longrightarrow> span paging_state (phys2safe paging_state p) n"
  by (rule span_phys2safe)

subsection \<open>Filling and comparing\<close>

lemma memset_loop_eq:
  "span s p n \<Longrightarrow> memset_loop p c (p + of_nat n) s =
     Some (s\<lparr>mem := (\<lambda>b. if in_rng (kaddr s p) n b then c else mem s b)\<rparr>)"
proof (induction n arbitrary: p s)
  case 0
  then show ?case by (subst memset_loop.simps) simp
next
  case (Suc n)
  let ?t = "st8 p c s"
  have lt: "p < p + of_nat (Suc n)" using spanD(1) [OF Suc.prems(1)] by (intro ptr_less_end) simp
  have st: "?t\<lparr>mem := m\<rparr> = s\<lparr>mem := m\<rparr>" for m by (simp add: st8_def)
  have IH: "memset_loop (p + 1) c (p + 1 + of_nat n) ?t =
      Some (s\<lparr>mem := (\<lambda>b. if in_rng (kaddr s (p + 1)) n b then c else mem ?t b)\<rparr>)"
    using Suc.IH [of ?t "p + 1"] span_Suc [OF Suc.prems] st by simp
  have "(\<lambda>b. if in_rng (kaddr s (p + 1)) n b then c else mem ?t b) =
      (\<lambda>b. if in_rng (kaddr s p) (Suc n) b then c else mem s b)"
  proof (cases n)
    case 0
    then show ?thesis by (auto simp: fun_eq_iff st8_def in_rng_Suc)
  next
    case (Suc k)
    then have "kaddr s (p + 1) = kaddr s p + 1" using Suc.prems kaddr_Suc by blast
    then show ?thesis by (auto simp: fun_eq_iff st8_def in_rng_Suc)
  qed
  moreover have "p + of_nat (Suc n) = p + 1 + of_nat n" by (simp add: add.assoc)
  ultimately show ?case using lt IH by (subst memset_loop.simps) (simp del: of_nat_Suc add: add.assoc)
qed

lemma memeq_loop_eq: "memeq_loop s n p q \<longleftrightarrow> (\<forall>k<n. ld8 s (p + of_nat k) = ld8 s (q + of_nat k))"
proof (induction n arbitrary: p q)
  case (Suc n)
  have "(\<forall>k<Suc n. ld8 s (p + of_nat k) = ld8 s (q + of_nat k)) \<longleftrightarrow>
      ld8 s p = ld8 s q \<and> (\<forall>k<n. ld8 s (p + 1 + of_nat k) = ld8 s (q + 1 + of_nat k))"
    by (auto simp: less_Suc_eq_0_disj add.assoc)
  then show ?case using Suc by auto
qed simp

text \<open>C38. What \<^verbatim>\<open>memcpy\<close> copies, \<^verbatim>\<open>memeq\<close> recognises, and what \<^verbatim>\<open>memset\<close> fills holds its value, for
  ranges that do not overlap: \<^verbatim>\<open>memcpy\<close> returns its destination, which then holds the bytes of the
  source, and changes no other byte; comparing the two ranges afterwards gives true; \<^verbatim>\<open>memeq\<close> is
  true exactly when every byte agrees; \<^verbatim>\<open>memset\<close> writes the low byte of its argument into every
  byte of the range and nothing else.\<close>

theorem memcpy_memeq_memset:
  assumes "span s dest n" "span s src n" "sep (kaddr s dest) n (kaddr s src) n"
  shows "\<exists>t. memcpy s dest src (of_nat n) = Some (dest, t) \<and>
    t = s\<lparr>mem := copy_bytes (kaddr s dest) (kaddr s src) n (mem s)\<rparr> \<and>
    memeq t dest src (of_nat n) \<and>
    memeq s p q (of_nat n) = (\<forall>k<n. ld8 s (p + of_nat k) = ld8 s (q + of_nat k)) \<and>
    memset s dest v (of_nat n) =
      Some (dest, s\<lparr>mem := (\<lambda>b. if in_rng (kaddr s dest) n b then ucast v else mem s b)\<rparr>)"
proof (intro exI conjI)
  let ?t = "s\<lparr>mem := copy_bytes (kaddr s dest) (kaddr s src) n (mem s)\<rparr>"
  have n: "unat (of_nat n :: u64) = n" using spanD(1) [OF assms(1)] by (intro unat_of_nat64) simp
  show "memcpy s dest src (of_nat n) = Some (dest, ?t)" using assms by (rule memcpy_eq)
  show "memeq ?t dest src (of_nat n)"
    unfolding memeq_def n memeq_loop_eq
  proof (intro allI impI)
    fix k assume k: "k < n"
    then have ks: "kaddr s (dest + of_nat k) = kaddr s dest + of_nat k"
      "kaddr s (src + of_nat k) = kaddr s src + of_nat k"
      using assms spanD(3) by blast+
    have "in_rng (kaddr s dest) n (kaddr s dest + of_nat k)" "in_rng (kaddr s src) n (kaddr s src + of_nat k)"
      using k spanD(1) [OF assms(1)] by (auto intro!: in_rng_offset)
    moreover from this(2) have "\<not> in_rng (kaddr s dest) n (kaddr s src + of_nat k)"
      using assms(3) by (meson sep_commute sep_not_in)
    ultimately show "ld8 ?t (dest + of_nat k) = ld8 ?t (src + of_nat k)"
      by (simp add: ld8_def ks copy_bytes_def)
  qed
  show "memset s dest v (of_nat n) =
      Some (dest, s\<lparr>mem := (\<lambda>b. if in_rng (kaddr s dest) n b then ucast v else mem s b)\<rparr>)"
    using assms(1) by (simp add: memset_def memset_loop_eq)
  show "memeq s p q (of_nat n) = (\<forall>k<n. ld8 s (p + of_nat k) = ld8 s (q + of_nat k))"
    using n by (simp add: memeq_def memeq_loop_eq)
qed simp

theorem memcpy_memeq_memset_witness:
  "\<exists>t. memcpy paging_state (phys2safe paging_state 0x80500000) (phys2safe paging_state 0x80400000) 3 =
         Some (phys2safe paging_state 0x80500000, t) \<and>
       memeq t (phys2safe paging_state 0x80500000) (phys2safe paging_state 0x80400000) 3"
proof -
  have "sep 0x80500000 3 0x80400000 3" by (rule sep_nat) simp_all
  with memcpy_memeq_memset [of paging_state "phys2safe paging_state 0x80500000" 3
      "phys2safe paging_state 0x80400000" 0 0 0]
  show ?thesis by (auto simp: paging_state_span window_size_def)
qed

end
