(* ===== verification/Bucket_Alloc.thy ===== *)
theory Bucket_Alloc
  imports Page_Pool Mem_Ops
begin

text \<open>
  The general-purpose allocator of \<^verbatim>\<open>kernel/src/memory.c\<close> (\<^verbatim>\<open>malloc\<close>, \<^verbatim>\<open>free\<close>, \<^verbatim>\<open>realloc\<close>): buckets with a
  32-byte header in seven size classes, one singly read free list per class and a doubly linked
  list of used buckets, all threaded through the byte memory. Requests above 64 KiB go to the page
  allocator. This theory holds the operations; \<open>Bucket_Heap\<close> holds the invariant and the proofs.
\<close>

subsection \<open>Bucket headers\<close>

text \<open>The fields of \<^verbatim>\<open>struct s_free_bucket\<close> and their offsets; the data starts at offset 32.\<close>

datatype s_free_bucket = Next | Prev | Size | Origin

primrec boff :: "s_free_bucket \<Rightarrow> nat" where
  "boff Next = 0"
| "boff Prev = 8"
| "boff Size = 16"
| "boff Origin = 24"

definition sizeof_bucket :: u64 where "sizeof_bucket = 32"

definition bget :: "s_free_bucket \<Rightarrow> u64 \<Rightarrow> kstate \<Rightarrow> u64" where
  "bget f b s = ld64 s (b + of_nat (boff f))"

definition bput :: "s_free_bucket \<Rightarrow> u64 \<Rightarrow> u64 \<Rightarrow> kstate \<Rightarrow> kstate" where
  "bput f b v s = st64 (b + of_nat (boff f)) v s"

subsection \<open>Size classes\<close>

datatype bclass = C16 | C64 | C256 | C1024 | C4096 | C16384 | C65536

primrec csize :: "bclass \<Rightarrow> nat" where
  "csize C16 = 16"
| "csize C64 = 64"
| "csize C256 = 256"
| "csize C1024 = 1024"
| "csize C4096 = 4096"
| "csize C16384 = 16384"
| "csize C65536 = 65536"

primrec free_of :: "bclass \<Rightarrow> free_buckets_alloc_t \<Rightarrow> u64" where
  "free_of C16 = free_16"
| "free_of C64 = free_64"
| "free_of C256 = free_256"
| "free_of C1024 = free_1024"
| "free_of C4096 = free_4096"
| "free_of C16384 = free_16384"
| "free_of C65536 = free_65536"

primrec set_free :: "bclass \<Rightarrow> u64 \<Rightarrow> free_buckets_alloc_t \<Rightarrow> free_buckets_alloc_t" where
  "set_free C16 p g = g\<lparr>free_16 := p\<rparr>"
| "set_free C64 p g = g\<lparr>free_64 := p\<rparr>"
| "set_free C256 p g = g\<lparr>free_256 := p\<rparr>"
| "set_free C1024 p g = g\<lparr>free_1024 := p\<rparr>"
| "set_free C4096 p g = g\<lparr>free_4096 := p\<rparr>"
| "set_free C16384 p g = g\<lparr>free_16384 := p\<rparr>"
| "set_free C65536 p g = g\<lparr>free_65536 := p\<rparr>"

text \<open>The cascade of comparisons that \<^verbatim>\<open>free_buckets_alloc\<close> and \<^verbatim>\<open>free\<close> share.\<close>

definition class_of :: "u64 \<Rightarrow> bclass option" where
  "class_of n =
     (if n \<le> 16 then Some C16 else if n \<le> 64 then Some C64 else if n \<le> 256 then Some C256
      else if n \<le> 1024 then Some C1024 else if n \<le> 4096 then Some C4096
      else if n \<le> 16384 then Some C16384 else if n \<le> 65536 then Some C65536 else None)"

text \<open>The classes in the order of their sizes.\<close>

instantiation bclass :: linorder
begin

definition less_eq_bclass :: "bclass \<Rightarrow> bclass \<Rightarrow> bool" where
  "less_eq_bclass c d \<longleftrightarrow> csize c \<le> csize d"

definition less_bclass :: "bclass \<Rightarrow> bclass \<Rightarrow> bool" where
  "less_bclass c d \<longleftrightarrow> csize c < csize d"

instance
proof
  fix c d :: bclass
  assume "c \<le> d" "d \<le> c"
  then show "c = d" by (cases c; cases d) (simp_all add: less_eq_bclass_def)
qed (auto simp: less_eq_bclass_def less_bclass_def)

end

subsection \<open>Formatting fresh pages\<close>

definition GLOBAL_ALLOC_FALLBACK_PAGE_COUNT :: u64 where
  "GLOBAL_ALLOC_FALLBACK_PAGE_COUNT = 65"

partial_function (option) format_loop ::
  "u64 \<Rightarrow> u64 \<Rightarrow> u64 \<Rightarrow> u64 \<Rightarrow> u64 \<Rightarrow> kstate \<Rightarrow> kstate option" where
  "format_loop data bucket_size sz total_size i s =
     (if i + sz < total_size then
        (let bucket = data + i;
             s = bput Prev bucket (if i > 0 then data + i - sz else 0) s;
             s = bput Next bucket (if i + sz < total_size then data + i + sz else 0) s;
             s = bput Size bucket bucket_size s;
             s = bput Origin bucket 0 s
         in format_loop data bucket_size sz total_size (i + sz) s)
      else Some s)"

definition free_buckets_format_unused :: "kstate \<Rightarrow> u64 \<Rightarrow> u64 \<Rightarrow> u64 \<Rightarrow> (u64 \<times> kstate) option" where
  "free_buckets_format_unused s data bucket_size total_size = do {
     s \<leftarrow> format_loop data bucket_size (sizeof_bucket + bucket_size) (total_size * PAGE_SIZE) 0 s;
     Some (data, s) }"

subsection \<open>Allocation and release\<close>

definition ga_update :: "(free_buckets_alloc_t \<Rightarrow> free_buckets_alloc_t) \<Rightarrow> kstate \<Rightarrow> kstate" where
  "ga_update f s = s\<lparr>GLOBAL_ALLOC := f (GLOBAL_ALLOC s)\<rparr>"

definition ga_lock :: "kstate \<Rightarrow> kstate option" where
  "ga_lock s = do { l \<leftarrow> spin_lock (mutating (GLOBAL_ALLOC s)); Some (ga_update (mutating_update (\<lambda>_. l)) s) }"

definition ga_unlock :: "kstate \<Rightarrow> kstate" where
  "ga_unlock s = ga_update (mutating_update (\<lambda>_. False)) s"

text \<open>The refill of an empty class; \<open>False\<close> stands for the early return of NULL.\<close>

definition refill :: "kstate \<Rightarrow> bclass \<Rightarrow> (bool \<times> kstate) option" where
  "refill s c =
     (if free_of c (GLOBAL_ALLOC s) = 0 then do {
        (unformatted, s) \<leftarrow> alloc_pages s GLOBAL_ALLOC_FALLBACK_PAGE_COUNT;
        let unformatted = phys2safe s unformatted;
        if unformatted = 0 then Some (False, s)
        else do {
          (p, s) \<leftarrow> free_buckets_format_unused s unformatted (of_nat (csize c)) GLOBAL_ALLOC_FALLBACK_PAGE_COUNT;
          Some (True, ga_update (set_free c p) s) } }
      else Some (True, s))"

text \<open>The choice of a bucket: popped from its class, or fresh pages. NULL when there is none.\<close>

definition take_bucket :: "kstate \<Rightarrow> u64 \<Rightarrow> (u64 \<times> kstate) option" where
  "take_bucket s sz =
     (case class_of sz of
        Some c \<Rightarrow> do {
          (ok, s) \<leftarrow> refill s c;
          if ok then
            let bucket = free_of c (GLOBAL_ALLOC s)
            in Some (bucket, ga_update (set_free c (bget Next bucket s)) s)
          else Some (0, s) }
      | None \<Rightarrow> do {
          let page_count = (sz + sizeof_bucket + PAGE_SIZE - 1) div PAGE_SIZE;
          (bucket, s) \<leftarrow> alloc_pages s page_count;
          let bucket = phys2safe s bucket;
          if bucket = 0 then Some (0, s) else Some (bucket, bput Size bucket sz s) })"

definition push_used :: "u64 \<Rightarrow> u64 \<Rightarrow> kstate \<Rightarrow> kstate" where
  "push_used bucket origin s =
     (let s = bput Origin bucket origin s;
          s = bput Next bucket (used (GLOBAL_ALLOC s)) s;
          s = (if used (GLOBAL_ALLOC s) \<noteq> 0 then bput Prev (used (GLOBAL_ALLOC s)) bucket s else s);
          s = ga_update (used_update (\<lambda>_. bucket)) s
      in bput Prev bucket 0 s)"

definition free_buckets_alloc :: "kstate \<Rightarrow> u64 \<Rightarrow> u64 \<Rightarrow> (u64 \<times> kstate) option" where
  "free_buckets_alloc s sz origin =
     (if sz = 0 then Some (0, s) else do {
        s \<leftarrow> ga_lock s;
        (bucket, s) \<leftarrow> take_bucket s sz;
        if bucket = 0 then Some (0, ga_unlock s)
        else Some (bucket + sizeof_bucket, ga_unlock (push_used bucket origin s)) })"

text \<open>\<open>ra\<close> is the return address register, recorded as the origin of the allocation.\<close>

definition malloc :: "kstate \<Rightarrow> u64 \<Rightarrow> u64 \<Rightarrow> (u64 \<times> kstate) option" where
  "malloc s ra sz = free_buckets_alloc s sz ra"

definition unlink_used :: "u64 \<Rightarrow> kstate \<Rightarrow> kstate" where
  "unlink_used bucket s =
     (let s = (if bget Prev bucket s \<noteq> 0 then bput Next (bget Prev bucket s) (bget Next bucket s) s else s);
          s = (if bget Next bucket s \<noteq> 0 then bput Prev (bget Next bucket s) (bget Prev bucket s) s else s);
          s = (if bucket = used (GLOBAL_ALLOC s)
               then ga_update (used_update (\<lambda>u. bget Next u s)) s else s);
          s = bput Prev bucket 0 s
      in bput Next bucket 0 s)"

definition push_free :: "bclass \<Rightarrow> u64 \<Rightarrow> kstate \<Rightarrow> kstate" where
  "push_free c bucket s =
     (let h = free_of c (GLOBAL_ALLOC s);
          s = (if h \<noteq> 0 then bput Prev h bucket s else s);
          s = bput Next bucket h s
      in ga_update (set_free c bucket) s)"

definition kfree :: "kstate \<Rightarrow> u64 \<Rightarrow> kstate option" where
  "kfree s p =
     (if p = 0 then Some s else do {
        s \<leftarrow> ga_lock s;
        let bucket = p - sizeof_bucket;
        let s = unlink_used bucket s;
        s \<leftarrow> (case class_of (bget Size bucket s) of
               Some c \<Rightarrow> Some (push_free c bucket s)
             | None \<Rightarrow> dealloc_pages s bucket ((bget Size bucket s + sizeof_bucket + PAGE_SIZE - 1) div PAGE_SIZE));
        Some (ga_unlock s) })"

definition realloc :: "kstate \<Rightarrow> u64 \<Rightarrow> u64 \<Rightarrow> u64 \<Rightarrow> (u64 \<times> kstate) option" where
  "realloc s ra p new_size =
     (if p = 0 then malloc s ra new_size
      else let bucket = p - sizeof_bucket in
        if bget Size bucket s \<ge> new_size then Some (p, s)
        else do {
          (new, s) \<leftarrow> free_buckets_alloc s new_size ra;
          if new = 0 then Some (0, s)
          else do {
            (d, s) \<leftarrow> memcpy s new p (bget Size bucket s);
            s \<leftarrow> kfree s p;
            Some (new, s) } })"

partial_function (option) debug_loop :: "u64 \<Rightarrow> kstate \<Rightarrow> kstate option" where
  "debug_loop bucket s =
     (if bucket \<noteq> 0 then do {
        s \<leftarrow> console_printf (''Unfreed allocation originating from 0x%lx (%lu bytes)'' @ [NL])
               [VWord (bget Origin bucket s), VWord (bget Size bucket s)] s;
        debug_loop (bget Next bucket s) s }
      else Some s)"

definition debug_free_buckets_alloc :: "kstate \<Rightarrow> kstate option" where
  "debug_free_buckets_alloc s = do {
     s \<leftarrow> ga_lock s;
     s \<leftarrow> debug_loop (used (GLOBAL_ALLOC s)) (console_puts (''Starting debug'' @ [NL]) s);
     Some (ga_unlock (console_puts (''Ending debug'' @ [NL]) s)) }"

subsection \<open>Facts on the records\<close>

lemma free_of_set_free [simp]:
  "free_of d (set_free c p g) = (if c = d then p else free_of d g)"
  by (cases c; cases d) simp_all

lemma set_free_other [simp]:
  "used (set_free c p g) = used g" "mutating (set_free c p g) = mutating g"
  by (cases c; simp)+

lemma free_of_other [simp]:
  "free_of c (g\<lparr>used := p\<rparr>) = free_of c g" "free_of c (g\<lparr>mutating := m\<rparr>) = free_of c g"
  by (cases c; simp)+

lemma all_bclass:
  "(\<forall>d. P d) \<longleftrightarrow> P C16 \<and> P C64 \<and> P C256 \<and> P C1024 \<and> P C4096 \<and> P C16384 \<and> P C65536"
  by (metis bclass.exhaust)

text \<open>The cascade picks the least class that fits.\<close>

lemma class_of_Some: "class_of n = Some c \<longleftrightarrow> unat n \<le> csize c \<and> (\<forall>d<c. csize d < unat n)"
  by (cases c) (auto simp: class_of_def word_le_nat_alt less_bclass_def all_bclass)

lemma class_of_None: "class_of n = None \<longleftrightarrow> 65536 < unat n"
  by (auto simp: class_of_def word_le_nat_alt)

lemma csize_bounds: "16 \<le> csize c" "csize c \<le> 65536"
  by (cases c; simp)+

lemma class_of_csize [simp]: "class_of (of_nat (csize c)) = Some c"
  by (cases c) (simp_all add: class_of_def)

lemma class_of_0 [simp]: "class_of 0 = Some C16"
  by (simp add: class_of_def)

end
