(* ===== verification/Bucket_Heap.thy ===== *)
theory Bucket_Heap
  imports Bucket_Alloc
begin

text \<open>
  The invariant of the bucket allocator and its preservation: the free lists and the used list as
  HOL lists (\<open>F\<close> per class, \<open>U\<close>), the extents of the buckets pairwise disjoint and inside pages in
  use. \<^verbatim>\<open>malloc\<close> moves a bucket from \<open>F\<close> to \<open>U\<close>, \<^verbatim>\<open>free\<close> moves it back.
\<close>

subsection \<open>Headers that do not overlap\<close>

definition hdrs :: "kstate \<Rightarrow> u64 set \<Rightarrow> bool" where
  "hdrs s H \<longleftrightarrow> (\<forall>b\<in>H. b \<noteq> 0 \<and> span s b 32 \<and>
     (\<forall>b'\<in>H. b \<noteq> b' \<longrightarrow> sep (kaddr s b) 32 (kaddr s b') 32))"

lemma hdrsD: "hdrs s H \<Longrightarrow> b \<in> H \<Longrightarrow> b \<noteq> 0" "hdrs s H \<Longrightarrow> b \<in> H \<Longrightarrow> span s b 32"
  by (auto simp: hdrs_def)

lemma boff_le: "boff f + 8 \<le> 32" and boff_inj: "f \<noteq> f' \<Longrightarrow> boff f + 8 \<le> boff f' \<or> boff f' + 8 \<le> boff f"
  by (cases f; simp) (cases f; cases f'; simp)

lemma field_addr: "span s b 32 \<Longrightarrow> kaddr s (b + of_nat (boff f)) = kaddr s b + of_nat (boff f)"
  using boff_le [of f] by (intro spanD(3)) auto

lemma field_sub: "in_rng (a + of_nat (boff f)) 8 x \<Longrightarrow> in_rng a 32 x"
proof -
  assume x: "in_rng (a + of_nat (boff f)) 8 x"
  have "in_rng a (boff f + 8) x" using in_rng_split [of "boff f" 8 a x] x boff_le [of f] by simp
  then show ?thesis using boff_le [of f] by (rule in_rng_mono)
qed

lemma field_sep:
  assumes "unat a + 32 < 2 ^ 64" "f \<noteq> f'"
  shows "sep (a + of_nat (boff f)) 8 (a + of_nat (boff f')) 8"
proof -
  have "unat (a + of_nat (boff g)) = unat a + boff g" for g
    using assms(1) boff_le [of g] by (intro unat_add_nowrap) simp
  then show ?thesis using assms boff_inj [OF assms(2)] boff_le [of f] boff_le [of f'] by (intro sep_nat) auto
qed

lemma bget_bput:
  assumes "hdrs s H" "b \<in> H" "b' \<in> H"
  shows "bget f' b' (bput f b v s) = (if b = b' \<and> f = f' then v else bget f' b' s)"
proof (cases "b = b' \<and> f = f'")
  case True
  then show ?thesis by (simp add: bget_def bput_def)
next
  case False
  have sp: "span s b 32" "span s b' 32" using assms hdrsD(2) by blast+
  have "sep (kaddr s b + of_nat (boff f)) 8 (kaddr s b' + of_nat (boff f')) 8"
  proof (cases "b = b'")
    case True
    then show ?thesis using False field_sep spanD(2) [OF sp(1)] by simp
  next
    case F: False
    then have "sep (kaddr s b) 32 (kaddr s b') 32" using assms by (auto simp: hdrs_def)
    then show ?thesis using field_sub by (meson sep_def)
  qed
  then show ?thesis using False sp
    by (auto simp: bget_def bput_def field_addr intro!: ld64_st64_other)
qed

lemma bput_mem:
  assumes "span s b 32" "\<not> in_rng (kaddr s b) 32 x"
  shows "mem (bput f b v s) x = mem s x"
  using write_le_other [of 8 "kaddr s b + of_nat (boff f)" x v "mem s"] field_sub [of "kaddr s b" f x] assms
  by (auto simp: bput_def st64_def field_addr)

lemma bput_regs [simp]: "same_regs s (bput f b v s)"
  by (simp add: bput_def)

lemma bput_frame [simp, frame_simps]:
  "GLOBAL_ALLOC (bput f b v s) = GLOBAL_ALLOC s" "mutating_heap (bput f b v s) = mutating_heap s"
  "kaddr (bput f b v s) = kaddr s" "span (bput f b v s) = span s" "hdrs (bput f b v s) = hdrs s"
  by (simp_all add: bput_def hdrs_def fun_eq_iff) (simp_all add: st64_def)

lemma ga_update_frame [simp, frame_simps]:
  "mem (ga_update g s) = mem s" "mutating_heap (ga_update g s) = mutating_heap s"
  "GLOBAL_ALLOC (ga_update g s) = g (GLOBAL_ALLOC s)"
  "kaddr (ga_update g s) = kaddr s" "span (ga_update g s) = span s" "hdrs (ga_update g s) = hdrs s"
  "bget f b (ga_update g s) = bget f b s" "pool_held (ga_update g s) = pool_held s"
  "pool_inv (ga_update g s) = pool_inv s"
  by (simp_all add: ga_update_def hdrs_def fun_eq_iff bget_def ld64_def pool_held_def pool_inv_def npages_def)

lemma ga_used_const: "ga_update (used_update f) s = ga_update (used_update (\<lambda>_. f (used (GLOBAL_ALLOC s)))) s"
  by (cases "GLOBAL_ALLOC s") (simp add: ga_update_def)

subsection \<open>Linked lists\<close>

text \<open>\<open>chain nxt a xs\<close>: following \<open>nxt\<close> from \<open>a\<close> visits \<open>xs\<close> and ends at NULL. \<open>prevs prv p xs\<close>: the
  back pointers of \<open>xs\<close>, with \<open>p\<close> before the first element.\<close>

primrec chain :: "(u64 \<Rightarrow> u64) \<Rightarrow> u64 \<Rightarrow> u64 list \<Rightarrow> bool" where
  "chain nxt a [] \<longleftrightarrow> a = 0"
| "chain nxt a (x # xs) \<longleftrightarrow> a = x \<and> chain nxt (nxt x) xs"

primrec prevs :: "(u64 \<Rightarrow> u64) \<Rightarrow> u64 \<Rightarrow> u64 list \<Rightarrow> bool" where
  "prevs prv p [] \<longleftrightarrow> True"
| "prevs prv p (x # xs) \<longleftrightarrow> prv x = p \<and> prevs prv x xs"

lemma chain_cong: "(\<And>x. x \<in> set xs \<Longrightarrow> f x = g x) \<Longrightarrow> chain f a xs \<longleftrightarrow> chain g a xs"
  by (induction xs arbitrary: a) auto

lemma prevs_cong: "(\<And>x. x \<in> set xs \<Longrightarrow> f x = g x) \<Longrightarrow> prevs f a xs \<longleftrightarrow> prevs g a xs"
  by (induction xs arbitrary: a) auto

lemma chain_head: "chain nxt a xs \<Longrightarrow> 0 \<notin> set xs \<Longrightarrow> a \<noteq> 0 \<longleftrightarrow> xs \<noteq> []"
  by (cases xs) auto

lemma chain_next: "chain nxt a (xs @ b # ys) \<Longrightarrow> nxt b = (if ys = [] then 0 else hd ys)"
  by (induction xs arbitrary: a) (cases ys; auto)+

lemma chain_first: "chain nxt a (xs @ b # ys) \<Longrightarrow> a = (if xs = [] then b else hd xs)"
  by (cases xs) auto

lemma prevs_prev: "prevs prv p (xs @ b # ys) \<Longrightarrow> prv b = (if xs = [] then p else last xs)"
  by (induction xs arbitrary: p) auto

lemma chain_remove:
  "chain nxt a (xs @ b # ys) \<Longrightarrow> distinct (xs @ b # ys) \<Longrightarrow>
     chain (if xs = [] then nxt else nxt(last xs := nxt b)) (if xs = [] then nxt b else a) (xs @ ys)"
proof (induction xs arbitrary: a)
  case (Cons x xs)
  show ?case
  proof (cases "xs = []")
    case True
    have "chain (nxt(x := nxt b)) (nxt b) ys = chain nxt (nxt b) ys"
      using Cons.prems True by (intro chain_cong) auto
    then show ?thesis using True Cons.prems by (auto simp: fun_upd_def)
  next
    case False
    then have "x \<noteq> last xs" using Cons.prems(2) last_in_set [of xs] by auto
    then show ?thesis using Cons.IH [of "nxt x"] Cons.prems False by auto
  qed
qed simp

lemma prevs_remove:
  "prevs prv p (xs @ b # ys) \<Longrightarrow> distinct (xs @ b # ys) \<Longrightarrow>
     prevs (if ys = [] then prv else prv(hd ys := prv b)) p (xs @ ys)"
proof (induction xs arbitrary: p)
  case Nil
  have "prevs (prv(y := prv b)) y zs = prevs prv y zs" if "ys = y # zs" for y zs
    using that Nil.prems by (intro prevs_cong) auto
  then show ?case using Nil by (cases ys) (auto simp: fun_upd_def)
next
  case (Cons x xs)
  have "x \<notin> set ys" using Cons.prems by simp
  then have "ys \<noteq> [] \<Longrightarrow> x \<noteq> hd ys" using hd_in_set by metis
  then show ?case using Cons by (auto split: if_splits)
qed

subsection \<open>The lists of the allocator\<close>

definition buckets :: "(bclass \<Rightarrow> u64 list) \<Rightarrow> u64 list \<Rightarrow> u64 set" where
  "buckets F U = set U \<union> (\<Union>c. set (F c))"

abbreviation nexts :: "kstate \<Rightarrow> u64 \<Rightarrow> u64" where "nexts s \<equiv> (\<lambda>b. bget Next b s)"
abbreviation backs :: "kstate \<Rightarrow> u64 \<Rightarrow> u64" where "backs s \<equiv> (\<lambda>b. bget Prev b s)"

definition apart :: "(bclass \<Rightarrow> u64 list) \<Rightarrow> u64 list \<Rightarrow> bool" where
  "apart F U \<longleftrightarrow> distinct U \<and> (\<forall>c. distinct (F c) \<and> set (F c) \<inter> set U = {}) \<and>
     (\<forall>c d. c \<noteq> d \<longrightarrow> set (F c) \<inter> set (F d) = {})"

definition heap_lists :: "kstate \<Rightarrow> (bclass \<Rightarrow> u64 list) \<Rightarrow> u64 list \<Rightarrow> bool" where
  "heap_lists s F U \<longleftrightarrow> hdrs s (buckets F U) \<and> apart F U \<and>
     chain (nexts s) (used (GLOBAL_ALLOC s)) U \<and> prevs (backs s) 0 U \<and>
     (\<forall>c. chain (nexts s) (free_of c (GLOBAL_ALLOC s)) (F c))"

text \<open>\<open>hdr_frame H s t\<close>: from \<open>s\<close> to \<open>t\<close> only the globals of the allocator and headers in \<open>H\<close> changed,
  and no size field.\<close>

definition hdr_frame :: "u64 set \<Rightarrow> kstate \<Rightarrow> kstate \<Rightarrow> bool" where
  "hdr_frame H s t \<longleftrightarrow> t = s\<lparr>mem := mem t, GLOBAL_ALLOC := GLOBAL_ALLOC t\<rparr> \<and>
     mutating (GLOBAL_ALLOC t) = mutating (GLOBAL_ALLOC s) \<and>
     (\<forall>x. (\<forall>b\<in>H. \<not> in_rng (kaddr s b) 32 x) \<longrightarrow> mem t x = mem s x) \<and>
     (\<forall>b\<in>H. bget Size b t = bget Size b s)"

lemma kaddr_two: "kaddr (s\<lparr>mem := m, GLOBAL_ALLOC := g\<rparr>) = kaddr s"
  by simp

lemma hdr_frame_kaddr: "hdr_frame H s t \<Longrightarrow> kaddr t = kaddr s"
  by (metis hdr_frame_def kaddr_two)

lemma hdr_frame_refl [simp]: "hdr_frame H s s"
  by (simp add: hdr_frame_def)

lemma hdr_frame_trans: "hdr_frame H s t \<Longrightarrow> hdr_frame H t u \<Longrightarrow> hdr_frame H s u"
  using hdr_frame_kaddr [of H s t]
  by (cases s, cases t, cases u) (simp add: hdr_frame_def)

lemma hdr_frame_bput: "hdrs s H \<Longrightarrow> b \<in> H \<Longrightarrow> f \<noteq> Size \<Longrightarrow> hdr_frame H s (bput f b v s)"
  unfolding hdr_frame_def
proof (intro conjI ballI allI impI)
  show "bput f b v s = s\<lparr>mem := mem (bput f b v s), GLOBAL_ALLOC := GLOBAL_ALLOC (bput f b v s)\<rparr>"
    by (simp add: bput_def st64_def)
qed (auto simp: bget_bput dest: hdrsD intro: bput_mem)

lemma hdr_frame_ga:
  "mutating (g (GLOBAL_ALLOC s)) = mutating (GLOBAL_ALLOC s) \<Longrightarrow> hdr_frame H s (ga_update g s)"
  unfolding hdr_frame_def by (simp add: ga_update_def bget_def ld64_def)

lemma hdr_frame_hdrs: "hdr_frame H s t \<Longrightarrow> hdrs t = hdrs s"
  using hdr_frame_kaddr [of H s t] by (simp add: hdrs_def span_def fun_eq_iff)

lemma hdr_frame_put:
  "hdr_frame H s t \<Longrightarrow> hdrs s H \<Longrightarrow> b \<in> H \<Longrightarrow> f \<noteq> Size \<Longrightarrow> hdr_frame H s (bput f b v t)"
  by (metis hdr_frame_bput hdr_frame_hdrs hdr_frame_trans)

lemma hdr_frame_upd:
  "hdr_frame H s t \<Longrightarrow> mutating (g (GLOBAL_ALLOC t)) = mutating (GLOBAL_ALLOC t) \<Longrightarrow> hdr_frame H s (ga_update g t)"
  by (metis hdr_frame_ga hdr_frame_trans)

lemmas hdr_frame_steps = hdr_frame_put hdr_frame_upd

lemma hdrs_mono: "hdrs s K \<Longrightarrow> H \<subseteq> K \<Longrightarrow> hdrs s H"
  by (auto simp: hdrs_def)

lemma buckets_upd: "buckets (F(c := xs)) U = set U \<union> set xs \<union> (\<Union>d\<in>- {c}. set (F d))"
  by (auto simp: buckets_def split: if_splits)

lemma buckets_split: "buckets F U = set U \<union> set (F c) \<union> (\<Union>d\<in>- {c}. set (F d))"
  using buckets_upd [of F c "F c" U] by simp

lemma apartD:
  assumes "apart F U"
  shows "distinct U" "distinct (F c)" "set (F c) \<inter> set U = {}" "c \<noteq> d \<Longrightarrow> set (F c) \<inter> set (F d) = {}"
  using assms by (auto simp: apart_def)

lemma apart_upd:
  assumes "apart F U" "distinct xs" "set xs \<inter> set U = {}" "\<And>d. d \<noteq> c \<Longrightarrow> set xs \<inter> set (F d) = {}"
  shows "apart (F(c := xs)) U"
  unfolding apart_def
proof (intro conjI allI impI)
  fix d e :: bclass
  assume "d \<noteq> e"
  then show "set ((F(c := xs)) d) \<inter> set ((F(c := xs)) e) = {}"
    using assms(4) [of d] assms(4) [of e] apartD(4) [OF assms(1), of d e] by (auto simp: Int_commute)
qed (use assms in \<open>auto simp: apart_def\<close>)

subsection \<open>The four list operations\<close>

lemma pop_free:
  assumes "heap_lists s F U" "F c = b # bs"
  shows "free_of c (GLOBAL_ALLOC s) = b"
    and "heap_lists (ga_update (set_free c (bget Next b s)) s) (F(c := bs)) U"
    and "b \<notin> buckets (F(c := bs)) U" "insert b (buckets (F(c := bs)) U) = buckets F U"
proof -
  have ap: "apart F U" and ch: "chain (nexts s) (free_of d (GLOBAL_ALLOC s)) (F d)" for d
    using assms(1) by (auto simp: heap_lists_def)
  show "free_of c (GLOBAL_ALLOC s) = b" using ch [of c] assms(2) by simp
  have "b \<in> set (F c)" using assms(2) by simp
  moreover have "distinct (F c)" using ap by (simp add: apart_def)
  ultimately have nb: "b \<notin> set bs" "b \<notin> set U" "d \<noteq> c \<Longrightarrow> b \<notin> set (F d)" for d
    using ap assms(2) unfolding apart_def by (simp, blast+)
  then show "b \<notin> buckets (F(c := bs)) U" by (auto simp: buckets_def)
  show eq: "insert b (buckets (F(c := bs)) U) = buckets F U"
    using assms(2) unfolding buckets_upd buckets_split [of F U c] by auto
  have "apart (F(c := bs)) U"
    using apartD(2,3,4) [OF ap, of c] assms(2) by (intro apart_upd [OF ap]) auto
  moreover have "hdrs s (buckets (F(c := bs)) U)"
    using assms(1) eq hdrs_mono [of s "buckets F U"] by (auto simp: heap_lists_def)
  ultimately show "heap_lists (ga_update (set_free c (bget Next b s)) s) (F(c := bs)) U"
    using assms ch by (auto simp: heap_lists_def) (metis chain.simps(2))
qed

lemma heap_listsD:
  assumes "heap_lists s F U"
  shows "hdrs s (buckets F U)" "apart F U" "chain (nexts s) (used (GLOBAL_ALLOC s)) U"
    "prevs (backs s) 0 U" "chain (nexts s) (free_of c (GLOBAL_ALLOC s)) (F c)"
    "0 \<notin> buckets F U"
  using assms by (auto simp: heap_lists_def hdrs_def)

lemma buckets_U: "x \<in> set U \<Longrightarrow> x \<in> buckets F U" and buckets_F: "x \<in> set (F c) \<Longrightarrow> x \<in> buckets F U"
  by (auto simp: buckets_def)

lemma push_used_lists:
  assumes hl: "heap_lists s F U" and h: "hdrs s (insert b (buckets F U))" and nb: "b \<notin> buckets F U"
  shows "heap_lists (push_used b org s) F (b # U)"
    and "hdr_frame (insert b (buckets F U)) s (push_used b org s)"
    and "bget Origin b (push_used b org s) = org"
proof -
  let ?H = "insert b (buckets F U)" and ?u = "used (GLOBAL_ALLOC s)" and ?t = "push_used b org s"
  note D = heap_listsD [OF hl]
  have u: "?u \<in> ?H" if "?u \<noteq> 0" using D(3) that by (cases U) (auto simp: buckets_def)
  have ub: "?u \<noteq> b" if "?u \<noteq> 0" using D(3) that nb by (cases U) (auto simp: buckets_def)
  have fld: "bget f x ?t = (if x = b \<and> f = Next then ?u else if x = b \<and> f = Prev then 0
      else if x = b \<and> f = Origin then org else if x = ?u \<and> ?u \<noteq> 0 \<and> f = Prev then b else bget f x s)"
    if "x \<in> ?H" for x f
    using that h u ub by (auto simp: push_used_def Let_def bget_bput [where H = ?H])
  show "bget Origin b ?t = org" using fld [of b Origin] by simp
  show "hdr_frame ?H s ?t"
    using h u by (auto simp: push_used_def Let_def intro!: hdr_frame_steps)
  have ht: "hdrs ?t = hdrs s" by (rule hdr_frame_hdrs [OF \<open>hdr_frame ?H s ?t\<close>])
  have g: "used (GLOBAL_ALLOC ?t) = b" "free_of c (GLOBAL_ALLOC ?t) = free_of c (GLOBAL_ALLOC s)" for c
    by (simp_all add: push_used_def Let_def)
  have nbu: "x \<in> set U \<Longrightarrow> x \<noteq> b" "x \<in> set (F c) \<Longrightarrow> x \<noteq> b" "x \<in> set (F c) \<Longrightarrow> x \<notin> set U" for x c
    using nb D(2) by (auto simp: buckets_def apart_def)
  have bk: "buckets F (b # U) = ?H" by (auto simp: buckets_def)
  have "chain (nexts ?t) ?u U = chain (nexts s) ?u U"
    using fld nbu by (intro chain_cong) (auto simp: buckets_def)
  moreover have "prevs (backs ?t) b U"
  proof (cases U)
    case (Cons v V)
    then have "?u = v" "v \<noteq> 0" "v \<notin> set V" using D by (auto simp: apart_def buckets_def)
    moreover have "prevs (backs ?t) v V = prevs (backs s) v V"
      using fld nbu Cons \<open>v \<notin> set V\<close> \<open>?u = v\<close> by (intro prevs_cong) (auto simp: buckets_def)
    ultimately show ?thesis using fld [of v Prev] D(4) Cons nbu by (auto simp: buckets_def)
  qed simp
  moreover have "chain (nexts ?t) (free_of c (GLOBAL_ALLOC s)) (F c) = chain (nexts s) (free_of c (GLOBAL_ALLOC s)) (F c)" for c
  proof (rule chain_cong)
    fix x assume x: "x \<in> set (F c)"
    then have "x \<noteq> b" "x \<in> ?H" using nbu(2) by (auto simp: buckets_def)
    then show "nexts ?t x = nexts s x" using fld [of x Next] by simp
  qed
  moreover have "apart F (b # U)" using D(2) nb by (auto simp: apart_def buckets_def)
  ultimately show "heap_lists ?t F (b # U)"
    unfolding heap_lists_def ht bk g using h D fld [of b Next] fld [of b Prev] by simp
qed

lemma unlink_used_lists:
  assumes hl: "heap_lists s F (xs @ b # ys)"
  shows "heap_lists (unlink_used b s) F (xs @ ys)"
    and "hdr_frame (buckets F (xs @ b # ys)) s (unlink_used b s)"
    and "b \<notin> buckets F (xs @ ys)" "insert b (buckets F (xs @ ys)) = buckets F (xs @ b # ys)"
proof -
  let ?t = "unlink_used b s" and ?u = "used (GLOBAL_ALLOC s)"
  let ?p = "bget Prev b s" and ?n = "bget Next b s"
  define H where "H = buckets F (xs @ b # ys)"
  note D = heap_listsD [OF hl]
  have DH: "hdrs s H" using D(1) by (simp add: H_def)
  have dst: "distinct (xs @ b # ys)" using D(2) by (rule apartD)
  have nf: "x \<in> set (F c) \<Longrightarrow> x \<notin> set (xs @ b # ys)" for x c
    using apartD(3) [OF D(2), of c] by blast
  have pv: "?p = (if xs = [] then 0 else last xs)" using prevs_prev [OF D(4)] .
  have nx: "?n = (if ys = [] then 0 else hd ys)" using chain_next [OF D(3)] .
  have us: "?u = (if xs = [] then b else hd xs)" using chain_first [OF D(3)] .
  have nz: "x \<in> set (xs @ b # ys) \<Longrightarrow> x \<noteq> 0" "x \<in> set (xs @ b # ys) \<Longrightarrow> x \<in> H" for x
    using D(6) by (auto simp: buckets_def H_def)
  have pz: "?p \<noteq> 0 \<longleftrightarrow> xs \<noteq> []" "xs \<noteq> [] \<Longrightarrow> ?p \<in> H \<and> ?p \<noteq> b"
    using pv nz [of ?p] last_in_set [of xs] dst by (auto split: if_splits)
  have ny: "?n \<noteq> 0 \<longleftrightarrow> ys \<noteq> []" "ys \<noteq> [] \<Longrightarrow> ?n \<in> H \<and> ?n \<noteq> b"
    using nx nz [of ?n] hd_in_set [of ys] dst by (auto split: if_splits)
  have bH: "b \<in> H" by (rule nz(2)) simp
  define s1 where "s1 = (if xs = [] then s else bput Next ?p ?n s)"
  define s2 where "s2 = (if ys = [] then s1 else bput Prev ?n ?p s1)"
  have h1: "hdrs s1 H" "hdrs s2 H" "GLOBAL_ALLOC s2 = GLOBAL_ALLOC s" using DH by (simp_all add: s1_def s2_def)
  have g1: "bget f x s1 = (if f = Next \<and> xs \<noteq> [] \<and> x = ?p then ?n else bget f x s)" if "x \<in> H" for f x
    using bget_bput [OF DH] pz(2) that by (auto simp: s1_def)
  have g2: "bget f x s2 = (if f = Next \<and> xs \<noteq> [] \<and> x = ?p then ?n
      else if f = Prev \<and> ys \<noteq> [] \<and> x = ?n then ?p else bget f x s)" if "x \<in> H" for f x
    using bget_bput [OF h1(1)] ny(2) that g1 [OF that, of f] by (auto simp: s2_def)
  have b1: "bget Next b s1 = ?n" "bget Prev b s1 = ?p" "bget Next b s2 = ?n"
    using g1 [OF bH] g2 [OF bH] pz(2) ny(2) by auto
  have bu: "b = ?u \<longleftrightarrow> xs = []" using us dst hd_in_set [of xs] by auto
  have t: "?t = bput Next b 0 (bput Prev b 0 (if xs = [] then ga_update (used_update (\<lambda>_. ?n)) s2 else s2))"
  proof -
    have 1: "(if ?p \<noteq> 0 then bput Next ?p ?n s else s) = s1" using pz(1) by (simp add: s1_def)
    have 2: "(if bget Next b s1 \<noteq> 0 then bput Prev (bget Next b s1) (bget Prev b s1) s1 else s1) = s2"
      unfolding b1 using ny(1) by (simp add: s2_def)
    have 3: "(if b = used (GLOBAL_ALLOC s2) then ga_update (used_update (\<lambda>u. bget Next u s2)) s2 else s2) =
        (if xs = [] then ga_update (used_update (\<lambda>_. ?n)) s2 else s2)"
      using b1(3) bu h1(3) ga_used_const [of "\<lambda>u. bget Next u s2" s2] by metis
    show ?thesis unfolding unlink_used_def Let_def 1 2 3 ..
  qed
  define s3 where "s3 = (if xs = [] then ga_update (used_update (\<lambda>_. ?n)) s2 else s2)"
  have h3: "hdrs s3 H" "bget f x s3 = bget f x s2" for f x using h1(2) by (simp_all add: s3_def)
  have fld: "bget f x ?t = (if x = b \<and> (f = Next \<or> f = Prev) then 0
      else if f = Next \<and> xs \<noteq> [] \<and> x = ?p then ?n
      else if f = Prev \<and> ys \<noteq> [] \<and> x = ?n then ?p else bget f x s)" if "x \<in> H" for x f
  proof -
    have "bget f x (bput Next b 0 (bput Prev b 0 s3)) =
        (if b = x \<and> Next = f then 0 else bget f x (bput Prev b 0 s3))"
      using h3(1) bH that by (intro bget_bput [of _ H]) auto
    moreover have "bget f x (bput Prev b 0 s3) = (if b = x \<and> Prev = f then 0 else bget f x s2)"
      using bget_bput [OF h3(1) bH that, of f Prev 0] h3(2) by simp
    ultimately show ?thesis unfolding t s3_def [symmetric] using g2 [OF that, of f] by auto
  qed
  have used_t: "used (GLOBAL_ALLOC ?t) = (if xs = [] then ?n else ?u)"
    unfolding t using h1(3) by simp
  have free_t: "free_of c (GLOBAL_ALLOC ?t) = free_of c (GLOBAL_ALLOC s)" for c
    unfolding t using h1(3) by simp
  have "hdr_frame H s s1" using DH pz(2) by (auto simp: s1_def intro!: hdr_frame_steps)
  then have "hdr_frame H s s2" using DH ny(2) by (auto simp: s2_def intro!: hdr_frame_steps)
  then have fr: "hdr_frame H s ?t"
    unfolding t using DH bH by (auto intro!: hdr_frame_steps)
  have ht: "hdrs ?t = hdrs s" by (rule hdr_frame_hdrs [OF fr])
  show "hdr_frame (buckets F (xs @ b # ys)) s ?t" using fr by (simp add: H_def)
  show "b \<notin> buckets F (xs @ ys)" using dst nf by (auto simp: buckets_def)
  show eq: "insert b (buckets F (xs @ ys)) = buckets F (xs @ b # ys)" by (auto simp: buckets_def)
  have "chain (nexts ?t) (used (GLOBAL_ALLOC ?t)) (xs @ ys)"
  proof -
    have "chain (nexts ?t) a (xs @ ys) = chain (if xs = [] then nexts s else (nexts s)(last xs := ?n)) a (xs @ ys)" for a
      using fld dst pv nz(2) by (intro chain_cong) auto
    then show ?thesis using chain_remove [OF D(3) dst] used_t by simp
  qed
  moreover have "prevs (backs ?t) 0 (xs @ ys)"
  proof -
    have "prevs (backs ?t) 0 (xs @ ys) = prevs (if ys = [] then backs s else (backs s)(hd ys := ?p)) 0 (xs @ ys)"
      using fld dst nx nz(2) by (intro prevs_cong) auto
    then show ?thesis using prevs_remove [OF D(4) dst] by simp
  qed
  moreover have "chain (nexts ?t) (free_of c (GLOBAL_ALLOC s)) (F c)" for c
  proof -
    have "nexts ?t x = nexts s x" if "x \<in> set (F c)" for x
      using fld [of x Next] buckets_F [of x F c "xs @ b # ys"] that nf [OF that] pv last_in_set [of xs]
      by (cases "xs = []") (auto simp: H_def)
    then show ?thesis using D(5) [of c] chain_cong [of "F c" "nexts ?t" "nexts s"] by simp
  qed
  moreover have "apart F (xs @ ys)" using D(2) by (auto simp: apart_def)
  ultimately show "heap_lists ?t F (xs @ ys)"
    unfolding heap_lists_def ht free_t using DH eq hdrs_mono [of s H "buckets F (xs @ ys)"] by (auto simp: H_def)
qed

lemma push_free_lists:
  assumes hl: "heap_lists s F U" and h: "hdrs s (insert b (buckets F U))" and nb: "b \<notin> buckets F U"
  shows "heap_lists (push_free c b s) (F(c := b # F c)) U"
    and "hdr_frame (insert b (buckets F U)) s (push_free c b s)"
proof -
  let ?h = "free_of c (GLOBAL_ALLOC s)" and ?t = "push_free c b s"
  define H where "H = insert b (buckets F U)"
  note D = heap_listsD [OF hl]
  have hH: "hdrs s H" "b \<in> H" using h by (simp_all add: H_def)
  have hd: "?h \<in> H \<and> ?h \<in> set (F c)" if "?h \<noteq> 0"
    using D(5) [of c] that buckets_F [of ?h F c U] by (cases "F c") (auto simp: H_def)
  have fld: "bget f x ?t = (if x = b \<and> f = Next then ?h else if x = ?h \<and> ?h \<noteq> 0 \<and> f = Prev then b else bget f x s)"
    if "x \<in> H" for f x
    using that hH hd by (auto simp: push_free_def Let_def bget_bput [where H = H])
  have fr: "hdr_frame H s ?t" using hH hd by (auto simp: push_free_def Let_def intro!: hdr_frame_steps)
  then show "hdr_frame (insert b (buckets F U)) s ?t" by (simp add: H_def)
  have g: "used (GLOBAL_ALLOC ?t) = used (GLOBAL_ALLOC s)"
    "free_of d (GLOBAL_ALLOC ?t) = (if d = c then b else free_of d (GLOBAL_ALLOC s))" for d
    by (simp_all add: push_free_def Let_def)
  have "?h \<notin> set U"
    using hd apartD(3) [OF D(2), of c] D(6) by (cases "?h = 0") (auto simp: buckets_def)
  then have nbu: "x \<in> set U \<Longrightarrow> x \<noteq> b \<and> x \<in> H \<and> x \<noteq> ?h" "x \<in> set (F d) \<Longrightarrow> x \<noteq> b \<and> x \<in> H" for x d
    using nb by (auto simp: buckets_def H_def)
  have "chain (nexts ?t) a U = chain (nexts s) a U" "prevs (backs ?t) 0 U = prevs (backs s) 0 U" for a
    using fld nbu(1) by (auto intro!: chain_cong prevs_cong)
  moreover have ch: "chain (nexts ?t) (free_of d (GLOBAL_ALLOC s)) (F d)" for d
  proof -
    have "nexts ?t x = nexts s x" if "x \<in> set (F d)" for x using fld [of x Next] nbu(2) [OF that] by simp
    then show ?thesis using D(5) [of d] chain_cong [of "F d" "nexts ?t" "nexts s"] by simp
  qed
  moreover have "chain (nexts ?t) b (b # F c)" using ch [of c] fld [OF hH(2), of Next] by simp
  moreover have "apart (F(c := b # F c)) U"
    using apartD(2,3,4) [OF D(2), of c] nb by (intro apart_upd [OF D(2)]) (auto simp: buckets_def)
  moreover have "buckets (F(c := b # F c)) U = insert b (buckets F U)"
    unfolding buckets_upd buckets_split [of F U c] by auto
  ultimately show "heap_lists ?t (F(c := b # F c)) U"
    unfolding heap_lists_def hdr_frame_hdrs [OF fr] using D h g by auto
qed

end
