(* ===== verification/Heap_Spec.thy ===== *)
theory Heap_Spec
  imports Bucket_Heap
begin

text \<open>
  The heap invariant of the bucket allocator and the correctness of \<^verbatim>\<open>malloc\<close>, \<^verbatim>\<open>free\<close> and \<^verbatim>\<open>realloc\<close>:
  every bucket owns an extent (its header, its data and, for a request served by whole pages, the
  pages), extents are pairwise disjoint and lie in pages the page allocator counts as in use.
\<close>

subsection \<open>Extents\<close>

definition bsize :: "kstate \<Rightarrow> u64 \<Rightarrow> nat" where
  "bsize s b = unat (bget Size b s)"

definition bpages :: "nat \<Rightarrow> nat" where
  "bpages n = (n + 4127) div 4096"

definition extent :: "nat \<Rightarrow> nat" where
  "extent n = (if n \<le> 65536 then 32 + n else 4096 * bpages n)"

definition block_ok :: "kstate \<Rightarrow> u64 \<Rightarrow> bool" where
  "block_ok s b \<longleftrightarrow> b \<noteq> 0 \<and> span s b (extent (bsize s b)) \<and>
     (\<forall>x. in_rng (kaddr s b) (extent (bsize s b)) x \<longrightarrow> pool_held s x) \<and>
     (bsize s b = 0 \<or> (\<exists>c. bsize s b = csize c) \<or>
      65536 < bsize s b \<and> (\<exists>i. b = phys2safe s (page_addr s i) \<and> i + bpages (bsize s b) \<le> npages s))"

definition blocks_ok :: "kstate \<Rightarrow> u64 set \<Rightarrow> bool" where
  "blocks_ok s H \<longleftrightarrow> (\<forall>b\<in>H. block_ok s b) \<and>
     (\<forall>b\<in>H. \<forall>b'\<in>H. b \<noteq> b' \<longrightarrow>
        sep (kaddr s b) (extent (bsize s b)) (kaddr s b') (extent (bsize s b')))"

definition heap_core :: "kstate \<Rightarrow> (bclass \<Rightarrow> u64 list) \<Rightarrow> u64 list \<Rightarrow> bool" where
  "heap_core s F U \<longleftrightarrow> pool_inv s \<and> heap_lists s F U \<and> blocks_ok s (buckets F U) \<and>
     (\<forall>c. \<forall>b\<in>set (F c). bsize s b = csize c \<or> bsize s b = 0)"

definition heap_inv :: "kstate \<Rightarrow> (bclass \<Rightarrow> u64 list) \<Rightarrow> u64 list \<Rightarrow> bool" where
  "heap_inv s F U \<longleftrightarrow> heap_core s F U \<and> \<not> mutating (GLOBAL_ALLOC s)"

lemma extent_ge: "32 \<le> extent n" "32 + n \<le> extent n"
proof -
  have "n + 4127 < 4096 * ((n + 4127) div 4096) + 4096" using dividend_less_div_times [of 4096 "n + 4127"] by simp
  then show "32 + n \<le> extent n" by (simp add: extent_def bpages_def)
  then show "32 \<le> extent n" by simp
qed

lemma blocks_ok_hdrs: "blocks_ok s H \<Longrightarrow> hdrs s H"
  unfolding blocks_ok_def block_ok_def hdrs_def by (meson extent_ge(1) sep_mono span_mono)

lemma blocks_ok_mono: "blocks_ok s K \<Longrightarrow> H \<subseteq> K \<Longrightarrow> blocks_ok s H"
  unfolding blocks_ok_def by blast

subsection \<open>What the list operations preserve\<close>

lemma pool_held_not_rc:
  assumes "pool_inv s" "pool_held s x" "j < npages s"
  shows "\<not> in_rng (rc_ptr s j) 2 x"
  using assms pool_above_table [of s "npages s" _ x j 1] by (auto simp: pool_inv_def pool_held_def)

text \<open>\<open>pool_keep s t\<close>: \<open>t\<close> has the registers, the page table layout and the counts of \<open>s\<close>.\<close>

definition pool_keep :: "kstate \<Rightarrow> kstate \<Rightarrow> bool" where
  "pool_keep s t \<longleftrightarrow> t = s\<lparr>mem := mem t, GLOBAL_ALLOC := GLOBAL_ALLOC t\<rparr> \<and> (\<forall>j<npages s. rc t j = rc s j)"

lemma pool_keepD:
  assumes "pool_keep s t"
  shows "kaddr t = kaddr s" "span t = span s" "npages t = npages s" "page_addr t = page_addr s"
    "phys2safe t = phys2safe s" "pool_inv t = pool_inv s" "pool_held t = pool_held s"
    "mmu_enabled t = mmu_enabled s" "rc_ptr t = rc_ptr s"
proof -
  obtain m g where t: "t = s\<lparr>mem := m, GLOBAL_ALLOC := g\<rparr>" using assms by (metis pool_keep_def)
  show k: "kaddr t = kaddr s" "span t = span s" "npages t = npages s" "page_addr t = page_addr s"
    "phys2safe t = phys2safe s" "pool_inv t = pool_inv s" "mmu_enabled t = mmu_enabled s" "rc_ptr t = rc_ptr s"
    unfolding t by (simp_all add: npages_def pool_inv_def)
  show "pool_held t = pool_held s"
    using assms k by (auto simp: pool_held_def pool_keep_def fun_eq_iff)
qed

lemma ld16_cong: "kaddr t = kaddr s \<Longrightarrow> (\<And>x. in_rng (kaddr s a) 2 x \<Longrightarrow> mem t x = mem s x) \<Longrightarrow> ld16 t a = ld16 s a"
  by (auto simp: ld16_def intro!: read_le_cong)

lemma ld64_cong: "kaddr t = kaddr s \<Longrightarrow> (\<And>x. in_rng (kaddr s a) 8 x \<Longrightarrow> mem t x = mem s x) \<Longrightarrow> ld64 t a = ld64 s a"
  by (auto simp: ld64_def intro!: read_le_cong)

lemma rc_cong:
  assumes lay: "page_layout s (npages s)" and t: "t = s\<lparr>mem := mem t, GLOBAL_ALLOC := GLOBAL_ALLOC t\<rparr>"
    and j: "j < npages s" and m: "\<And>x. in_rng (rc_ptr s j) 2 x \<Longrightarrow> mem t x = mem s x"
  shows "rc t j = rc s j"
proof -
  have k: "kaddr t = kaddr s" "rc_ptr t = rc_ptr s" by (subst t; simp)+
  have "kaddr s (rc_ptr s j) = rc_ptr s j" using lay j by (intro kaddr_rc_ptr) auto
  then show ?thesis unfolding rc_def k by (intro ld16_cong) (simp_all add: k m)
qed

lemma hdr_frame_pool:
  assumes "pool_inv s" "blocks_ok s H" "hdr_frame H s t"
  shows "pool_keep s t"
  unfolding pool_keep_def
proof (intro conjI allI impI)
  show eq: "t = s\<lparr>mem := mem t, GLOBAL_ALLOC := GLOBAL_ALLOC t\<rparr>" using assms(3) by (simp add: hdr_frame_def)
  fix j assume j: "j < npages s"
  show "rc t j = rc s j"
  proof (rule rc_cong [OF _ eq j])
    fix x assume x: "in_rng (rc_ptr s j) 2 x"
    have "\<not> in_rng (kaddr s b) 32 x" if b: "b \<in> H" for b
    proof
      assume "in_rng (kaddr s b) 32 x"
      then have "in_rng (kaddr s b) (extent (bsize s b)) x" using extent_ge(1) by (rule in_rng_mono)
      then have "pool_held s x" using assms(2) b by (simp add: blocks_ok_def block_ok_def)
      then show False using pool_held_not_rc [OF assms(1) _ j] x by blast
    qed
    then show "mem t x = mem s x" using assms(3) by (auto simp: hdr_frame_def)
  qed (use assms(1) in \<open>simp add: pool_inv_def\<close>)
qed

lemma block_ok_keep:
  assumes "pool_keep s t" "bget Size b t = bget Size b s" "block_ok s b"
  shows "block_ok t b"
  using assms(2,3) by (simp add: block_ok_def bsize_def pool_keepD [OF assms(1)])

lemma blocks_ok_keep:
  assumes "pool_keep s t" "\<And>b. b \<in> H \<Longrightarrow> bget Size b t = bget Size b s" "blocks_ok s H"
  shows "blocks_ok t H"
  using assms block_ok_keep [OF assms(1)]
  unfolding blocks_ok_def by (simp add: bsize_def pool_keepD [OF assms(1)])

subsection \<open>The lock\<close>

abbreviation locked :: "kstate \<Rightarrow> kstate" where
  "locked s \<equiv> ga_update (mutating_update (\<lambda>_. True)) s"

lemma ga_lock_free [simp]: "\<not> mutating (GLOBAL_ALLOC s) \<Longrightarrow> ga_lock s = Some (locked s)"
  by (simp add: ga_lock_def)

lemma ga_frame_more [simp]:
  "npages (ga_update g s) = npages s" "page_addr (ga_update g s) = page_addr s"
  "phys2safe (ga_update g s) = phys2safe s" "bsize (ga_update g s) = bsize s"
  "block_ok (ga_update g s) = block_ok s" "blocks_ok (ga_update g s) = blocks_ok s"
proof -
  show a: "npages (ga_update g s) = npages s" "page_addr (ga_update g s) = page_addr s"
    "phys2safe (ga_update g s) = phys2safe s" "bsize (ga_update g s) = bsize s"
    by (simp_all add: bsize_def fun_eq_iff) (simp_all add: ga_update_def npages_def)
  show b: "block_ok (ga_update g s) = block_ok s" by (simp add: block_ok_def fun_eq_iff a)
  show "blocks_ok (ga_update g s) = blocks_ok s" by (simp add: blocks_ok_def fun_eq_iff a b)
qed

lemma heap_core_lock [simp]:
  "heap_core (ga_update (mutating_update (\<lambda>_. l)) s) F U = heap_core s F U"
  by (simp add: heap_core_def heap_lists_def)

lemma heap_core_unlock [simp]: "heap_inv (ga_unlock s) F U = heap_core s F U"
  by (simp add: heap_inv_def ga_unlock_def)

lemma hdr_frame_size: "hdr_frame H s t \<Longrightarrow> b \<in> H \<Longrightarrow> bget Size b t = bget Size b s"
  by (simp add: hdr_frame_def)

lemma hdr_frame_locked:
  "hdr_frame H (locked s) t \<Longrightarrow> \<not> mutating (GLOBAL_ALLOC s) \<Longrightarrow> hdr_frame H s (ga_unlock t)"
proof -
  assume fr: "hdr_frame H (locked s) t" and m: "\<not> mutating (GLOBAL_ALLOC s)"
  have "t = (locked s)\<lparr>mem := mem t, GLOBAL_ALLOC := GLOBAL_ALLOC t\<rparr>" using fr by (simp add: hdr_frame_def)
  then have "ga_unlock t = s\<lparr>mem := mem t, GLOBAL_ALLOC := GLOBAL_ALLOC (ga_unlock t)\<rparr>"
    by (cases s, cases t) (simp add: ga_unlock_def ga_update_def)
  moreover have "mem (ga_unlock t) = mem t" by (simp add: ga_unlock_def)
  ultimately show ?thesis
    unfolding hdr_frame_def
  proof (intro conjI)
    show "\<forall>b\<in>H. bget Size b (ga_unlock t) = bget Size b s"
      using hdr_frame_size [OF fr] by (simp add: ga_unlock_def)
  qed (use fr m in \<open>simp_all add: hdr_frame_def ga_unlock_def\<close>)
qed

subsection \<open>Taking a bucket into use\<close>

lemma use_bucket:
  assumes core: "heap_core s F U" and nb: "b \<notin> buckets F U" and ok: "blocks_ok s (insert b (buckets F U))"
  shows "heap_core (push_used b org s) F (b # U)"
    and "hdr_frame (insert b (buckets F U)) s (push_used b org s)"
    and "bget Origin b (push_used b org s) = org"
proof -
  let ?t = "push_used b org s" and ?H = "insert b (buckets F U)"
  have hl: "heap_lists s F U" and inv: "pool_inv s" using core by (simp_all add: heap_core_def)
  note P = push_used_lists [OF hl blocks_ok_hdrs [OF ok] nb, of org]
  show fr: "hdr_frame ?H s ?t" and "bget Origin b ?t = org" by (rule P)+
  have keep: "pool_keep s ?t" by (rule hdr_frame_pool [OF inv ok fr])
  have sz: "h \<in> ?H \<Longrightarrow> bget Size h ?t = bget Size h s" for h using fr by (rule hdr_frame_size)
  have "blocks_ok ?t ?H" using keep sz ok by (rule blocks_ok_keep)
  moreover have "buckets F (b # U) = ?H" by (auto simp: buckets_def)
  moreover have "bsize ?t h = csize c \<or> bsize ?t h = 0" if "h \<in> set (F c)" for c h
    using core sz [of h] buckets_F [of h F c U] that by (auto simp: heap_core_def bsize_def)
  ultimately show "heap_core ?t F (b # U)"
    using P(1) inv pool_keepD(6) [OF keep] by (simp add: heap_core_def)
qed

lemma take_popped:
  assumes core: "heap_core s F U" and c: "class_of sz = Some c" and F: "F c = b # bs"
  shows "take_bucket s sz = Some (b, ga_update (set_free c (bget Next b s)) s)"
    and "heap_core (ga_update (set_free c (bget Next b s)) s) (F(c := bs)) U"
    and "b \<notin> buckets (F(c := bs)) U" "insert b (buckets (F(c := bs)) U) = buckets F U" "b \<noteq> 0"
proof -
  have hl: "heap_lists s F U" using core by (simp add: heap_core_def)
  note P = pop_free [OF hl F]
  show "b \<notin> buckets (F(c := bs)) U" "insert b (buckets (F(c := bs)) U) = buckets F U" by (rule P)+
  have "b \<in> buckets F U" using P(4) by blast
  then show nz: "b \<noteq> 0" using heap_listsD(6) [OF hl] by metis
  show "take_bucket s sz = Some (b, ga_update (set_free c (bget Next b s)) s)"
    using P(1) nz by (simp add: take_bucket_def c refill_def)
  have "buckets (F(c := bs)) U \<subseteq> buckets F U" using P(4) by blast
  then have "blocks_ok s (buckets (F(c := bs)) U)"
    using core blocks_ok_mono unfolding heap_core_def by blast
  then show "heap_core (ga_update (set_free c (bget Next b s)) s) (F(c := bs)) U"
    using core P(2) F by (auto simp: heap_core_def)
qed

lemma malloc_popped:
  assumes inv: "heap_inv s F U" and sz: "0 < sz" and c: "class_of sz = Some c" and F: "F c = b # bs"
  shows "\<exists>t. malloc s ra sz = Some (b + 32, t) \<and> heap_inv t (F(c := bs)) (b # U) \<and>
    hdr_frame (buckets F U) s t \<and> bget Origin b t = ra"
proof -
  have core: "heap_core (locked s) F U" and m: "\<not> mutating (GLOBAL_ALLOC s)"
    using inv by (simp_all add: heap_inv_def)
  let ?s = "ga_update (set_free c (bget Next b (locked s))) (locked s)"
  note T = take_popped [OF core c F]
  have ok: "blocks_ok ?s (insert b (buckets (F(c := bs)) U))"
    unfolding T(4) using core by (simp add: heap_core_def)
  note P = use_bucket [OF T(2,3) ok, of ra]
  let ?t = "ga_unlock (push_used b ra ?s)"
  have "malloc s ra sz = Some (b + 32, ?t)"
    using m sz T(1,5) by (simp add: malloc_def free_buckets_alloc_def sizeof_bucket_def word_gt_0)
  moreover have "hdr_frame (buckets F U) (locked s) (push_used b ra ?s)"
    using hdr_frame_trans [OF hdr_frame_ga P(2)]
    unfolding T(4) by simp
  then have "hdr_frame (buckets F U) s ?t" using m by (rule hdr_frame_locked)
  ultimately show ?thesis using P(1,3) by (auto simp: ga_unlock_def heap_inv_def)
qed

subsection \<open>Release\<close>

lemma unlinked:
  assumes core: "heap_core s F (xs @ b # ys)"
  shows "heap_core (unlink_used b s) F (xs @ ys)"
    and "hdr_frame (buckets F (xs @ b # ys)) s (unlink_used b s)"
    and "blocks_ok (unlink_used b s) (insert b (buckets F (xs @ ys)))"
    and "b \<notin> buckets F (xs @ ys)" "insert b (buckets F (xs @ ys)) = buckets F (xs @ b # ys)"
    and "pool_keep s (unlink_used b s)"
proof -
  let ?t = "unlink_used b s" and ?H = "buckets F (xs @ b # ys)"
  have hl: "heap_lists s F (xs @ b # ys)" and inv: "pool_inv s" and ok: "blocks_ok s ?H"
    using core by (simp_all add: heap_core_def)
  note P = unlink_used_lists [OF hl]
  show fr: "hdr_frame ?H s ?t" and "b \<notin> buckets F (xs @ ys)"
    and eq: "insert b (buckets F (xs @ ys)) = ?H" by (rule P)+
  show keep: "pool_keep s ?t" by (rule hdr_frame_pool [OF inv ok fr])
  have sz: "h \<in> ?H \<Longrightarrow> bget Size h ?t = bget Size h s" for h using fr by (rule hdr_frame_size)
  have okt: "blocks_ok ?t ?H" using keep sz ok by (rule blocks_ok_keep)
  then show "blocks_ok ?t (insert b (buckets F (xs @ ys)))" by (simp add: eq)
  have "blocks_ok ?t (buckets F (xs @ ys))" using okt eq blocks_ok_mono by blast
  moreover have "bsize ?t h = csize c \<or> bsize ?t h = 0" if "h \<in> set (F c)" for c h
    using core sz [of h] buckets_F [of h F c "xs @ b # ys"] that by (auto simp: heap_core_def bsize_def)
  ultimately show "heap_core ?t F (xs @ ys)"
    using P(1) inv pool_keepD(6) [OF keep] by (simp add: heap_core_def)
qed

lemma class_of_block:
  assumes "block_ok s b" "bsize s b \<le> 65536"
  obtains c where "class_of (bget Size b s) = Some c" "bsize s b = csize c \<or> bsize s b = 0"
proof (cases "bsize s b = 0")
  case True
  then have "bget Size b s = 0" by (simp add: bsize_def unat_eq_zero)
  then show ?thesis using that [of C16] True by simp
next
  case False
  then obtain c where c: "bsize s b = csize c" using assms by (auto simp: block_ok_def)
  then have "bget Size b s = of_nat (csize c)" by (metis bsize_def of_nat_unat64)
  then show ?thesis using that [of c] c by simp
qed

lemma free_listed:
  assumes core: "heap_core s F U" and nb: "b \<notin> buckets F U" and ok: "blocks_ok s (insert b (buckets F U))"
    and sz: "bsize s b = csize c \<or> bsize s b = 0"
  shows "heap_core (push_free c b s) (F(c := b # F c)) U"
    and "hdr_frame (insert b (buckets F U)) s (push_free c b s)"
proof -
  let ?t = "push_free c b s" and ?H = "insert b (buckets F U)"
  have hl: "heap_lists s F U" and inv: "pool_inv s" using core by (simp_all add: heap_core_def)
  note P = push_free_lists [OF hl blocks_ok_hdrs [OF ok] nb, of c]
  show fr: "hdr_frame ?H s ?t" by (rule P)
  have keep: "pool_keep s ?t" by (rule hdr_frame_pool [OF inv ok fr])
  have szt: "h \<in> ?H \<Longrightarrow> bget Size h ?t = bget Size h s" for h using fr by (rule hdr_frame_size)
  have "blocks_ok ?t ?H" using keep szt ok by (rule blocks_ok_keep)
  moreover have "buckets (F(c := b # F c)) U = ?H"
    unfolding buckets_upd buckets_split [of F U c] by auto
  moreover have "bsize ?t h = csize d \<or> bsize ?t h = 0" if "h \<in> set ((F(c := b # F c)) d)" for d h
  proof -
    have "h \<in> ?H" using that buckets_F [of h F d U] buckets_F [of h F c U] by (auto split: if_splits)
    then have "bsize ?t h = bsize s h" using szt by (simp add: bsize_def)
    moreover have "h \<in> set (F d) \<Longrightarrow> bsize s h = csize d \<or> bsize s h = 0"
      using core by (simp add: heap_core_def)
    ultimately show ?thesis using sz that by (cases "d = c") auto
  qed
  ultimately show "heap_core ?t (F(c := b # F c)) U"
    using P(1) inv pool_keepD(6) [OF keep] by (simp add: heap_core_def)
qed

lemma kfree_small:
  assumes inv: "heap_inv s F (xs @ b # ys)" and small: "bsize s b \<le> 65536"
  shows "\<exists>c t. kfree s (b + 32) = Some t \<and> (bsize s b = csize c \<or> bsize s b = 0) \<and>
    class_of (bget Size b s) = Some c \<and> heap_inv t (F(c := b # F c)) (xs @ ys) \<and>
    hdr_frame (buckets F (xs @ b # ys)) s t"
proof -
  have core: "heap_core (locked s) F (xs @ b # ys)" and m: "\<not> mutating (GLOBAL_ALLOC s)"
    using inv by (simp_all add: heap_inv_def)
  let ?u = "unlink_used b (locked s)"
  note P = unlinked [OF core]
  have bH: "b \<in> buckets F (xs @ b # ys)" using P(5) by blast
  have blk: "block_ok s b" using core bH by (simp add: heap_core_def blocks_ok_def)
  then obtain c where c: "class_of (bget Size b s) = Some c" "bsize s b = csize c \<or> bsize s b = 0"
    using small by (rule class_of_block)
  have sz: "bget Size b ?u = bget Size b s" using hdr_frame_size [OF P(2) bH] by simp
  then have "bsize ?u b = csize c \<or> bsize ?u b = 0" using c(2) by (simp add: bsize_def)
  note Q = free_listed [OF P(1,4,3) this]
  have "span s b (extent (bsize s b))" using blk by (simp add: block_ok_def)
  then have "span s b 32" using extent_ge(1) by (rule span_mono)
  then have "unat b + 32 < 2 ^ 64" by (simp add: span_def)
  from unat_add_nowrap [OF this] have nz: "b + 32 \<noteq> 0" by (metis add_is_0 of_nat_numeral unat_0 zero_neq_numeral)
  have "kfree s (b + 32) = Some (ga_unlock (push_free c b ?u))"
    using m nz c(1) sz by (simp add: kfree_def sizeof_bucket_def)
  moreover have "hdr_frame (buckets F (xs @ b # ys)) (locked s) (push_free c b ?u)"
    using hdr_frame_trans [OF P(2)] Q(2) unfolding P(5) by blast
  then have "hdr_frame (buckets F (xs @ b # ys)) s (ga_unlock (push_free c b ?u))"
    using m by (rule hdr_frame_locked)
  ultimately show ?thesis using Q(1) c by auto
qed

text \<open>Pages that are given back take no byte of another block with them.\<close>

lemma counts_updated_held:
  assumes lay: "page_layout s (npages s)" and i: "i + n \<le> npages s"
    and cu: "counts_updated s (npages s) i n f t"
    and x: "pool_held s x" "\<not> in_rng (page_addr s i) (4096 * n) x"
  shows "pool_held t x"
proof -
  obtain j where j: "j < npages s" "rc s j \<noteq> 0" "in_rng (page_addr s j) 4096 x"
    using x(1) by (auto simp: pool_held_def)
  have same: "npages t = npages s" "page_addr t = page_addr s"
    using cu same_regs_layout [of s t] by (auto simp: counts_updated_def)
  have "\<not> (i \<le> j \<and> j < i + n)" using page_index [OF lay i, of x] x(2) j(3) by blast
  then have "rc t j = rc s j" using cu j(1) by (auto simp: counts_updated_def)
  then show ?thesis using j same by (auto simp: pool_held_def)
qed

lemma bget_cong:
  assumes "kaddr t = kaddr s" "span s b 32" "\<And>x. in_rng (kaddr s b) 32 x \<Longrightarrow> mem t x = mem s x"
  shows "bget f b t = bget f b s"
  unfolding bget_def using assms field_sub [of "kaddr s b" f]
  by (intro ld64_cong) (auto simp: field_addr)

text \<open>The invariant carries over to a state with the same globals of the allocator, the same bytes in
  every bucket's header and every bucket's bytes still in use.\<close>

lemma heap_core_transfer:
  assumes core: "heap_core s F U" and inv: "pool_inv t" and g: "GLOBAL_ALLOC t = GLOBAL_ALLOC s"
    and same: "kaddr t = kaddr s" "npages t = npages s" "page_addr t = page_addr s" "phys2safe t = phys2safe s"
    and hd: "\<And>b x. b \<in> buckets F U \<Longrightarrow> in_rng (kaddr s b) 32 x \<Longrightarrow> mem t x = mem s x"
    and held: "\<And>b x. b \<in> buckets F U \<Longrightarrow> in_rng (kaddr s b) (extent (bsize s b)) x \<Longrightarrow> pool_held t x"
  shows "heap_core t F U"
proof -
  let ?H = "buckets F U"
  have ok: "blocks_ok s ?H" and hl: "heap_lists s F U"
    and fs: "\<And>c b. b \<in> set (F c) \<Longrightarrow> bsize s b = csize c \<or> bsize s b = 0"
    using core by (auto simp: heap_core_def)
  have sp: "span t = span s" by (simp add: span_def fun_eq_iff same)
  have fld: "b \<in> ?H \<Longrightarrow> bget f b t = bget f b s" for b f
    using hd hdrsD(2) [OF blocks_ok_hdrs [OF ok]] by (intro bget_cong [OF same(1)]) auto
  then have bs: "b \<in> ?H \<Longrightarrow> bsize t b = bsize s b" for b by (simp add: bsize_def)
  have "blocks_ok t ?H"
    using ok held unfolding blocks_ok_def block_ok_def by (simp add: bs sp same)
  moreover have "bsize t b = csize c \<or> bsize t b = 0" if "b \<in> set (F c)" for c b
    using fs [OF that] bs [of b] buckets_F [of b F c U] that by simp
  moreover have "heap_lists t F U"
    using hl fld chain_cong [of _ "nexts t" "nexts s"] prevs_cong [of U "backs t" "backs s" 0]
    unfolding heap_lists_def hdrs_def by (simp add: sp same g buckets_U buckets_F)
  ultimately show ?thesis using inv by (simp add: heap_core_def)
qed

lemma pool_held_above:
  assumes "pool_inv s" "pool_held s x" "k + m \<le> npages s"
  shows "\<not> in_rng (rc_ptr s k) (2 * m) x"
  using assms pool_above_table [of s "npages s" _ x k m] by (auto simp: pool_inv_def pool_held_def)

lemma page_round:
  assumes "4096 * bpages n < 2 ^ 64" "n = unat w"
  shows "(w + sizeof_bucket + PAGE_SIZE - 1) div PAGE_SIZE = of_nat (bpages n)"
proof -
  have "n + 4127 < 4096 * bpages n + 4096" using dividend_less_div_times [of 4096 "n + 4127"] by (simp add: bpages_def)
  moreover have "4096 * bpages n \<le> 2 ^ 64 - 4096" using assms(1) by (simp add: bpages_def)
  ultimately have "n + 4127 < 2 ^ 64" by simp
  then have "unat (w + of_nat 4127) = n + 4127" unfolding assms(2) by (rule unat_add_nowrap)
  then have "unat (w + 4127) = n + 4127" by simp
  moreover have "w + sizeof_bucket + PAGE_SIZE - 1 = w + 4127" by (simp add: sizeof_bucket_def PAGE_SIZE_def)
  ultimately have "unat ((w + sizeof_bucket + PAGE_SIZE - 1) div PAGE_SIZE) = bpages n"
    by (simp only: unat_div PAGE_SIZE_def unsigned_numeral bpages_def) simp
  then show ?thesis by (metis of_nat_unat64)
qed

lemma block_index:
  assumes "pool_inv s" "i + n \<le> npages s"
  shows "kaddr s (phys2safe s (page_addr s i)) = page_addr s i" "4096 * n < 2 ^ 64"
    "unat (page_addr s i) + 4096 * n < window_size"
proof -
  have lay: "page_layout s (npages s)" using assms(1) by (simp add: pool_inv_def)
  show w: "unat (page_addr s i) + 4096 * n < window_size"
    using page_layoutD(2) [OF lay] unat_page_addr [OF lay, of i] assms(2) by simp
  show "kaddr s (phys2safe s (page_addr s i)) = page_addr s i" using w by (intro kaddr_phys2safe) simp
  show "4096 * n < 2 ^ 64" using w by (simp add: window_size_def)
qed

lemma same_regs_GA: "same_regs s t \<Longrightarrow> GLOBAL_ALLOC t = GLOBAL_ALLOC s"
  by (cases s, cases t) (simp add: same_regs_def)

lemma csize_big: "65536 < n \<Longrightarrow> n \<noteq> csize c"
  using csize_bounds(2) [of c] by simp

lemma dealloc_block:
  assumes core: "heap_core s F U" and ok: "blocks_ok s (insert b (buckets F U))" and nb: "b \<notin> buckets F U"
    and big: "65536 < bsize s b"
  shows "\<exists>t. dealloc_pages s b ((bget Size b s + sizeof_bucket + PAGE_SIZE - 1) div PAGE_SIZE) = Some t \<and>
    heap_core t F U \<and> same_regs s t \<and> (\<forall>x. pool_held s x \<longrightarrow> mem t x = mem s x)"
proof -
  let ?n = "bpages (bsize s b)"
  have inv: "pool_inv s" and lay: "page_layout s (npages s)" and un: "\<not> mutating_heap s"
    using core by (auto simp: heap_core_def pool_inv_def)
  have "block_ok s b" using ok by (simp add: blocks_ok_def)
  then obtain i where i: "b = phys2safe s (page_addr s i)" "i + ?n \<le> npages s"
    using big csize_big by (auto simp: block_ok_def)
  note B = block_index [OF inv i(2)]
  have pc: "(bget Size b s + sizeof_bucket + PAGE_SIZE - 1) div PAGE_SIZE = of_nat ?n"
    using B(2) by (intro page_round) (simp_all add: bsize_def)
  show ?thesis
  proof (cases "i = 0")
    case True
    then show ?thesis using dealloc_pages_first [OF lay un, of b] core i(1) by auto
  next
    case False
    let ?t = "heap_unlock (upd_loop decr1 ?n (rc_ptr s i) (s\<lparr>mutating_heap := True\<rparr>))"
    have cu: "counts_updated s (npages s) i ?n decr1 ?t" by (rule upd_loop_counts [OF lay un i(2)])
    then have regs: "same_regs s ?t" by (simp add: counts_updated_def)
    have keep: "pool_held s x \<Longrightarrow> mem ?t x = mem s x" for x
      using cu pool_held_above [OF inv _ i(2)] by (auto simp: counts_updated_def)
    have blk: "h \<in> buckets F U \<Longrightarrow> in_rng (kaddr s h) (extent (bsize s h)) x \<Longrightarrow>
        pool_held s x \<and> \<not> in_rng (page_addr s i) (4096 * ?n) x" for h x
    proof -
      assume h: "h \<in> buckets F U" and x: "in_rng (kaddr s h) (extent (bsize s h)) x"
      have "sep (kaddr s h) (extent (bsize s h)) (kaddr s b) (extent (bsize s b))"
        using ok h nb by (auto simp: blocks_ok_def)
      then have "\<not> in_rng (page_addr s i) (4096 * ?n) x"
        using x B(1) i(1) big by (auto simp: extent_def dest: sep_not_in)
      then show ?thesis using ok h x by (simp add: blocks_ok_def block_ok_def)
    qed
    have GA: "GLOBAL_ALLOC ?t = GLOBAL_ALLOC s" using regs by (rule same_regs_GA)
    have "heap_core ?t F U"
    proof (rule heap_core_transfer [OF core])
      show "pool_inv ?t" using inv same_regs_layout [OF regs] by (simp add: pool_inv_def)
      fix h x assume h: "h \<in> buckets F U"
      show "mem ?t x = mem s x" if "in_rng (kaddr s h) 32 x"
        using keep blk [OF h in_rng_mono [OF that extent_ge(1)]] by blast
      show "pool_held ?t x" if "in_rng (kaddr s h) (extent (bsize s h)) x"
        using counts_updated_held [OF lay i(2) cu] blk [OF h that] by blast
    qed (simp_all add: same_regs_layout [OF regs] GA)
    moreover have "dealloc_pages s b (of_nat ?n) = Some ?t"
      using False i by (intro dealloc_pages_eq [OF lay un]) auto
    ultimately show ?thesis using pc regs keep by auto
  qed
qed

text \<open>What \<^verbatim>\<open>malloc\<close>, \<^verbatim>\<open>free\<close> and \<^verbatim>\<open>realloc\<close> keep: every byte of a page in use that is not in a header of
  the allocator, and the size fields of the buckets in \<open>H\<close>.\<close>

definition data_frame :: "u64 set \<Rightarrow> kstate \<Rightarrow> kstate \<Rightarrow> bool" where
  "data_frame H s t \<longleftrightarrow> kaddr t = kaddr s \<and> npages t = npages s \<and>
     (\<forall>x. pool_held s x \<and> (\<forall>b\<in>H. \<not> in_rng (kaddr s b) 32 x) \<longrightarrow> mem t x = mem s x) \<and>
     (\<forall>b\<in>H. bget Size b t = bget Size b s)"

lemma hdr_frame_data:
  assumes "hdr_frame H s t"
  shows "data_frame H s t"
proof -
  obtain m g where "t = s\<lparr>mem := m, GLOBAL_ALLOC := g\<rparr>" using assms by (metis hdr_frame_def)
  then have "npages t = npages s" by (simp add: npages_def)
  then show ?thesis using assms hdr_frame_kaddr [OF assms] by (auto simp: data_frame_def hdr_frame_def)
qed

lemma block_nonzero: "span s b 32 \<Longrightarrow> b + 32 \<noteq> 0"
proof -
  assume "span s b 32"
  then have "unat b + 32 < 2 ^ 64" by (simp add: span_def)
  from unat_add_nowrap [OF this] show ?thesis by (metis add_is_0 of_nat_numeral unat_0 zero_neq_numeral)
qed

lemma kfree_large:
  assumes inv: "heap_inv s F (xs @ b # ys)" and big: "65536 < bsize s b"
  shows "\<exists>t. kfree s (b + 32) = Some t \<and> heap_inv t F (xs @ ys) \<and>
    data_frame (buckets F (xs @ b # ys)) s t"
proof -
  let ?H = "buckets F (xs @ b # ys)"
  have core: "heap_core (locked s) F (xs @ b # ys)" and m: "\<not> mutating (GLOBAL_ALLOC s)"
    using inv by (simp_all add: heap_inv_def)
  let ?u = "unlink_used b (locked s)"
  note P = unlinked [OF core]
  have bH: "b \<in> buckets F (xs @ b # ys)" using P(5) by blast
  have sz: "bget Size b ?u = bget Size b s" using hdr_frame_size [OF P(2) bH] by simp
  have "65536 < bsize ?u b" using big sz by (simp add: bsize_def)
  from dealloc_block [OF P(1,3,4) this] obtain t where
    t: "dealloc_pages ?u b ((bget Size b ?u + sizeof_bucket + PAGE_SIZE - 1) div PAGE_SIZE) = Some t"
    "heap_core t F (xs @ ys)" "same_regs ?u t" "\<And>x. pool_held ?u x \<Longrightarrow> mem t x = mem ?u x" by blast
  have cn: "class_of (bget Size b ?u) = None" using big by (simp add: sz class_of_None bsize_def)
  have "block_ok (locked s) b" using core bH by (simp add: heap_core_def blocks_ok_def)
  then have sp: "span s b 32" using extent_ge(1) by (auto simp: block_ok_def intro: span_mono)
  have "kfree s (b + 32) = Some (ga_unlock t)"
    using m block_nonzero [OF sp] cn t(1) by (simp add: kfree_def sizeof_bucket_def)
  moreover have "data_frame ?H s (ga_unlock t)"
  proof -
    note K = pool_keepD [OF P(6)] and L = same_regs_layout [OF t(3)]
    have h: "\<And>h x. h \<in> ?H \<Longrightarrow> in_rng (kaddr s h) 32 x \<Longrightarrow> mem t x = mem ?u x"
    proof -
      fix h x assume "h \<in> ?H" "in_rng (kaddr s h) 32 x"
      then have "pool_held ?u x"
        using P(3) [unfolded P(5)] in_rng_mono [OF _ extent_ge(1)] K(1) by (auto simp: blocks_ok_def block_ok_def)
      then show "mem t x = mem ?u x" by (rule t(4))
    qed
    have "bget Size h t = bget Size h s" if hh: "h \<in> ?H" for h
    proof -
      have hs: "span ?u h 32" using hdrsD(2) [OF blocks_ok_hdrs [OF P(3)]] hh P(5) by blast
      have "bget Size h t = bget Size h ?u"
        using hs h [OF hh] K(1) L(6) by (intro bget_cong) auto
      also have "\<dots> = bget Size h s" using hdr_frame_size [OF P(2) hh] by simp
      finally show ?thesis .
    qed
    moreover have "mem t x = mem s x" if "pool_held s x" "\<forall>h\<in>?H. \<not> in_rng (kaddr s h) 32 x" for x
      using that t(4) [of x] K(7) P(2) by (simp add: hdr_frame_def)
    ultimately show ?thesis using K L by (simp add: data_frame_def ga_unlock_def)
  qed
  ultimately show ?thesis using t(2) by auto
qed

end
