(* ===== verification/Heap_Refill.thy ===== *)
theory Heap_Refill
  imports Heap_Spec
begin

text \<open>
  Refilling an empty size class: \<^verbatim>\<open>free_buckets_format_unused\<close> turns 65 fresh pages into a list of
  buckets, and the heap invariant holds with that list. The list ends in a bucket that the loop never
  formatted: its header fits into the pages, its data does not, and its size field is 0.
\<close>

subsection \<open>The formatting loop\<close>

text \<open>Bucket \<open>j\<close> of a region that starts at \<open>data\<close> with \<open>z\<close> bytes per bucket.\<close>

definition bucket_at :: "u64 \<Rightarrow> nat \<Rightarrow> nat \<Rightarrow> u64" where
  "bucket_at data z j = data + of_nat (j * z)"

definition fmt1 :: "u64 \<Rightarrow> nat \<Rightarrow> nat \<Rightarrow> kstate \<Rightarrow> kstate" where
  "fmt1 data z j s = (let b = bucket_at data z j in
     bput Origin b 0 (bput Size b (of_nat (z - 32)) (bput Next b (bucket_at data z (Suc j))
       (bput Prev b (if j > 0 then bucket_at data z (j - 1) else 0) s))))"

primrec fmt :: "u64 \<Rightarrow> nat \<Rightarrow> nat \<Rightarrow> nat \<Rightarrow> kstate \<Rightarrow> kstate" where
  "fmt data z 0 j s = s"
| "fmt data z (Suc k) j s = fmt data z k (Suc j) (fmt1 data z j s)"

lemma format_loop_fmt:
  assumes n: "n * z < T" "T \<le> n * z + z" and z: "32 \<le> z" and T: "T + z < 2 ^ 63"
  shows "j \<le> n \<Longrightarrow> format_loop data (of_nat (z - 32)) (of_nat z) (of_nat T) (of_nat (j * z)) s =
     Some (fmt data z (n - j) j s)"
proof (induction "n - j" arbitrary: j s)
  case 0
  then have j: "j = n" by simp
  have "unat (of_nat (j * z) + of_nat z :: u64) = j * z + z"
    using n T j unat_of_nat64 [of "j * z + z"] by simp
  moreover have "unat (of_nat T :: u64) = T" using T by (intro unat_of_nat64) simp
  ultimately have "\<not> of_nat (j * z) + of_nat z < (of_nat T :: u64)" using n j by (simp add: word_less_nat_alt)
  then show ?case using j by (subst format_loop.simps) simp
next
  case (Suc d)
  then have j: "j < n" by simp
  then have le: "Suc j * z \<le> n * z" by (simp add: mult_le_mono1 del: mult_Suc)
  then have jz: "j * z + z < T" using n by simp
  have "unat (of_nat (j * z) + of_nat z :: u64) = j * z + z"
    using jz T unat_of_nat64 [of "j * z + z"] by simp
  moreover have "unat (of_nat T :: u64) = T" using T by (intro unat_of_nat64) simp
  ultimately have lt: "of_nat (j * z) + of_nat z < (of_nat T :: u64)" using jz by (simp add: word_less_nat_alt)
  have "unat (of_nat (j * z) :: u64) = j * z" using jz T by (intro unat_of_nat64) simp
  then have pos: "(0 :: u64) < of_nat (j * z) \<longleftrightarrow> 0 < j" using z by (simp add: word_less_nat_alt)
  have prev: "data + of_nat (j * z) - of_nat z = bucket_at data z (j - 1)" if "0 < j"
    using that by (cases j) (simp_all add: bucket_at_def)
  have pv: "(if 0 < (of_nat (j * z) :: u64) then data + of_nat (j * z) - of_nat z else 0) =
      (if j > 0 then bucket_at data z (j - 1) else 0)"
    by (cases "0 < j") (simp_all only: pos prev if_True if_False)
  have nxt: "data + of_nat (j * z) + of_nat z = bucket_at data z (Suc j)" by (simp add: bucket_at_def)
  have idx: "of_nat (j * z) + of_nat z = (of_nat (Suc j * z) :: u64)" by simp
  have "format_loop data (of_nat (z - 32)) (of_nat z) (of_nat T) (of_nat (Suc j * z)) (fmt1 data z j s) =
      Some (fmt data z (n - Suc j) (Suc j) (fmt1 data z j s))"
    using Suc.hyps(1) [of "Suc j"] Suc.hyps(2) j by simp
  moreover have "n - j = Suc (n - Suc j)" using j by simp
  moreover have "fmt1 data z j s = bput Origin (data + of_nat (j * z)) 0 (bput Size (data + of_nat (j * z)) (of_nat (z - 32))
      (bput Next (data + of_nat (j * z)) (data + of_nat (j * z) + of_nat z)
        (bput Prev (data + of_nat (j * z)) (if 0 < (of_nat (j * z) :: u64) then data + of_nat (j * z) - of_nat z else 0) s)))"
    unfolding fmt1_def Let_def pv nxt by (simp only: bucket_at_def)
  ultimately show ?case
    using lt by (subst format_loop.simps) (simp only: Let_def if_True idx fmt.simps)
qed

subsection \<open>The headers it writes\<close>

definition fmt_field :: "u64 \<Rightarrow> nat \<Rightarrow> nat \<Rightarrow> s_free_bucket \<Rightarrow> u64" where
  "fmt_field data z i f = (case f of Next \<Rightarrow> bucket_at data z (Suc i)
     | Prev \<Rightarrow> if i > 0 then bucket_at data z (i - 1) else 0 | Size \<Rightarrow> of_nat (z - 32) | Origin \<Rightarrow> 0)"

lemma fmt1_field:
  assumes "hdrs s H" "\<And>i. i \<le> n \<Longrightarrow> bucket_at data z i \<in> H" "inj_on (bucket_at data z) {..n}" "i \<le> n" "j \<le> n"
  shows "bget f (bucket_at data z i) (fmt1 data z j s) =
    (if i = j then fmt_field data z i f else bget f (bucket_at data z i) s)"
proof -
  have eq: "bucket_at data z j = bucket_at data z i \<longleftrightarrow> j = i"
    using assms(3-5) by (auto dest: inj_onD)
  show ?thesis
    using assms(1,2,4,5) by (cases f) (auto simp: fmt1_def Let_def bget_bput [where H = H] eq fmt_field_def)
qed

lemma same_regs_bput: "same_regs s t \<Longrightarrow> same_regs s (bput f b v t)"
  by (rule same_regs_trans [OF _ bput_regs])

lemma fmt1_frame:
  "hdrs (fmt1 data z j s) = hdrs s" "same_regs s (fmt1 data z j s)" "kaddr (fmt1 data z j s) = kaddr s"
  "span s (bucket_at data z j) 32 \<Longrightarrow> \<not> in_rng (kaddr s (bucket_at data z j)) 32 x \<Longrightarrow> mem (fmt1 data z j s) x = mem s x"
  by (auto simp: fmt1_def Let_def bput_mem intro!: same_regs_bput)

lemma fmt_field_eq:
  assumes "hdrs s H" "\<And>i. i \<le> n \<Longrightarrow> bucket_at data z i \<in> H" "inj_on (bucket_at data z) {..n}" "i \<le> n" "j + k \<le> n"
  shows "bget f (bucket_at data z i) (fmt data z k j s) =
    (if j \<le> i \<and> i < j + k then fmt_field data z i f else bget f (bucket_at data z i) s)"
  using assms(1,5)
proof (induction k arbitrary: j s)
  case (Suc k)
  have "bget f (bucket_at data z i) (fmt data z k (Suc j) (fmt1 data z j s)) =
    (if Suc j \<le> i \<and> i < Suc j + k then fmt_field data z i f else bget f (bucket_at data z i) (fmt1 data z j s))"
    using Suc.prems by (intro Suc.IH) (auto simp: fmt1_frame)
  moreover have "bget f (bucket_at data z i) (fmt1 data z j s) =
      (if i = j then fmt_field data z i f else bget f (bucket_at data z i) s)"
    using assms(2-4) Suc.prems by (intro fmt1_field [where H = H and n = n]) auto
  ultimately show ?case by auto
qed auto

lemma fmt_frame:
  assumes "hdrs s H" "\<And>i. i \<le> n \<Longrightarrow> bucket_at data z i \<in> H" "j + k \<le> n"
    "\<And>i. i \<le> n \<Longrightarrow> \<not> in_rng (kaddr s (bucket_at data z i)) 32 x"
  shows "mem (fmt data z k j s) x = mem s x"
  using assms(1,3,4)
proof (induction k arbitrary: j s)
  case (Suc k)
  have "span s (bucket_at data z j) 32" using Suc.prems assms(2) hdrsD(2) by auto
  then have "mem (fmt1 data z j s) x = mem s x" using Suc.prems by (intro fmt1_frame(4)) auto
  moreover have "mem (fmt data z k (Suc j) (fmt1 data z j s)) x = mem (fmt1 data z j s) x"
    using Suc.prems by (intro Suc.IH) (auto simp: fmt1_frame)
  ultimately show ?case by simp
qed simp

lemma fmt_regs: "same_regs s (fmt data z k j s)"
  by (induction k arbitrary: j s) (auto intro: same_regs_trans [OF fmt1_frame(2)])

subsection \<open>A fresh region\<close>

definition stride :: "bclass \<Rightarrow> nat" where "stride c = 32 + csize c"

definition nbuckets :: "bclass \<Rightarrow> nat" where "nbuckets c = 266239 div stride c"

lemma nbuckets_bounds:
  "nbuckets c * stride c < 266240" "266240 \<le> nbuckets c * stride c + stride c"
  "nbuckets c * stride c + 32 \<le> 266240" "48 \<le> stride c" "stride c \<le> 65568" "0 < nbuckets c"
  by (cases c; simp add: nbuckets_def stride_def)+

lemma bucket_offset: "j \<le> nbuckets c \<Longrightarrow> j * stride c + 32 \<le> 266240"
  "j < nbuckets c \<Longrightarrow> j * stride c + stride c \<le> 266240"
proof -
  assume "j \<le> nbuckets c"
  then have "j * stride c \<le> nbuckets c * stride c" by (rule mult_le_mono1)
  then show "j * stride c + 32 \<le> 266240" using nbuckets_bounds(3) [of c] by linarith
next
  assume "j < nbuckets c"
  then have "Suc j * stride c \<le> nbuckets c * stride c" by (intro mult_le_mono1) simp
  then show "j * stride c + stride c \<le> 266240" using nbuckets_bounds(1) [of c] unfolding mult_Suc by linarith
qed

text \<open>The pages at physical address \<open>a\<close>, seen through the kernel's pointer to them.\<close>

definition region_ok :: "u64 \<Rightarrow> bool" where
  "region_ok a \<longleftrightarrow> unat a + 266240 < window_size \<and> a \<noteq> 0"

abbreviation B :: "kstate \<Rightarrow> u64 \<Rightarrow> bclass \<Rightarrow> nat \<Rightarrow> u64" where
  "B s a c \<equiv> bucket_at (phys2safe s a) (stride c)"

lemma kaddr_B: "region_ok a \<Longrightarrow> j \<le> nbuckets c \<Longrightarrow> kaddr s (B s a c j) = a + of_nat (j * stride c)"
  using bucket_offset(1) [of j c] unfolding bucket_at_def region_ok_def by (intro kaddr_phys2safe_add) simp

lemma unat_kaddr_B: "region_ok a \<Longrightarrow> j \<le> nbuckets c \<Longrightarrow> unat (kaddr s (B s a c j)) = unat a + j * stride c"
proof -
  assume a: "region_ok a" and j: "j \<le> nbuckets c"
  have "unat a + j * stride c < 2 ^ 64" using a bucket_offset(1) [OF j] by (simp add: region_ok_def window_size_def)
  from unat_add_nowrap [OF this] show ?thesis using kaddr_B [OF a j] by simp
qed

lemma span_B:
  assumes a: "region_ok a" and j: "j \<le> nbuckets c" and k: "j * stride c + k \<le> 266240"
  shows "span s (B s a c j) k"
proof -
  have sp: "span s (phys2safe s a) 266240" using a by (intro span_phys2safe) (simp add: region_ok_def)
  have "span s (B s a c j) (max k 32)"
    unfolding bucket_at_def using bucket_offset(1) [OF j] k by (intro span_shift(1) [OF sp]) auto
  then show ?thesis by (rule span_mono) simp
qed

lemma B_inj: "region_ok a \<Longrightarrow> inj_on (B s a c) {..nbuckets c}"
proof (rule inj_onI)
  fix i j assume "region_ok a" "i \<in> {..nbuckets c}" "j \<in> {..nbuckets c}" "B s a c i = B s a c j"
  then have "i * stride c = j * stride c" using unat_kaddr_B [of a i c s] unat_kaddr_B [of a j c s] by auto
  then show "i = j" using nbuckets_bounds(4) [of c] by auto
qed

lemma B_nonzero: "region_ok a \<Longrightarrow> j \<le> nbuckets c \<Longrightarrow> B s a c j \<noteq> 0"
proof
  assume j: "region_ok a" "j \<le> nbuckets c" "B s a c j = 0"
  have "kaddr s 0 = 0" by (rule kaddr_low) (simp add: KERNEL_SPACE_OFFSET_def)
  then show False using unat_kaddr_B [OF j(1,2), of s] j(1,3) by (simp add: unat_eq_zero region_ok_def)
qed

lemma stride_gap:
  assumes "i < j"
  shows "i * stride c + stride c \<le> j * stride c"
proof -
  have "Suc i * stride c \<le> j * stride c" using assms by (intro mult_le_mono1) simp
  then show ?thesis by simp
qed

lemma B_sep:
  assumes a: "region_ok a" and "i \<le> nbuckets c" "j \<le> nbuckets c" "i \<noteq> j" "m \<le> stride c" "k \<le> stride c"
    "i * stride c + m \<le> 266240" "j * stride c + k \<le> 266240"
  shows "sep (kaddr s (B s a c i)) m (kaddr s (B s a c j)) k"
proof (rule sep_nat)
  show "unat (kaddr s (B s a c i)) + m \<le> unat (kaddr s (B s a c j)) \<or>
      unat (kaddr s (B s a c j)) + k \<le> unat (kaddr s (B s a c i))"
    using assms stride_gap [of i j c] stride_gap [of j i c] by (cases "i < j") (auto simp: unat_kaddr_B)
qed (use assms in \<open>simp_all add: unat_kaddr_B region_ok_def window_size_def\<close>)

lemma B_in:
  assumes a: "region_ok a" and "j \<le> nbuckets c" "j * stride c + k \<le> 266240" "in_rng (kaddr s (B s a c j)) k x"
  shows "in_rng a 266240 x"
  using assms unat_kaddr_B [OF a assms(2), of s] in_rng_nat [of "kaddr s (B s a c j)" k x] in_rng_nat [of a 266240 x]
  by (simp add: region_ok_def window_size_def)

lemma B_hdrs: "region_ok a \<Longrightarrow> hdrs s (B s a c ` {..nbuckets c})"
  unfolding hdrs_def
proof (intro ballI conjI impI)
  assume a: "region_ok a"
  fix b b' assume "b \<in> B s a c ` {..nbuckets c}" "b' \<in> B s a c ` {..nbuckets c}" "b \<noteq> b'"
  then obtain i j where "b = B s a c i" "i \<le> nbuckets c" "b' = B s a c j" "j \<le> nbuckets c" "i \<noteq> j" by auto
  then show "sep (kaddr s b) 32 (kaddr s b') 32"
    using B_sep [OF a, of i c j 32 32] bucket_offset(1) nbuckets_bounds(4) [of c] by auto
qed (auto simp: B_nonzero span_B bucket_offset)

subsection \<open>Refilling a class\<close>

definition fresh :: "kstate \<Rightarrow> u64 \<Rightarrow> bclass \<Rightarrow> u64 list" where
  "fresh s a c = map (B s a c) [0..<Suc (nbuckets c)]"

lemma bget_zero:
  assumes "span s b 32" "\<And>x. in_rng (kaddr s b) 32 x \<Longrightarrow> mem s x = 0"
  shows "bget f b s = 0"
proof -
  have "bget f b s = load64 (\<lambda>_. 0) (kaddr s b + of_nat (boff f))"
    unfolding bget_def ld64_def field_addr [OF assms(1)]
    using assms(2) field_sub [of "kaddr s b" f] by (intro read_le_cong) auto
  then show ?thesis by (simp add: read_le_zero)
qed

text \<open>The counts after a run of \<open>n\<close> pages was taken.\<close>

definition run_taken :: "nat \<Rightarrow> kstate \<Rightarrow> kstate \<Rightarrow> bool" where
  "run_taken n s t \<longleftrightarrow> (\<exists>i. \<forall>j<npages s. rc t j = (if i \<le> j \<and> j < i + n then 1 else rc s j))"

lemma rc_ga [simp]: "rc (ga_update g s) = rc s"
  by (simp add: ga_update_def)

lemma run_taken_ga: "run_taken n (ga_update g s) t = run_taken n s t" "run_taken n s (ga_update g t) = run_taken n s t"
  unfolding run_taken_def rc_ga ga_frame_more by (rule refl)+

lemma run_taken_keep: "run_taken n s t \<Longrightarrow> npages t = npages s \<Longrightarrow> pool_keep t u \<Longrightarrow> run_taken n s u"
  by (auto simp: run_taken_def pool_keep_def)

lemma pool_alloc_region:
  assumes inv: "pool_inv s" and al: "pool_alloc s 65 = Some (a, t)"
  shows "region_ok a" "alloc_pages s 65 = Some (a, t)" "same_regs s t" "pool_inv t"
    "pool_held s x \<Longrightarrow> mem t x = mem s x \<and> \<not> in_rng a 266240 x"
    "pool_held t x \<longleftrightarrow> pool_held s x \<or> in_rng a 266240 x" "in_rng a 266240 x \<Longrightarrow> mem t x = 0"
    "run_taken 65 s t"
proof -
  obtain i where i: "a = page_addr s i" "i + 65 < npages s" "pages_taken s (npages s) i 65 t"
    using pool_alloc_Some [OF inv al] by metis
  have lay: "page_layout s (npages s)" using inv by (simp add: pool_inv_def)
  show "region_ok a"
    using i page_layoutD(2) [OF lay] unat_page_addr [OF lay, of i] page_addr_nonzero [OF lay, of i]
    by (simp add: region_ok_def)
  show "alloc_pages s 65 = Some (a, t)" using al by (auto simp: pool_alloc_def split: if_splits option.splits prod.splits)
  show "same_regs s t" using i(3) by (simp add: pages_taken_def)
  show "run_taken 65 s t" using i(3) by (auto simp: run_taken_def pages_taken_def)
  show "pool_inv t" using pool.alloc_inv [OF inv al] .
  have r: "4096 * 65 = (266240 :: nat)" by simp
  show "pool_held t x \<longleftrightarrow> pool_held s x \<or> in_rng a 266240 x" using pool.alloc_held [OF inv al, of x] unfolding r .
  show "in_rng a 266240 x \<Longrightarrow> mem t x = 0" using pool.alloc_zero [OF inv al, of x] unfolding r .
  have "\<not> pool_avail s x" if "pool_held s x"
    using that pool_byte [OF lay] by (auto simp: pool_held_def)
  then show "pool_held s x \<Longrightarrow> mem t x = mem s x \<and> \<not> in_rng a 266240 x"
    using pool.alloc_avail [OF inv al, of x] pool.alloc_keeps [OF inv al, of x] unfolding r by blast
qed

lemma format_fresh:
  assumes a: "region_ok a" and z: "\<And>x. in_rng a 266240 x \<Longrightarrow> mem s x = 0"
  shows "\<exists>t. free_buckets_format_unused s (phys2safe s a) (of_nat (csize c)) 65 = Some (phys2safe s a, t) \<and>
    same_regs s t \<and> (\<forall>x. \<not> in_rng a 266240 x \<longrightarrow> mem t x = mem s x) \<and>
    (\<forall>j\<le>nbuckets c. bget Next (B s a c j) t = (if j < nbuckets c then B s a c (Suc j) else 0) \<and>
       bsize t (B s a c j) = (if j < nbuckets c then csize c else 0))"
proof -
  let ?n = "nbuckets c" and ?H = "B s a c ` {..nbuckets c}"
  let ?t = "fmt (phys2safe s a) (stride c) ?n 0 s"
  have cs: "of_nat (csize c) = (of_nat (stride c - 32) :: u64)" "sizeof_bucket + of_nat (csize c) = of_nat (stride c)"
    "65 * PAGE_SIZE = (of_nat 266240 :: u64)" "(0 :: u64) = of_nat (0 * stride c)"
    by (simp_all add: stride_def sizeof_bucket_def PAGE_SIZE_def)
  have "format_loop (phys2safe s a) (of_nat (stride c - 32)) (of_nat (stride c)) (of_nat 266240)
      (of_nat (0 * stride c)) s = Some (fmt (phys2safe s a) (stride c) (?n - 0) 0 s)"
    using nbuckets_bounds [of c] by (intro format_loop_fmt) auto
  then have "free_buckets_format_unused s (phys2safe s a) (of_nat (csize c)) 65 = Some (phys2safe s a, ?t)"
    unfolding free_buckets_format_unused_def cs(2,3) by (simp add: cs(1))
  moreover have "\<forall>x. \<not> in_rng a 266240 x \<longrightarrow> mem ?t x = mem s x"
    using B_hdrs [OF a, of s c] B_in [OF a _ bucket_offset(1)]
    by (intro allI impI fmt_frame [where H = ?H and n = ?n]) auto
  moreover have "bget Next (B s a c j) ?t = (if j < ?n then B s a c (Suc j) else 0) \<and>
       bsize ?t (B s a c j) = (if j < ?n then csize c else 0)" if j: "j \<le> ?n" for j
  proof -
    have fld: "bget f (B s a c j) ?t = (if j < ?n then fmt_field (phys2safe s a) (stride c) j f else bget f (B s a c j) s)" for f
      using fmt_field_eq [OF B_hdrs [OF a, of s c] _ B_inj [OF a, of s c], where i = j and j = 0 and k = ?n and f = f] j
      by simp
    have "bget f (B s a c j) s = 0" for f
      using j bucket_offset(1) [OF j] by (intro bget_zero span_B [OF a] z B_in [OF a]) auto
    moreover have "unat (of_nat (csize c) :: u64) = csize c" using csize_bounds(2) [of c] by (intro unat_of_nat64) simp
    ultimately show ?thesis using fld [of Next] fld [of Size] by (simp add: bsize_def fmt_field_def stride_def)
  qed
  ultimately show ?thesis using fmt_regs by blast
qed

lemma chain_upt:
  "k \<le> n \<Longrightarrow> (\<And>j. j \<le> n \<Longrightarrow> nxt (f j) = (if j < n then f (Suc j) else 0)) \<Longrightarrow>
     chain nxt (f k) (map f [k..<Suc n])"
proof (induction "n - k" arbitrary: k)
  case 0
  then show ?case by (simp add: le_antisym)
next
  case (Suc d)
  then have k: "k < n" by simp
  have "chain nxt (f (Suc k)) (map f [Suc k..<Suc n])"
    using Suc.prems Suc.hyps(2) k by (intro Suc.hyps(1)) auto
  moreover have "nxt (f k) = f (Suc k)" using Suc.prems(2) [of k] k by simp
  moreover have "[k..<Suc n] = k # [Suc k..<Suc n]" using k by (intro upt_conv_Cons) simp
  ultimately show ?case by simp
qed

lemma extent_class: "extent (csize c) = stride c" "extent 0 = 32"
  using csize_bounds(2) [of c] by (simp_all add: extent_def stride_def)

text \<open>Adding disjoint blocks.\<close>

lemma blocks_ok_union:
  assumes "blocks_ok s H" "blocks_ok s K"
    "\<And>b b' x. b \<in> H \<Longrightarrow> b' \<in> K \<Longrightarrow> in_rng (kaddr s b) (extent (bsize s b)) x \<Longrightarrow>
       \<not> in_rng (kaddr s b') (extent (bsize s b')) x"
  shows "blocks_ok s (H \<union> K)"
  unfolding blocks_ok_def
proof (intro conjI ballI impI)
  show "block_ok s b" if "b \<in> H \<union> K" for b using that assms(1,2) by (auto simp: blocks_ok_def)
  have x: "sep (kaddr s b) (extent (bsize s b)) (kaddr s b') (extent (bsize s b'))" if "b \<in> H" "b' \<in> K" for b b'
    using assms(3) [OF that] by (simp add: sep_def)
  fix b b' assume "b \<in> H \<union> K" "b' \<in> H \<union> K" "b \<noteq> b'"
  then show "sep (kaddr s b) (extent (bsize s b)) (kaddr s b') (extent (bsize s b'))"
    using assms(1,2) x [of b b'] x [of b' b] sep_commute unfolding blocks_ok_def by blast
qed

lemma fresh_blocks_ok:
  assumes a: "region_ok a" and k: "kaddr t = kaddr s"
    and sz: "\<And>j. j \<le> nbuckets c \<Longrightarrow> bsize t (B s a c j) = (if j < nbuckets c then csize c else 0)"
    and held: "\<And>x. in_rng a 266240 x \<Longrightarrow> pool_held t x"
  shows "blocks_ok t (set (fresh s a c))"
    and "b \<in> set (fresh s a c) \<Longrightarrow> in_rng (kaddr t b) (extent (bsize t b)) x \<Longrightarrow> in_rng a 266240 x"
proof -
  have sp: "span t = span s" by (simp add: span_def fun_eq_iff k)
  have ext: "extent (bsize t (B s a c j)) \<le> stride c" "j * stride c + extent (bsize t (B s a c j)) \<le> 266240"
    if "j \<le> nbuckets c" for j
    using that sz [OF that] bucket_offset [of j c] nbuckets_bounds(4) [of c] by (auto simp: extent_class)
  have set: "set (fresh s a c) = B s a c ` {..nbuckets c}"
    by (auto simp: fresh_def simp del: upt_Suc)
  show inr: "b \<in> set (fresh s a c) \<Longrightarrow> in_rng (kaddr t b) (extent (bsize t b)) x \<Longrightarrow> in_rng a 266240 x" for b x
    using ext(2) B_in [OF a] unfolding set k by blast
  have "block_ok t b" if b: "b \<in> set (fresh s a c)" for b
  proof -
    obtain j where j: "j \<le> nbuckets c" "b = B s a c j" using b by (auto simp: set)
    have "span s b (extent (bsize t b))" "b \<noteq> 0"
      using span_B [OF a j(1) ext(2) [OF j(1)]] B_nonzero [OF a j(1)] j(2) by simp_all
    moreover have "bsize t b = 0 \<or> (\<exists>d. bsize t b = csize d)" using sz [OF j(1)] j(2) by auto
    ultimately show ?thesis using inr [OF b] held by (auto simp: block_ok_def sp)
  qed
  moreover have "sep (kaddr t b) (extent (bsize t b)) (kaddr t b') (extent (bsize t b'))"
    if bb: "b \<in> set (fresh s a c)" "b' \<in> set (fresh s a c)" "b \<noteq> b'" for b b'
  proof -
    obtain i where i: "i \<le> nbuckets c" "b = B s a c i" using bb(1) by (auto simp: set)
    obtain j where j: "j \<le> nbuckets c" "b' = B s a c j" using bb(2) by (auto simp: set)
    have "i \<noteq> j" using bb(3) i j by auto
    then show ?thesis unfolding k i(2) j(2) using i(1) j(1) ext by (intro B_sep [OF a]) auto
  qed
  ultimately show "blocks_ok t (set (fresh s a c))" by (auto simp: blocks_ok_def)
qed

lemma fresh_distinct: "region_ok a \<Longrightarrow> distinct (fresh s a c)"
  using B_inj [of a s c] by (auto simp: fresh_def distinct_map atLeast0AtMost atLeastLessThanSuc_atLeastAtMost simp del: upt_Suc)

lemma add_fresh:
  assumes core: "heap_core t F U" and F: "F c = []" and a: "region_ok a" and k: "kaddr t = kaddr s"
    and p: "p = phys2safe s a"
    and held: "\<And>x. in_rng a 266240 x \<Longrightarrow> pool_held t x"
    and old: "\<And>b x. b \<in> buckets F U \<Longrightarrow> in_rng (kaddr t b) (extent (bsize t b)) x \<Longrightarrow> \<not> in_rng a 266240 x"
    and fld: "\<And>j. j \<le> nbuckets c \<Longrightarrow> bget Next (B s a c j) t = (if j < nbuckets c then B s a c (Suc j) else 0)"
    and sz: "\<And>j. j \<le> nbuckets c \<Longrightarrow> bsize t (B s a c j) = (if j < nbuckets c then csize c else 0)"
  shows "heap_core (ga_update (set_free c p) t) (F(c := fresh s a c)) U"
proof -
  let ?N = "set (fresh s a c)" and ?u = "ga_update (set_free c p) t"
  have hl: "heap_lists t F U" and inv: "pool_inv t" and ok: "blocks_ok t (buckets F U)"
    using core by (simp_all add: heap_core_def)
  note D = heap_listsD [OF hl]
  have Fr: "blocks_ok t ?N"
    "b \<in> ?N \<Longrightarrow> in_rng (kaddr t b) (extent (bsize t b)) x \<Longrightarrow> in_rng a 266240 x" for b x
    using fresh_blocks_ok [of a t s c, OF a k] sz held by blast+
  have bk: "buckets (F(c := fresh s a c)) U = buckets F U \<union> ?N"
    unfolding buckets_upd buckets_split [of F U c] F by auto
  have ok': "blocks_ok t (buckets F U \<union> ?N)" using ok Fr(1) old Fr(2) by (intro blocks_ok_union) blast+
  have "b \<notin> buckets F U" if "b \<in> ?N" for b
  proof
    assume b: "b \<in> buckets F U"
    have "in_rng (kaddr t b) (extent (bsize t b)) (kaddr t b)" using extent_ge(1) [of "bsize t b"] by simp
    then show False using old [OF b] Fr(2) [OF that] by blast
  qed
  then have "apart (F(c := fresh s a c)) U"
    using D(2) fresh_distinct [OF a] by (intro apart_upd) (auto simp: buckets_def)
  moreover have "chain (nexts t) p (fresh s a c)"
    using chain_upt [of 0 "nbuckets c" "nexts t" "B s a c"] fld unfolding fresh_def p by (simp add: bucket_at_def del: upt_Suc)
  moreover have "bsize t b = csize c \<or> bsize t b = 0" if "b \<in> ?N" for b
    using that sz by (auto simp: fresh_def simp del: upt_Suc)
  ultimately show ?thesis
    using core D inv ok' blocks_ok_hdrs [OF ok'] by (auto simp: heap_core_def heap_lists_def bk)
qed

lemma refill_fresh:
  assumes core: "heap_core s F U" and F: "F c = []" and al: "pool_alloc s 65 = Some (a, s1)"
  shows "\<exists>t. refill s c = Some (True, t) \<and> heap_core t (F(c := fresh s a c)) U \<and>
    mutating (GLOBAL_ALLOC t) = mutating (GLOBAL_ALLOC s) \<and> kaddr t = kaddr s \<and> npages t = npages s \<and>
    (\<forall>x. pool_held s x \<longrightarrow> mem t x = mem s x \<and> pool_held t x) \<and>
    (\<forall>j\<le>nbuckets c. bsize t (B s a c j) = (if j < nbuckets c then csize c else 0)) \<and> run_taken 65 s t"
proof -
  have inv: "pool_inv s" and ok: "blocks_ok s (buckets F U)" and hl: "heap_lists s F U"
    using core by (simp_all add: heap_core_def)
  note R = pool_alloc_region [OF inv al]
  note L = same_regs_layout [OF R(3)]
  obtain t where t: "free_buckets_format_unused s1 (phys2safe s1 a) (of_nat (csize c)) 65 = Some (phys2safe s1 a, t)"
    "same_regs s1 t" "\<And>x. \<not> in_rng a 266240 x \<Longrightarrow> mem t x = mem s1 x"
    "\<And>j. j \<le> nbuckets c \<Longrightarrow> bget Next (B s1 a c j) t = (if j < nbuckets c then B s1 a c (Suc j) else 0)"
    "\<And>j. j \<le> nbuckets c \<Longrightarrow> bsize t (B s1 a c j) = (if j < nbuckets c then csize c else 0)"
    using format_fresh [of a s1 c, OF R(1)] R(7) by blast
  note L1 = same_regs_layout [OF t(2)]
  have keep: "pool_keep s1 t"
    unfolding pool_keep_def
  proof (intro conjI allI impI)
    show eq: "t = s1\<lparr>mem := mem t, GLOBAL_ALLOC := GLOBAL_ALLOC t\<rparr>"
      using t(2) by (cases s1, cases t) (simp add: same_regs_def)
    fix j assume j: "j < npages s1"
    show "rc t j = rc s1 j"
      using R(4,6) t(3) pool_held_not_rc [OF R(4) _ j] by (intro rc_cong [OF _ eq j]) (auto simp: pool_inv_def)
  qed
  note K = pool_keepD [OF keep]
  have oldb: "pool_held s x \<Longrightarrow> mem t x = mem s x \<and> pool_held t x" for x
    using R(5,6) [of x] t(3) [of x] K(7) by auto
  have GA: "GLOBAL_ALLOC t = GLOBAL_ALLOC s" using same_regs_GA [OF t(2)] same_regs_GA [OF R(3)] by simp
  have core_t: "heap_core t F U"
  proof (rule heap_core_transfer [OF core])
    fix b x assume b: "b \<in> buckets F U"
    have h: "in_rng (kaddr s b) (extent (bsize s b)) x \<Longrightarrow> pool_held s x"
      using ok b by (simp add: blocks_ok_def block_ok_def)
    then show "pool_held t x" if "in_rng (kaddr s b) (extent (bsize s b)) x" using oldb that by blast
    show "mem t x = mem s x" if "in_rng (kaddr s b) 32 x"
      using h oldb in_rng_mono [OF that extent_ge(1)] by blast
  qed (simp_all add: GA K L R(4))
  have sz: "b \<in> buckets F U \<Longrightarrow> bsize t b = bsize s b" for b
  proof -
    assume b: "b \<in> buckets F U"
    have "mem t x = mem s x" if x: "in_rng (kaddr s b) 32 x" for x
    proof -
      have "in_rng (kaddr s b) (extent (bsize s b)) x" using x extent_ge(1) by (rule in_rng_mono)
      then have "pool_held s x" using ok b by (simp add: blocks_ok_def block_ok_def)
      then show ?thesis using oldb by simp
    qed
    then have "bget Size b t = bget Size b s"
      using hdrsD(2) [OF blocks_ok_hdrs [OF ok] b] K(1) L(6) by (intro bget_cong) auto
    then show ?thesis by (simp add: bsize_def)
  qed
  have "heap_core (ga_update (set_free c (phys2safe s a)) t) (F(c := fresh s a c)) U"
  proof (rule add_fresh [OF core_t F R(1)])
    fix b x assume b: "b \<in> buckets F U" and x: "in_rng (kaddr t b) (extent (bsize t b)) x"
    then have "pool_held s x" using ok sz [OF b] K(1) L(6) by (simp add: blocks_ok_def block_ok_def)
    then show "\<not> in_rng a 266240 x" using R(5) by blast
  qed (use t(4,5) K L R(6) in auto)
  moreover have "free_of c (GLOBAL_ALLOC s) = 0" using heap_listsD(5) [OF hl, of c] F by simp
  moreover have "phys2safe s a \<noteq> 0" using B_nonzero [OF R(1), of 0 c s] by (simp add: bucket_at_def)
  moreover have "bsize (ga_update (set_free c (phys2safe s a)) t) (B s a c j) = (if j < nbuckets c then csize c else 0)"
    if "j \<le> nbuckets c" for j using t(5) [OF that] L(7) by simp
  moreover have "run_taken 65 s t" using R(8) L(1) keep by (rule run_taken_keep)
  then have "run_taken 65 s (ga_update (set_free c (phys2safe s a)) t)" by (simp only: run_taken_ga)
  ultimately show ?thesis
    using R(2) t(1) L K GA oldb
    by (auto simp: refill_def GLOBAL_ALLOC_FALLBACK_PAGE_COUNT_def)
qed

end
