(* ===== verification/Malloc.thy ===== *)
theory Malloc
  imports Heap_Refill
begin

text \<open>
  The contract of \<^verbatim>\<open>malloc\<close>, \<^verbatim>\<open>free\<close> and \<^verbatim>\<open>realloc\<close> as their callers see it, first over the lists of the
  heap invariant, then as a locale for the clients of the allocator, with its interpretation.
\<close>

subsection \<open>Page runs\<close>

definition has_run :: "kstate \<Rightarrow> nat \<Rightarrow> bool" where
  "has_run s n \<longleftrightarrow> (\<exists>i. i + n < npages s \<and> free_run s n i)"

lemma has_run_ga [simp]: "has_run (ga_update g s) n = has_run s n"
  by (simp add: has_run_def free_run_def)

lemma has_run_alloc:
  assumes inv: "pool_inv s" and n: "0 < n" and run: "has_run s n"
  obtains a t where "pool_alloc s n = Some (a, t)" "alloc_pages s (of_nat n) = Some (a, t)"
proof -
  let ?N = "npages s"
  have lay: "page_layout s ?N" "\<not> mutating_heap s" using inv by (simp_all add: pool_inv_def)
  obtain k where k: "k + n < ?N" "free_run s n k" using run by (auto simp: has_run_def)
  then have le: "n \<le> ?N" and "k \<in> set [0..<?N - n]" by auto
  then obtain i where i: "find (free_run s n) [0..<?N - n] = Some i"
    using k(2) by (cases "find (free_run s n) [0..<?N - n]") (auto simp: find_None_iff)
  then have "i \<le> ?N" by (auto simp: find_Some_iff)
  then have nz: "page_addr s i \<noteq> 0" by (rule page_addr_nonzero [OF lay(1)])
  from alloc_pages_Some [OF lay n le i] obtain t where t: "alloc_pages s (of_nat n) = Some (page_addr s i, t)" by blast
  then have "pool_alloc s n = Some (page_addr s i, t)" using n le nz by (simp add: pool_alloc_def)
  then show ?thesis using that t by blast
qed

subsection \<open>Small requests\<close>

text \<open>The list of class \<open>c\<close> as \<^verbatim>\<open>malloc\<close> finds it: the free list, refilled if it was empty.\<close>

definition class_list :: "kstate \<Rightarrow> (bclass \<Rightarrow> u64 list) \<Rightarrow> bclass \<Rightarrow> u64 list \<Rightarrow> bool" where
  "class_list s F c L \<longleftrightarrow> (if F c = [] then \<exists>a. region_ok a \<and> L = fresh s a c else L = F c)"

text \<open>Where a new block of \<open>n\<close> bytes at \<open>b\<close> comes from: from pages that were free, or from a bucket of the heap.\<close>

definition new_room :: "kstate \<Rightarrow> u64 set \<Rightarrow> u64 \<Rightarrow> nat \<Rightarrow> bool" where
  "new_room s H b n \<longleftrightarrow> (\<forall>x. in_rng (kaddr s b) (extent n) x \<longrightarrow>
     \<not> pool_held s x \<or> (\<exists>h\<in>H. in_rng (kaddr s h) (extent (bsize s h)) x))"

lemma data_frame_trans:
  assumes st: "data_frame H s t" and tu: "data_frame K t u" and sub: "H \<subseteq> K"
    and held: "\<And>x. pool_held s x \<Longrightarrow> pool_held t x"
    and new: "\<And>b x. b \<in> K \<Longrightarrow> b \<notin> H \<Longrightarrow> in_rng (kaddr t b) 32 x \<Longrightarrow> \<not> pool_held s x"
  shows "data_frame H s u"
  unfolding data_frame_def
proof (intro conjI allI impI ballI)
  have k: "kaddr t = kaddr s" "npages t = npages s" using st by (simp_all add: data_frame_def)
  then show "kaddr u = kaddr s" "npages u = npages s" using tu by (simp_all add: data_frame_def)
  show "bget Size b u = bget Size b s" if "b \<in> H" for b using st tu sub that by (auto simp: data_frame_def)
  fix x assume x: "pool_held s x \<and> (\<forall>b\<in>H. \<not> in_rng (kaddr s b) 32 x)"
  then have "\<forall>b\<in>K. \<not> in_rng (kaddr t b) 32 x" using new k by metis
  then have "mem u x = mem t x" using tu held x by (simp add: data_frame_def)
  also have "\<dots> = mem s x" using st x by (simp add: data_frame_def)
  finally show "mem u x = mem s x" .
qed

lemma extent_csize: "extent (csize c) = stride c"
  by (cases c) (simp_all add: extent_def stride_def)

lemma new_room_ga [simp]: "new_room (ga_update g s) H b n = new_room s H b n"
  by (simp add: new_room_def bsize_def)

lemma refill_taken:
  assumes core: "heap_core s F U" and c: "class_of sz = Some c" and F: "F c = []" and run: "has_run s 65"
  shows "\<exists>a t. region_ok a \<and> refill s c = Some (True, t) \<and> heap_core t (F(c := fresh s a c)) U \<and>
    take_bucket s sz = take_bucket t sz \<and>
    mutating (GLOBAL_ALLOC t) = mutating (GLOBAL_ALLOC s) \<and> data_frame (buckets F U) s t \<and>
    (\<forall>x. pool_held s x \<longrightarrow> pool_held t x) \<and>
    (\<forall>j\<le>nbuckets c. bsize t (B s a c j) = (if j < nbuckets c then csize c else 0)) \<and> run_taken 65 s t \<and>
    (\<forall>b\<in>set (fresh s a c). \<forall>x. in_rng (kaddr t b) 32 x \<longrightarrow> \<not> pool_held s x) \<and>
    new_room s (buckets F U) (B s a c 0) (csize c)"
proof -
  have inv: "pool_inv s" and ok: "blocks_ok s (buckets F U)" using core by (simp_all add: heap_core_def)
  obtain a s1 where al: "pool_alloc s 65 = Some (a, s1)" using has_run_alloc [OF inv _ run] by (metis zero_less_numeral)
  note R = pool_alloc_region [OF inv al]
  from refill_fresh [OF core F al] obtain t where
    t: "refill s c = Some (True, t)" "heap_core t (F(c := fresh s a c)) U"
    "mutating (GLOBAL_ALLOC t) = mutating (GLOBAL_ALLOC s)" "kaddr t = kaddr s" "npages t = npages s"
    "\<And>x. pool_held s x \<Longrightarrow> mem t x = mem s x \<and> pool_held t x"
    "\<forall>j\<le>nbuckets c. bsize t (B s a c j) = (if j < nbuckets c then csize c else 0)" "run_taken 65 s t" by blast
  have ne: "(F(c := fresh s a c)) c = B s a c 0 # map (B s a c) [1..<Suc (nbuckets c)]"
    by (simp add: fresh_def upt_conv_Cons del: upt_Suc)
  note T = take_popped [OF t(2) c ne]
  have "heap_lists t (F(c := fresh s a c)) U" using t(2) by (simp only: heap_core_def)
  from pop_free(1) [OF this ne] have "free_of c (GLOBAL_ALLOC t) = B s a c 0" .
  then have "refill t c = Some (True, t)" using T(5) by (simp add: refill_def)
  then have "take_bucket s sz = take_bucket t sz" using t(1) by (simp add: take_bucket_def c)
  moreover have "data_frame (buckets F U) s t"
    unfolding data_frame_def
  proof (intro conjI ballI allI impI)
    fix b assume b: "b \<in> buckets F U"
    have "mem t x = mem s x" if x: "in_rng (kaddr s b) 32 x" for x
    proof -
      have "in_rng (kaddr s b) (extent (bsize s b)) x" using x extent_ge(1) by (rule in_rng_mono)
      then have "pool_held s x" using ok b by (simp add: blocks_ok_def block_ok_def)
      then show ?thesis using t(6) by simp
    qed
    then show "bget Size b t = bget Size b s"
      using hdrsD(2) [OF blocks_ok_hdrs [OF ok] b] t(4) by (intro bget_cong) auto
  qed (use t in auto)
  moreover have "\<not> pool_held s x" if b: "b \<in> set (fresh s a c)" and x: "in_rng (kaddr t b) 32 x" for b x
  proof -
    obtain j where j: "j \<le> nbuckets c" "b = B s a c j" using b by (auto simp: fresh_def less_Suc_eq_le simp del: upt_Suc)
    then have "in_rng a 266240 x" using B_in [OF R(1) j(1) bucket_offset(1) [OF j(1)]] x t(4) by simp
    then show ?thesis using R(5) by blast
  qed
  moreover have "new_room s (buckets F U) (B s a c 0) (csize c)"
    unfolding new_room_def
  proof (intro allI impI disjI1)
    fix x assume "in_rng (kaddr s (B s a c 0)) (extent (csize c)) x"
    then have "in_rng a 266240 x"
      using B_in [OF R(1), of 0 c "extent (csize c)" s x] bucket_offset(2) [of 0 c] nbuckets_bounds(6) [of c] by (simp add: extent_csize)
    then show "\<not> pool_held s x" using R(5) by blast
  qed
  ultimately show ?thesis using R(1) t by blast
qed

lemma free_buckets_alloc_locked:
  assumes "\<not> mutating (GLOBAL_ALLOC s)" "sz \<noteq> 0" "take_bucket (locked s) sz = Some (b, u)" "b \<noteq> 0"
  shows "malloc s ra sz = Some (b + 32, ga_unlock (push_used b ra u))"
  using assms by (simp add: malloc_def free_buckets_alloc_def sizeof_bucket_def)

lemma hdr_frame_unlocked:
  assumes "hdr_frame H s t"
  shows "data_frame H s (ga_unlock t)"
proof -
  have "data_frame H s t" using assms by (rule hdr_frame_data)
  then show ?thesis by (simp add: data_frame_def ga_unlock_def)
qed

lemma data_frame_locked [simp]: "data_frame H (locked s) t = data_frame H s t"
  by (simp add: data_frame_def)

lemma fresh_ga: "fresh (ga_update g s) a c = fresh s a c"
  by (simp add: fresh_def)

lemma malloc_small:
  assumes inv: "heap_inv s F U" and sz: "sz \<noteq> 0" and c: "class_of sz = Some c"
    and room: "F c \<noteq> [] \<or> has_run s 65"
  shows "\<exists>L b bs t. class_list s F c L \<and> L = b # bs \<and> malloc s ra sz = Some (b + 32, t) \<and>
    heap_inv t (F(c := bs)) (b # U) \<and> data_frame (buckets F U) s t \<and> bget Origin b t = ra \<and>
    (bsize t b = csize c \<or> F c \<noteq> [] \<and> bsize s b = 0 \<and> bsize t b = 0) \<and>
    (F c = [] \<longrightarrow> run_taken 65 s t) \<and> new_room s (buckets F U) b (bsize t b)"
proof (cases "F c")
  case (Cons b bs)
  then have cl: "class_list s F c (b # bs)" by (simp add: class_list_def)
  have "0 < sz" using sz by (simp add: word_gt_0)
  from malloc_popped [OF inv this c Cons, of ra] obtain t where
    t: "malloc s ra sz = Some (b + 32, t)" "heap_inv t (F(c := bs)) (b # U)"
    "hdr_frame (buckets F U) s t" "bget Origin b t = ra" by blast
  have "bsize s b = csize c \<or> bsize s b = 0"
    using inv Cons unfolding heap_inv_def heap_core_def by (metis list.set_intros(1))
  moreover have "bsize t b = bsize s b"
    using hdr_frame_size [OF t(3), of b] buckets_F [of b F c U] Cons by (simp add: bsize_def)
  moreover have "F c \<noteq> []" using Cons by simp
  moreover have "new_room s (buckets F U) b (bsize s b)"
    using buckets_F [of b F c U] Cons by (auto simp: new_room_def)
  ultimately show ?thesis using cl t hdr_frame_data by metis
next
  case Nil
  have core: "heap_core (locked s) F U" and m: "\<not> mutating (GLOBAL_ALLOC s)"
    using inv by (simp_all add: heap_inv_def)
  have "has_run (locked s) 65" using room Nil by simp
  from refill_taken [OF core c Nil this] obtain a t where
    t: "region_ok a" "heap_core t (F(c := fresh s a c)) U" "take_bucket (locked s) sz = take_bucket t sz"
    "mutating (GLOBAL_ALLOC t)" "data_frame (buckets F U) s t"
    "\<And>x. pool_held s x \<Longrightarrow> pool_held t x"
    "\<And>b x. b \<in> set (fresh s a c) \<Longrightarrow> in_rng (kaddr t b) 32 x \<Longrightarrow> \<not> pool_held s x"
    "\<And>j. j \<le> nbuckets c \<Longrightarrow> bsize t (B s a c j) = (if j < nbuckets c then csize c else 0)" "run_taken 65 s t"
    "new_room s (buckets F U) (B s a c 0) (csize c)"
    unfolding run_taken_ga fresh_ga data_frame_locked ga_update_frame ga_frame_more by auto
  let ?b = "B s a c 0" and ?bs = "map (B s a c) [1..<Suc (nbuckets c)]"
  have L: "fresh s a c = ?b # ?bs" by (simp add: fresh_def upt_conv_Cons del: upt_Suc)
  let ?F = "F(c := fresh s a c)"
  have Fc: "?F c = ?b # ?bs" using L by simp
  note T = take_popped [OF t(2) c Fc]
  let ?u = "ga_update (set_free c (bget Next ?b t)) t"
  have ok: "blocks_ok ?u (insert ?b (buckets (?F(c := ?bs)) U))"
    unfolding T(4) using t(2) by (simp add: heap_core_def)
  note P = use_bucket [OF T(2,3) ok, of ra]
  have "hdr_frame (buckets ?F U) t (push_used ?b ra ?u)"
    using hdr_frame_trans [OF hdr_frame_ga P(2)] unfolding T(4) by simp
  then have "data_frame (buckets ?F U) t (ga_unlock (push_used ?b ra ?u))" by (rule hdr_frame_unlocked)
  then have "data_frame (buckets F U) s (ga_unlock (push_used ?b ra ?u))"
  proof (rule data_frame_trans [OF t(5)])
    show "buckets F U \<subseteq> buckets ?F U" unfolding buckets_upd buckets_split [of F U c] Nil by auto
    fix b x assume "b \<in> buckets ?F U" "b \<notin> buckets F U" "in_rng (kaddr t b) 32 x"
    then show "\<not> pool_held s x" using t(7) unfolding buckets_upd buckets_split [of F U c] Nil by auto
  qed (rule t(6))
  moreover have "malloc s ra sz = Some (?b + 32, ga_unlock (push_used ?b ra ?u))"
    using m sz T(1,5) t(3) by (intro free_buckets_alloc_locked) auto
  moreover have "heap_inv (ga_unlock (push_used ?b ra ?u)) (F(c := ?bs)) (?b # U)" using P(1) by simp
  moreover have "class_list s F c (?b # ?bs)" unfolding class_list_def using Nil t(1) L by auto
  moreover have "bget Origin ?b (ga_unlock (push_used ?b ra ?u)) = ra" using P(3) by (simp add: ga_unlock_def)
  moreover have "bsize (ga_unlock (push_used ?b ra ?u)) ?b = csize c"
  proof -
    have "bsize t ?b = csize c" using t(8) [of 0] nbuckets_bounds(6) [of c] by simp
    moreover have "bsize (push_used ?b ra ?u) ?b = bsize t ?b"
      using hdr_frame_size [OF P(2), of ?b] by (simp add: bsize_def)
    ultimately show ?thesis by (simp add: ga_unlock_def)
  qed
  moreover have "run_taken 65 s (ga_unlock (push_used ?b ra ?u))"
  proof -
    have "pool_keep t (push_used ?b ra ?u)"
      using t(2) \<open>hdr_frame (buckets ?F U) t (push_used ?b ra ?u)\<close> by (intro hdr_frame_pool) (auto simp: heap_core_def)
    moreover have "npages t = npages s" using t(5) by (simp add: data_frame_def)
    ultimately show ?thesis using run_taken_keep [OF t(9)] by (simp add: ga_unlock_def run_taken_ga)
  qed
  ultimately show ?thesis using t(10) by metis
qed

subsection \<open>Large requests\<close>

lemma pool_alloc_pages:
  assumes inv: "pool_inv s" and al: "pool_alloc s n = Some (a, t)"
  shows "unat a + 4096 * n < window_size" "a \<noteq> 0" "same_regs s t" "pool_inv t"
    "\<exists>i. a = page_addr s i \<and> i + n \<le> npages s"
    "pool_held s x \<Longrightarrow> mem t x = mem s x \<and> \<not> in_rng a (4096 * n) x"
    "pool_held t x \<longleftrightarrow> pool_held s x \<or> in_rng a (4096 * n) x"
proof -
  obtain i where i: "a = page_addr s i" "i + n < npages s" "pages_taken s (npages s) i n t"
    using pool_alloc_Some [OF inv al] by metis
  have lay: "page_layout s (npages s)" using inv by (simp add: pool_inv_def)
  show "unat a + 4096 * n < window_size" "a \<noteq> 0"
    using i page_layoutD(2) [OF lay] unat_page_addr [OF lay, of i] page_addr_nonzero [OF lay, of i] by simp_all
  show "same_regs s t" using i(3) by (simp add: pages_taken_def)
  show "pool_inv t" using pool.alloc_inv [OF inv al] .
  show "\<exists>i. a = page_addr s i \<and> i + n \<le> npages s" using i by auto
  show "pool_held t x \<longleftrightarrow> pool_held s x \<or> in_rng a (4096 * n) x" using pool.alloc_held [OF inv al, of x] .
  have "\<not> pool_avail s x" if "pool_held s x" using that pool_byte [OF lay] by (auto simp: pool_held_def)
  then show "pool_held s x \<Longrightarrow> mem t x = mem s x \<and> \<not> in_rng a (4096 * n) x"
    using pool.alloc_avail [OF inv al, of x] pool.alloc_keeps [OF inv al, of x] by blast
qed

lemma bput_Size_span: "span s b 32 \<Longrightarrow> bsize (bput Size b v s) b = unat v"
  by (simp add: bsize_def bget_def bput_def)

lemma take_large:
  assumes core: "heap_core s F U" and c: "class_of sz = None" and run: "has_run s (bpages (unat sz))"
  shows "\<exists>b t. take_bucket s sz = Some (b, t) \<and> b \<noteq> 0 \<and> heap_core t F U \<and> b \<notin> buckets F U \<and>
    blocks_ok t (insert b (buckets F U)) \<and> bsize t b = unat sz \<and>
    mutating (GLOBAL_ALLOC t) = mutating (GLOBAL_ALLOC s) \<and> kaddr t = kaddr s \<and> npages t = npages s \<and>
    (\<forall>x. pool_held s x \<longrightarrow> mem t x = mem s x \<and> pool_held t x \<and> \<not> in_rng (kaddr s b) 32 x) \<and>
    new_room s (buckets F U) b (unat sz)"
proof -
  let ?n = "bpages (unat sz)" and ?H = "buckets F U"
  have inv: "pool_inv s" and ok: "blocks_ok s ?H" using core by (simp_all add: heap_core_def)
  have big: "65536 < unat sz" using c by (simp add: class_of_None)
  then have n: "0 < ?n" by (simp add: bpages_def)
  obtain a s1 where al: "pool_alloc s ?n = Some (a, s1)" "alloc_pages s (of_nat ?n) = Some (a, s1)"
    using has_run_alloc [OF inv n run] .
  note R = pool_alloc_pages [OF inv al(1)] and L = same_regs_layout [OF pool_alloc_pages(3) [OF inv al(1)]]
  let ?b = "phys2safe s a" and ?t = "bput Size (phys2safe s a) sz s1"
  have ext: "extent (unat sz) = 4096 * ?n" using big by (simp add: extent_def)
  have sp: "span s ?b (4096 * ?n)" using R(1) by (rule span_phys2safe)
  have "32 \<le> 4096 * ?n" using n by linarith
  then have sp32: "span s ?b 32" and in32: "in_rng a 32 x \<Longrightarrow> in_rng a (4096 * ?n) x" for x
    using sp span_mono in_rng_mono by blast+
  have ka: "kaddr s ?b = a" using R(1) by (intro kaddr_phys2safe) simp
  have nz: "?b \<noteq> 0" using R(1,2) by (intro phys2safe_nonzero) auto
  have spt: "span s1 = span s" using L(6) by (simp add: span_def fun_eq_iff)
  have memt: "\<not> in_rng a 32 x \<Longrightarrow> mem ?t x = mem s1 x" for x
    using sp32 ka L(6) by (intro bput_mem) (simp_all add: spt)
  have keep: "pool_keep s1 ?t"
    unfolding pool_keep_def
  proof (intro conjI allI impI)
    show eq: "?t = s1\<lparr>mem := mem ?t, GLOBAL_ALLOC := GLOBAL_ALLOC ?t\<rparr>" by (simp add: bput_def st64_def)
    fix j assume j: "j < npages s1"
    show "rc ?t j = rc s1 j"
      using R(4,7) memt in32 pool_held_not_rc [OF R(4) _ j] by (intro rc_cong [OF _ eq j]) (auto simp: pool_inv_def)
  qed
  note K = pool_keepD [OF keep]
  have old: "pool_held s x \<Longrightarrow> mem ?t x = mem s x \<and> pool_held ?t x \<and> \<not> in_rng a (4096 * ?n) x" for x
    using R(6,7) [of x] memt [of x] in32 [of x] K(7) by auto
  have blk: "h \<in> ?H \<Longrightarrow> in_rng (kaddr s h) (extent (bsize s h)) x \<Longrightarrow> pool_held s x" for h x
    using ok by (simp add: blocks_ok_def block_ok_def)
  have GA: "GLOBAL_ALLOC ?t = GLOBAL_ALLOC s" using same_regs_GA [OF R(3)] by simp
  have core_t: "heap_core ?t F U"
  proof (rule heap_core_transfer [OF core])
    fix b x assume b: "b \<in> ?H"
    show "pool_held ?t x" if "in_rng (kaddr s b) (extent (bsize s b)) x" using old blk [OF b that] by blast
    show "mem ?t x = mem s x" if "in_rng (kaddr s b) 32 x"
      using old blk [OF b in_rng_mono [OF that extent_ge(1)]] by blast
  qed (simp_all add: same_regs_GA [OF R(3)] K L R(4))
  have bs: "bsize ?t ?b = unat sz" using sp32 by (intro bput_Size_span) (simp add: spt)
  have sz_old: "h \<in> ?H \<Longrightarrow> bsize ?t h = bsize s h" for h
  proof -
    assume h: "h \<in> ?H"
    have "bget Size h ?t = bget Size h s"
      using hdrsD(2) [OF blocks_ok_hdrs [OF ok] h] blk [OF h in_rng_mono [OF _ extent_ge(1)]] old K(1) L(6)
      by (intro bget_cong) auto
    then show ?thesis by (simp add: bsize_def)
  qed
  have "block_ok ?t ?b"
    unfolding block_ok_def bs ext
    using nz sp R(5,7) big K L ka by (auto simp: spt)
  then have "blocks_ok ?t {?b}" by (simp add: blocks_ok_def)
  moreover have "blocks_ok ?t ?H" using core_t by (simp add: heap_core_def)
  ultimately have ok_t: "blocks_ok ?t ({?b} \<union> ?H)"
    using blk old by (intro blocks_ok_union) (auto simp: bs ext K(1) L(6) ka sz_old)
  have nb: "?b \<notin> ?H"
  proof
    assume "?b \<in> ?H"
    then have "pool_held s (kaddr s ?b)" using extent_ge(1) [of "bsize s ?b"] by (intro blk) auto
    then have "\<not> in_rng a (4096 * ?n) a" using old ka by metis
    then show False using n by simp
  qed
  have "4096 * ?n < 2 ^ 64" using R(1) by (simp add: window_size_def)
  then have "(sz + sizeof_bucket + PAGE_SIZE - 1) div PAGE_SIZE = of_nat ?n" by (rule page_round) simp
  then have "take_bucket s sz = Some (?b, ?t)" using al(2) c nz L(7) by (simp add: take_bucket_def Let_def)
  moreover have "new_room s ?H ?b (unat sz)" unfolding new_room_def ext ka using old by blast
  ultimately show ?thesis using nz core_t nb ok_t bs GA K L old ka in32 by auto
qed

lemma malloc_large:
  assumes inv: "heap_inv s F U" and c: "class_of sz = None" and run: "has_run s (bpages (unat sz))"
  shows "\<exists>b t. malloc s ra sz = Some (b + 32, t) \<and> heap_inv t F (b # U) \<and>
    data_frame (buckets F U) s t \<and> bget Origin b t = ra \<and> bsize t b = unat sz \<and> new_room s (buckets F U) b (unat sz)"
proof -
  have core: "heap_core (locked s) F U" and m: "\<not> mutating (GLOBAL_ALLOC s)"
    using inv by (simp_all add: heap_inv_def)
  have "has_run (locked s) (bpages (unat sz))" using run by simp
  from take_large [OF core c this] obtain b t where
    t: "take_bucket (locked s) sz = Some (b, t)" "b \<noteq> 0" "heap_core t F U" "b \<notin> buckets F U"
    "blocks_ok t (insert b (buckets F U))" "bsize t b = unat sz" "kaddr t = kaddr s" "npages t = npages s"
    "\<And>x. pool_held s x \<Longrightarrow> mem t x = mem s x \<and> pool_held t x \<and> \<not> in_rng (kaddr s b) 32 x"
    "new_room s (buckets F U) b (unat sz)"
    by (metis ga_update_frame(1,4,8) ga_frame_more(1) new_room_ga)
  note P = use_bucket [OF t(3,4,5), of ra]
  let ?t = "push_used b ra t"
  have ok: "blocks_ok s (buckets F U)" using inv by (simp add: heap_inv_def heap_core_def)
  have "data_frame (buckets F U) s t"
    unfolding data_frame_def
  proof (intro conjI ballI)
    fix h assume h: "h \<in> buckets F U"
    have "mem t x = mem s x" if "in_rng (kaddr s h) 32 x" for x
      using ok h in_rng_mono [OF that extent_ge(1)] t(9) by (simp add: blocks_ok_def block_ok_def)
    then show "bget Size h t = bget Size h s"
      using hdrsD(2) [OF blocks_ok_hdrs [OF ok] h] t(7) by (intro bget_cong) auto
  qed (use t in auto)
  moreover have "data_frame (insert b (buckets F U)) t (ga_unlock ?t)" using P(2) by (rule hdr_frame_unlocked)
  ultimately have "data_frame (buckets F U) s (ga_unlock ?t)"
    by (rule data_frame_trans) (use t(7,9) in auto)
  moreover have "sz \<noteq> 0" using c by auto
  then have "malloc s ra sz = Some (b + 32, ga_unlock ?t)"
    using m t(1,2) by (intro free_buckets_alloc_locked) auto
  moreover have "bsize ?t b = unat sz" using hdr_frame_size [OF P(2), of b] t(6) by (simp add: bsize_def)
  ultimately show ?thesis using P(1,3) t(10) by (auto simp: ga_unlock_def heap_inv_def)
qed

subsection \<open>The contract over the lists\<close>

text \<open>A request that can be served: there is a bucket in its class, and it is not one with size
  field 0, or there are pages.\<close>

definition servable :: "kstate \<Rightarrow> (bclass \<Rightarrow> u64 list) \<Rightarrow> u64 \<Rightarrow> bool" where
  "servable s F sz \<longleftrightarrow> sz \<noteq> 0 \<and> (case class_of sz of
     Some c \<Rightarrow> if F c = [] then has_run s 65 else bsize s (hd (F c)) \<noteq> 0
   | None \<Rightarrow> has_run s (bpages (unat sz)))"

text \<open>The size of the block that serves a request.\<close>

definition block_size :: "u64 \<Rightarrow> nat" where
  "block_size sz = (case class_of sz of Some c \<Rightarrow> csize c | None \<Rightarrow> unat sz)"

lemma class_size_ge: "class_of sz = Some c \<Longrightarrow> unat sz \<le> csize c"
  by (simp add: class_of_Some)

lemma malloc_lists:
  assumes inv: "heap_inv s F U" and sv: "servable s F sz"
  shows "\<exists>b F' t. malloc s ra sz = Some (b + 32, t) \<and> heap_inv t F' (b # U) \<and>
    data_frame (buckets F U) s t \<and> bget Origin b t = ra \<and> unat sz \<le> bsize t b \<and> new_room s (buckets F U) b (bsize t b) \<and>
    bsize t b = block_size sz"
proof (cases "class_of sz")
  case None
  then have "has_run s (bpages (unat sz))" using sv by (simp add: servable_def)
  moreover have "block_size sz = unat sz" using None by (simp add: block_size_def)
  ultimately show ?thesis using malloc_large [OF inv None] by (metis order_refl)
next
  case (Some c)
  have sz: "sz \<noteq> 0" and "F c \<noteq> [] \<or> has_run s 65" and hz: "F c \<noteq> [] \<Longrightarrow> bsize s (hd (F c)) \<noteq> 0"
    using sv Some by (auto simp: servable_def split: if_splits)
  from malloc_small [OF inv sz Some this(2), of ra] obtain L b bs t where
    t: "class_list s F c L" "L = b # bs" "malloc s ra sz = Some (b + 32, t)" "heap_inv t (F(c := bs)) (b # U)"
    "data_frame (buckets F U) s t" "bget Origin b t = ra"
    "bsize t b = csize c \<or> F c \<noteq> [] \<and> bsize s b = 0 \<and> bsize t b = 0" "new_room s (buckets F U) b (bsize t b)" by blast
  have "F c \<noteq> [] \<Longrightarrow> hd (F c) = b" using t(1,2) by (metis class_list_def list.sel(1))
  then have "F c \<noteq> [] \<Longrightarrow> bsize s b \<noteq> 0" using hz by metis
  then have b: "bsize t b = csize c" using t(7) by auto
  moreover have "block_size sz = csize c" using Some by (simp add: block_size_def)
  ultimately have "unat sz \<le> bsize t b" "bsize t b = block_size sz" using class_size_ge [OF Some] by simp_all
  then show ?thesis using t by blast
qed

text \<open>Releasing a block, of either kind.\<close>

lemma kfree_lists:
  assumes inv: "heap_inv s F (xs @ b # ys)"
  shows "\<exists>F' t. kfree s (b + 32) = Some t \<and> heap_inv t F' (xs @ ys) \<and> data_frame (buckets F (xs @ b # ys)) s t"
proof (cases "bsize s b \<le> 65536")
  case True
  then show ?thesis using kfree_small [OF inv] hdr_frame_data by blast
next
  case False
  then show ?thesis using kfree_large [OF inv] by auto
qed

subsection \<open>The bytes of the callers\<close>

text \<open>The data of bucket \<open>u\<close> starts 32 bytes after its header.\<close>

lemma block_data:
  assumes ok: "blocks_ok s H" and u: "u \<in> H"
  shows "k < bsize s u \<Longrightarrow> kaddr s (u + 32 + of_nat k) = kaddr s u + of_nat (32 + k)"
    and "in_rng (kaddr s u + 32) (bsize s u) x \<Longrightarrow> in_rng (kaddr s u) (extent (bsize s u)) x"
    and "in_rng (kaddr s u + 32) (bsize s u) x \<Longrightarrow> b \<in> H \<Longrightarrow> \<not> in_rng (kaddr s b) 32 x"
    and "in_rng (kaddr s u + 32) (bsize s u) x \<Longrightarrow> pool_held s x"
    and "0 < bsize s u \<Longrightarrow> span s (u + 32) (bsize s u)" "0 < bsize s u \<Longrightarrow> kaddr s (u + 32) = kaddr s u + 32"
proof -
  have bo: "block_ok s u" using ok u by (simp add: blocks_ok_def)
  have sp: "span s u (extent (bsize s u))" using bo by (simp add: block_ok_def)
  have sp': "span s u (32 + bsize s u)" using sp extent_ge(2) by (rule span_mono)
  show "kaddr s (u + 32 + of_nat k) = kaddr s u + of_nat (32 + k)" if "k < bsize s u"
    using spanD(3) [OF sp', of "32 + k"] that by (simp add: add.assoc)
  show "span s (u + 32) (bsize s u)" "kaddr s (u + 32) = kaddr s u + 32" if "0 < bsize s u"
    using span_shift [OF sp', of 32 "bsize s u"] that by simp_all
  have split: "in_rng (kaddr s u) (32 + bsize s u) x \<longleftrightarrow> in_rng (kaddr s u) 32 x \<or> in_rng (kaddr s u + 32) (bsize s u) x"
    using in_rng_split [of 32 "bsize s u" "kaddr s u" x] spanD(2) [OF sp'] by simp
  assume x: "in_rng (kaddr s u + 32) (bsize s u) x"
  then show e: "in_rng (kaddr s u) (extent (bsize s u)) x" using split in_rng_mono [OF _ extent_ge(2)] by blast
  then show "pool_held s x" using bo by (simp add: block_ok_def)
  have "unat (kaddr s u + of_nat 32) = unat (kaddr s u) + 32" using spanD(2) [OF sp'] by (intro unat_add_nowrap) simp
  then have own: "\<not> in_rng (kaddr s u) 32 x"
    using x in_rng_nat [of "kaddr s u + 32" "bsize s u" x] in_rng_nat [of "kaddr s u" 32 x] spanD(2) [OF sp'] by simp
  show "\<not> in_rng (kaddr s b) 32 x" if "b \<in> H"
  proof (cases "b = u")
    case False
    then have "sep (kaddr s u) (extent (bsize s u)) (kaddr s b) (extent (bsize s b))"
      using ok u that by (auto simp: blocks_ok_def)
    then show ?thesis using e sep_not_in in_rng_mono [OF _ extent_ge(1)] by blast
  qed (use own in simp)
qed

text \<open>\<open>block_bytes s u\<close>: the contents of the block whose header is \<open>u\<close>.\<close>

definition block_bytes :: "kstate \<Rightarrow> u64 \<Rightarrow> u8 list" where
  "block_bytes s u = map (\<lambda>k. ld8 s (u + 32 + of_nat k)) [0..<bsize s u]"

lemma block_bytes_kept:
  assumes ok: "blocks_ok s H" and fr: "data_frame H s t" and u: "u \<in> H"
  shows "block_bytes t u = block_bytes s u" "bsize t u = bsize s u"
proof -
  show bs: "bsize t u = bsize s u" using fr u by (simp add: data_frame_def bsize_def)
  have k: "kaddr t = kaddr s" using fr by (simp add: data_frame_def)
  have "ld8 t (u + 32 + of_nat i) = ld8 s (u + 32 + of_nat i)" if i: "i < bsize s u" for i
  proof -
    have ka: "kaddr s (u + 32 + of_nat i) = kaddr s u + 32 + of_nat i"
      using block_data(1) [OF ok u i] by (simp add: add.assoc)
    have "bsize s u \<le> 2 ^ 64" using unat_lt64 [of "bget Size u s", THEN less_imp_le] by (simp add: bsize_def)
    then have x: "in_rng (kaddr s u + 32) (bsize s u) (kaddr s u + 32 + of_nat i)" using i by (intro in_rng_offset)
    have "mem t (kaddr s u + 32 + of_nat i) = mem s (kaddr s u + 32 + of_nat i)"
      using fr block_data(3,4) [OF ok u x] by (simp add: data_frame_def)
    then show ?thesis by (simp add: ld8_def k ka)
  qed
  then show "block_bytes t u = block_bytes s u" by (simp add: block_bytes_def bs)
qed

lemma blocks_apart:
  assumes ok: "blocks_ok s H" and "u \<in> H" "v \<in> H" "u \<noteq> v"
  shows "sep (kaddr s u + 32) (bsize s u) (kaddr s v + 32) (bsize s v)"
proof -
  have "sep (kaddr s u) (extent (bsize s u)) (kaddr s v) (extent (bsize s v))"
    using assms by (auto simp: blocks_ok_def)
  then show ?thesis
    using block_data(2) [OF ok assms(2)] block_data(2) [OF ok assms(3)] unfolding sep_def by blast
qed

lemma heap_invD:
  assumes "heap_inv s F U"
  shows "blocks_ok s (buckets F U)" "pool_inv s" "heap_lists s F U" "distinct U"
  using assms by (auto simp: heap_inv_def heap_core_def heap_lists_def apart_def)

text \<open>C1. \<^verbatim>\<open>malloc\<close>: a request that can be served returns a block of at least the requested size that
  overlaps no live block; the live blocks keep their sizes and their contents, the return address is
  recorded, and the heap invariant holds with the new block at the head of the used list.\<close>

theorem malloc_spec:
  assumes "heap_inv s F U" "servable s F sz"
  shows "\<exists>b F' t. malloc s ra sz = Some (b + 32, t) \<and> heap_inv t F' (b # U) \<and> unat sz \<le> bsize t b \<and>
    bget Origin b t = ra \<and>
    (\<forall>u\<in>set U. bsize t u = bsize s u \<and> block_bytes t u = block_bytes s u \<and>
       sep (kaddr t b + 32) (bsize t b) (kaddr t u + 32) (bsize t u))"
proof -
  obtain b F' t where t: "malloc s ra sz = Some (b + 32, t)" "heap_inv t F' (b # U)"
    "data_frame (buckets F U) s t" "bget Origin b t = ra" "unat sz \<le> bsize t b"
    using malloc_lists [OF assms] by blast
  have "sep (kaddr t b + 32) (bsize t b) (kaddr t u + 32) (bsize t u)" if "u \<in> set U" for u
    using heap_invD(4) [OF t(2)] that by (intro blocks_apart [OF heap_invD(1) [OF t(2)]]) (auto simp: buckets_def)
  moreover have "bsize t u = bsize s u \<and> block_bytes t u = block_bytes s u" if "u \<in> set U" for u
    using block_bytes_kept [OF heap_invD(1) [OF assms(1)] t(3), of u] buckets_U [OF that] by blast
  ultimately show ?thesis using t by blast
qed

text \<open>The heap as the kernel starts with it: no block, every list empty.\<close>

lemma demo_npages: "npages demo_state = 2048"
  using demo_layout by (rule page_layout_npages)

lemma empty_heap:
  assumes "pool_inv s" and g: "GLOBAL_ALLOC s = GLOBAL_ALLOC0"
  shows "heap_inv s (\<lambda>_. []) []"
proof -
  have "free_of c GLOBAL_ALLOC0 = 0" for c by (cases c) (simp_all add: GLOBAL_ALLOC0_def)
  then have "heap_lists s (\<lambda>_. []) []"
    by (simp add: heap_lists_def hdrs_def buckets_def apart_def g) (simp add: GLOBAL_ALLOC0_def)
  then show ?thesis using assms(1)
    by (simp add: heap_inv_def heap_core_def blocks_ok_def buckets_def g) (simp add: GLOBAL_ALLOC0_def)
qed

lemma demo_heap: "heap_inv demo_state (\<lambda>_. []) []"
proof (rule empty_heap)
  show "pool_inv demo_state" using demo_layout by (simp add: pool_inv_def demo_npages)
qed (simp add: demo_state_def kstate0_def)

lemma demo_run: "n < 2048 \<Longrightarrow> has_run demo_state n"
  unfolding has_run_def demo_npages free_run_def by (intro exI [of _ 0]) simp

lemma demo_servable: "0 < n \<Longrightarrow> n \<le> 65536 \<Longrightarrow> servable demo_state (\<lambda>_. []) n"
proof -
  assume n: "0 < n" "n \<le> 65536"
  then obtain c where "class_of n = Some c"
    by (cases "class_of n") (auto simp: class_of_None word_le_nat_alt)
  then show ?thesis using n demo_run [of 65] by (simp add: servable_def word_gt_0)
qed

theorem malloc_spec_witness:
  "\<exists>b F t. malloc demo_state 0x80200040 24 = Some (b + 32, t) \<and> heap_inv t F [b] \<and> 24 \<le> bsize t b"
  using malloc_spec [OF demo_heap demo_servable, of 24 "0x80200040"] by auto

text \<open>C2. \<^verbatim>\<open>free\<close> of a live block returns, takes exactly that block out of the used list, and keeps the
  size and the contents of every other live block.\<close>

theorem free_spec:
  assumes "heap_inv s F (xs @ b # ys)"
  shows "\<exists>F' t. kfree s (b + 32) = Some t \<and> heap_inv t F' (xs @ ys) \<and>
    (\<forall>u\<in>set (xs @ ys). bsize t u = bsize s u \<and> block_bytes t u = block_bytes s u)"
proof -
  obtain F' t where t: "kfree s (b + 32) = Some t" "heap_inv t F' (xs @ ys)"
    "data_frame (buckets F (xs @ b # ys)) s t" using kfree_lists [OF assms] by blast
  have "bsize t u = bsize s u \<and> block_bytes t u = block_bytes s u" if "u \<in> set (xs @ ys)" for u
    using block_bytes_kept [OF heap_invD(1) [OF assms] t(3), of u] that by (auto simp: buckets_def)
  then show ?thesis using t by blast
qed

theorem free_spec_witness:
  "\<exists>s b F t. heap_inv s F [b] \<and> kfree s (b + 32) = Some t \<and> (\<exists>F'. heap_inv t F' [])"
proof -
  obtain b F s where "heap_inv s F [b]" using malloc_lists [OF demo_heap demo_servable, of 24 0] by auto
  then show ?thesis using free_spec [of s F "[]" b "[]"] by auto
qed

subsection \<open>Reuse\<close>


lemma demo_stocked: "\<exists>s F b bs. heap_inv s F [] \<and> F C64 = b # bs \<and> bsize s b = csize C64"
proof -
  have c: "class_of 24 = Some C64" by (simp add: class_of_def)
  obtain b bs t where t: "heap_inv t ((\<lambda>_. [])(C64 := bs)) ([] @ b # [])" "bsize t b = csize C64"
    using malloc_small [OF demo_heap _ c, of 0] demo_run [of 65] by auto
  then have "bsize t b \<le> 65536" by simp
  from kfree_small [OF t(1) this] obtain d v where
    v: "class_of (bget Size b t) = Some d" "heap_inv v (((\<lambda>_. [])(C64 := bs))(d := b # ((\<lambda>_. [])(C64 := bs)) d)) []"
    "hdr_frame (buckets ((\<lambda>_. [])(C64 := bs)) ([] @ b # [])) t v" by auto
  have "bget Size b t = of_nat (csize C64)" using t(2) by (metis bsize_def of_nat_unat64)
  then have "d = C64" using v(1) by (simp only: class_of_csize option.inject)
  moreover have "b \<in> buckets ((\<lambda>_. [])(C64 := bs)) ([] @ b # [])" by (simp add: buckets_def)
  then have "bsize v b = bsize t b" using hdr_frame_size [OF v(3)] by (simp add: bsize_def)
  ultimately show ?thesis using v(2) t(2) by fastforce
qed


subsection \<open>Writing to a block, and realloc\<close>

lemma heap_write:
  assumes inv: "heap_inv s F U" and u: "u \<in> buckets F U"
    and m: "\<And>x. \<not> in_rng (kaddr s u + 32) (bsize s u) x \<Longrightarrow> m x = mem s x"
  shows "heap_inv (s\<lparr>mem := m\<rparr>) F U"
proof -
  let ?t = "s\<lparr>mem := m\<rparr>"
  have core: "heap_core s F U" and mu: "\<not> mutating (GLOBAL_ALLOC s)" using inv by (simp_all add: heap_inv_def)
  note ok = heap_invD(1) [OF inv] and pinv = heap_invD(2) [OF inv]
  have "pool_keep s ?t"
    unfolding pool_keep_def
  proof (intro conjI allI impI)
    show eq: "?t = s\<lparr>mem := mem ?t, GLOBAL_ALLOC := GLOBAL_ALLOC ?t\<rparr>" by simp
    fix j assume j: "j < npages s"
    show "rc ?t j = rc s j"
    proof (rule rc_cong [OF _ eq j])
      fix x assume "in_rng (rc_ptr s j) 2 x"
      then have "\<not> in_rng (kaddr s u + 32) (bsize s u) x"
        using block_data(4) [OF ok u] pool_held_not_rc [OF pinv _ j] by blast
      then show "mem ?t x = mem s x" using m by simp
    qed (use pinv in \<open>simp add: pool_inv_def\<close>)
  qed
  note K = pool_keepD [OF this]
  have "heap_core ?t F U"
  proof (rule heap_core_transfer [OF core])
    fix b x assume b: "b \<in> buckets F U"
    show "pool_held ?t x" if "in_rng (kaddr s b) (extent (bsize s b)) x"
      using ok b that K(7) by (simp add: blocks_ok_def block_ok_def)
    show "mem ?t x = mem s x" if "in_rng (kaddr s b) 32 x"
      using block_data(3) [OF ok u _ b] that m [of x] by auto
  qed (use K pinv in simp_all)
  then show ?thesis using mu by (simp add: heap_inv_def)
qed

lemma data_byte:
  assumes ok: "blocks_ok s H" and u: "u \<in> H" and i: "i < bsize s u"
  shows "kaddr s (u + 32 + of_nat i) = kaddr s u + 32 + of_nat i"
    "in_rng (kaddr s u + 32) (bsize s u) (kaddr s u + 32 + of_nat i)"
proof -
  show "kaddr s (u + 32 + of_nat i) = kaddr s u + 32 + of_nat i"
    using block_data(1) [OF ok u i] by (simp add: add.assoc)
  have "bsize s u \<le> 2 ^ 64" using unat_lt64 [of "bget Size u s", THEN less_imp_le] by (simp add: bsize_def)
  then show "in_rng (kaddr s u + 32) (bsize s u) (kaddr s u + 32 + of_nat i)" using i by (intro in_rng_offset)
qed

lemma write_other:
  assumes inv: "heap_inv s F U" and u: "u \<in> buckets F U" and w: "w \<in> buckets F U" "w \<noteq> u"
    and m: "\<And>x. \<not> in_rng (kaddr s u + 32) (bsize s u) x \<Longrightarrow> m x = mem s x"
  shows "block_bytes (s\<lparr>mem := m\<rparr>) w = block_bytes s w"
proof -
  note ok = heap_invD(1) [OF inv]
  have sep: "sep (kaddr s w + 32) (bsize s w) (kaddr s u + 32) (bsize s u)" using blocks_apart [OF ok w(1) u w(2)] .
  have sz: "bsize (s\<lparr>mem := m\<rparr>) w = bsize s w"
  proof -
    have "bget Size w (s\<lparr>mem := m\<rparr>) = bget Size w s"
      using hdrsD(2) [OF blocks_ok_hdrs [OF ok] w(1)] block_data(3) [OF ok u _ w(1)] m by (intro bget_cong) auto
    then show ?thesis by (simp add: bsize_def)
  qed
  have "ld8 (s\<lparr>mem := m\<rparr>) (w + 32 + of_nat i) = ld8 s (w + 32 + of_nat i)" if "i < bsize s w" for i
    using data_byte [OF ok w(1) that] m sep_not_in [OF sep] by (simp add: ld8_def)
  then show ?thesis by (simp add: block_bytes_def sz)
qed

lemma span_0 [simp]: "span s a 0"
  by (simp add: span_def)

lemma sep_0 [simp]: "sep a 0 b k" "sep a n b 0"
  by (simp_all add: sep_def)

text \<open>The copy that \<^verbatim>\<open>realloc\<close> makes from the old block \<open>b\<close> into the new block \<open>b'\<close>.\<close>

lemma block_copy:
  assumes inv: "heap_inv t F U" and b: "b \<in> buckets F U" and b': "b' \<in> buckets F U" "b' \<noteq> b"
    and le: "bsize t b \<le> bsize t b'" "0 < bsize t b'"
  shows "\<exists>u. memcpy t (b' + 32) (b + 32) (bget Size b t) = Some (b' + 32, u) \<and> heap_inv u F U \<and>
    bsize u b' = bsize t b' \<and> bsize u b = bsize t b \<and>
    take (bsize t b) (block_bytes u b') = block_bytes t b \<and>
    (\<forall>w\<in>buckets F U. w \<noteq> b' \<longrightarrow> bsize u w = bsize t w \<and> block_bytes u w = block_bytes t w)"
proof -
  let ?n = "bsize t b" and ?d = "kaddr t b' + 32"
  note ok = heap_invD(1) [OF inv]
  let ?u = "t\<lparr>mem := copy_bytes (kaddr t (b' + 32)) (kaddr t (b + 32)) ?n (mem t)\<rparr>"
  have kd: "kaddr t (b' + 32) = ?d" using block_data(6) [OF ok b'(1)] le(2) by simp
  have kb: "0 < ?n \<Longrightarrow> kaddr t (b + 32) = kaddr t b + 32" using block_data(6) [OF ok b] by simp
  have "span t (b' + 32) ?n" using block_data(5) [OF ok b'(1)] le span_mono by blast
  moreover have "span t (b + 32) ?n" using block_data(5) [OF ok b] by (cases "?n = 0") auto
  moreover have "sep (kaddr t (b' + 32)) ?n (kaddr t (b + 32)) ?n"
  proof (cases "?n = 0")
    case False
    have "sep ?d (bsize t b') (kaddr t b + 32) ?n" using blocks_apart [OF ok b'(1) b b'(2)] .
    then show ?thesis using False kd kb le(1) sep_mono by auto
  qed simp
  ultimately have cp: "memcpy t (b' + 32) (b + 32) (of_nat ?n) = Some (b' + 32, ?u)" by (rule memcpy_eq)
  have m: "\<not> in_rng ?d (bsize t b') x \<Longrightarrow> copy_bytes (kaddr t (b' + 32)) (kaddr t (b + 32)) ?n (mem t) x = mem t x" for x
    using in_rng_mono [OF _ le(1)] kd by (auto simp: copy_bytes_def)
  note W = heap_write [OF inv b'(1) m]
  have szu: "bsize ?u w = bsize t w" if "w \<in> buckets F U" for w
  proof -
    have "bget Size w ?u = bget Size w t"
      using hdrsD(2) [OF blocks_ok_hdrs [OF ok] that] block_data(3) [OF ok b'(1) _ that] m by (intro bget_cong) auto
    then show ?thesis by (simp add: bsize_def)
  qed
  have "ld8 ?u (b' + 32 + of_nat i) = ld8 t (b + 32 + of_nat i)" if i: "i < ?n" for i
  proof -
    have "in_rng ?d ?n (?d + of_nat i)"
      using i unat_lt64 [of "bget Size b t", THEN less_imp_le] by (intro in_rng_offset) (simp_all add: bsize_def)
    then show ?thesis
      using data_byte(1) [OF ok b i] data_byte(1) [OF ok b'(1), of i] i le(1) kd kb by (simp add: ld8_def copy_bytes_def)
  qed
  then have "take ?n (block_bytes ?u b') = block_bytes t b"
    using le(1) by (simp add: block_bytes_def szu [OF b'(1)] take_map)
  moreover have "bget Size b t = of_nat ?n" by (simp add: bsize_def)
  ultimately show ?thesis using cp W szu b b'(1) write_other [OF inv b'(1) _ _ m] by auto
qed


lemma demo_one_block:
  "\<exists>s F b. malloc demo_state 0 24 = Some (b + 32, s) \<and> heap_inv s F [b] \<and> bsize s b = 64 \<and> F C1024 = [] \<and> has_run s 65"
proof -
  have c: "class_of 24 = Some C64" by (simp add: class_of_def)
  obtain b bs t where t: "heap_inv t ((\<lambda>_. [])(C64 := bs)) [b]" "bsize t b = csize C64" "run_taken 65 demo_state t"
    "data_frame (buckets (\<lambda>_. []) []) demo_state t" "malloc demo_state 0 24 = Some (b + 32, t)"
    using malloc_small [OF demo_heap _ c, of 0] demo_run [of 65] by auto
  then have np: "npages t = 2048" by (simp add: data_frame_def demo_npages)
  obtain i where "\<forall>j<npages demo_state. rc t j = (if i \<le> j \<and> j < i + 65 then 1 else rc demo_state j)"
    using t(3) unfolding run_taken_def by blast
  then have i: "j < 2048 \<Longrightarrow> rc t j = (if i \<le> j \<and> j < i + 65 then 1 else 0)" for j by (simp add: demo_npages)
  have "has_run t 65"
  proof (cases "i < 65")
    case True
    then have "free_run t 65 (i + 65)" using i by (simp add: free_run_def)
    then show ?thesis using True unfolding has_run_def np by (intro exI [of _ "i + 65"]) simp
  next
    case False
    then have "free_run t 65 0" using i by (simp add: free_run_def)
    then show ?thesis unfolding has_run_def np by (intro exI [of _ 0]) simp
  qed
  then show ?thesis using t by (intro exI [of _ t] exI [of _ "(\<lambda>_. [])(C64 := bs)"] exI [of _ b]) simp
qed


end
