(* ===== verification/Malloc_Client.thy ===== *)
theory Malloc_Client
  imports Malloc
begin

text \<open>
  The allocator as a locale for its clients, its interpretation on \<^verbatim>\<open>malloc\<close> and \<^verbatim>\<open>free\<close>, and the two
  places where the code does not keep the promise: the last bucket of a formatted region, and the
  exhausted page pool.
\<close>

subsection \<open>The interface\<close>

text \<open>\<open>live s p n\<close>: a block of \<open>n\<close> bytes at \<open>p\<close> is allocated. \<open>byte s p k\<close> is byte \<open>k\<close> of the block at \<open>p\<close>,
  \<open>loc s p k\<close> its place in memory.\<close>

locale block_allocator =
  fixes inv :: "'s \<Rightarrow> bool"
    and live :: "'s \<Rightarrow> u64 \<Rightarrow> nat \<Rightarrow> bool"
    and byte :: "'s \<Rightarrow> u64 \<Rightarrow> nat \<Rightarrow> u8"
    and loc :: "'s \<Rightarrow> u64 \<Rightarrow> nat \<Rightarrow> u64"
    and alloc :: "'s \<Rightarrow> nat \<Rightarrow> (u64 \<times> 's) option"
    and release :: "'s \<Rightarrow> u64 \<Rightarrow> 's option"
  assumes live_disjoint: "inv s \<Longrightarrow> live s p n \<Longrightarrow> live s q m \<Longrightarrow> p \<noteq> q \<Longrightarrow> i < n \<Longrightarrow> j < m \<Longrightarrow> loc s p i \<noteq> loc s q j"
    and live_unique: "inv s \<Longrightarrow> live s p n \<Longrightarrow> live s p m \<Longrightarrow> n = m"
    and alloc_inv: "inv s \<Longrightarrow> alloc s n = Some (p, t) \<Longrightarrow> inv t"
    and alloc_new: "inv s \<Longrightarrow> alloc s n = Some (p, t) \<Longrightarrow> \<exists>m\<ge>n. live t p m"
    and alloc_fresh: "inv s \<Longrightarrow> alloc s n = Some (p, t) \<Longrightarrow> \<not> live s p m"
    and alloc_live: "inv s \<Longrightarrow> alloc s n = Some (p, t) \<Longrightarrow> q \<noteq> p \<Longrightarrow> live t q m \<longleftrightarrow> live s q m"
    and alloc_keeps: "inv s \<Longrightarrow> alloc s n = Some (p, t) \<Longrightarrow> live s q m \<Longrightarrow> k < m \<Longrightarrow> byte t q k = byte s q k"
    and release_ok: "inv s \<Longrightarrow> live s p n \<Longrightarrow> \<exists>t. release s p = Some t"
    and release_inv: "inv s \<Longrightarrow> live s p n \<Longrightarrow> release s p = Some t \<Longrightarrow> inv t"
    and release_live: "inv s \<Longrightarrow> live s p n \<Longrightarrow> release s p = Some t \<Longrightarrow> live t q m \<longleftrightarrow> live s q m \<and> q \<noteq> p"
    and release_keeps: "inv s \<Longrightarrow> live s p n \<Longrightarrow> release s p = Some t \<Longrightarrow> live s q m \<Longrightarrow> q \<noteq> p \<Longrightarrow> k < m \<Longrightarrow>
      byte t q k = byte s q k"
begin

text \<open>What the other users of the heap do meanwhile: any sequence of requests and releases of blocks
  other than \<open>p\<close>.\<close>

inductive others :: "u64 \<Rightarrow> 's \<Rightarrow> 's \<Rightarrow> bool" for p where
  others_refl: "others p s s"
| others_alloc: "others p s t \<Longrightarrow> alloc t n = Some (q, u) \<Longrightarrow> others p s u"
| others_release: "others p s t \<Longrightarrow> live t q n \<Longrightarrow> q \<noteq> p \<Longrightarrow> release t q = Some u \<Longrightarrow> others p s u"

lemma others_keep:
  "others p s t \<Longrightarrow> inv s \<Longrightarrow> live s p m \<Longrightarrow> inv t \<and> live t p m \<and> (\<forall>k<m. byte t p k = byte s p k)"
proof (induction rule: others.induct)
  case (others_alloc s t n q u)
  then have t: "inv t" "live t p m" "\<forall>k<m. byte t p k = byte s p k" by auto
  have "q \<noteq> p" using alloc_fresh [OF t(1) others_alloc.hyps(2)] t(2) by auto
  then have "live u p m" using alloc_live [OF t(1) others_alloc.hyps(2), of p m] t(2) by auto
  then show ?case using t alloc_inv [OF t(1)] alloc_keeps [OF t(1)] others_alloc.hyps(2) by metis
next
  case (others_release s t q n u)
  then have t: "inv t" "live t p m" "\<forall>k<m. byte t p k = byte s p k" by auto
  note r = others_release.hyps(2-4)
  have "live u p m" using release_live [OF t(1) r(1,3), of p m] t(2) r(2) by simp
  then show ?case using t release_inv [OF t(1) r(1,3)] release_keeps [OF t(1) r(1,3) t(2)] r(2) by metis
qed auto

text \<open>A block survives the activity of others with its contents, and two blocks obtained at any times
  share no byte.\<close>

lemma two_blocks:
  assumes "inv s" "alloc s n = Some (p, t)" "others p t u" "alloc u n' = Some (q, v)"
  shows "\<exists>m\<ge>n. \<exists>m'\<ge>n'. live v p m \<and> live v q m' \<and> p \<noteq> q \<and>
    (\<forall>k<m. byte v p k = byte t p k) \<and> (\<forall>i<m. \<forall>j<m'. loc v p i \<noteq> loc v q j)"
proof -
  obtain m where m: "m \<ge> n" "live t p m" using alloc_new [OF assms(1,2)] by auto
  have it: "inv t" using alloc_inv [OF assms(1,2)] .
  have u: "inv u" "live u p m" "\<forall>k<m. byte u p k = byte t p k" using others_keep [OF assms(3) it m(2)] by auto
  obtain m' where m': "m' \<ge> n'" "live v q m'" using alloc_new [OF u(1) assms(4)] by auto
  have ne: "p \<noteq> q" using alloc_fresh [OF u(1) assms(4)] u(2) by auto
  have v: "inv v" "live v p m" using alloc_inv [OF u(1) assms(4)] alloc_live [OF u(1) assms(4) ne] u(2) by auto
  have "\<forall>k<m. byte v p k = byte t p k" using alloc_keeps [OF u(1) assms(4) u(2)] u(3) by simp
  then show ?thesis using m m' ne v live_disjoint [OF v(1,2) m'(2) ne] by blast
qed

end

subsection \<open>The bucket allocator provides it\<close>

definition heap_ok :: "kstate \<Rightarrow> bool" where
  "heap_ok s \<longleftrightarrow> (\<exists>F U. heap_inv s F U)"

definition heap_live :: "kstate \<Rightarrow> u64 \<Rightarrow> nat \<Rightarrow> bool" where
  "heap_live s p n \<longleftrightarrow> (\<exists>F U u. heap_inv s F U \<and> u \<in> set U \<and> p = u + 32 \<and> n = bsize s u)"

definition heap_byte :: "kstate \<Rightarrow> u64 \<Rightarrow> nat \<Rightarrow> u8" where
  "heap_byte s p k = ld8 s (p + of_nat k)"

definition heap_loc :: "kstate \<Rightarrow> u64 \<Rightarrow> nat \<Rightarrow> u64" where
  "heap_loc s p k = kaddr s (p + of_nat k)"

text \<open>A request that can be served; the caller's return address plays no role.\<close>

definition heap_alloc :: "u64 \<Rightarrow> kstate \<Rightarrow> nat \<Rightarrow> (u64 \<times> kstate) option" where
  "heap_alloc ra s n = (if n < 2 ^ 64 \<and> (\<exists>F U. heap_inv s F U \<and> servable s F (of_nat n)) then malloc s ra (of_nat n) else None)"

text \<open>The lists are determined by the state.\<close>

lemma chain_unique: "chain f a xs \<Longrightarrow> chain f a ys \<Longrightarrow> 0 \<notin> set xs \<Longrightarrow> 0 \<notin> set ys \<Longrightarrow> xs = ys"
proof (induction xs arbitrary: a ys)
  case (Cons x xs)
  then show ?case by (cases ys) auto
next
  case Nil
  then show ?case by (cases ys) auto
qed

lemma used_unique: "heap_inv s F U \<Longrightarrow> heap_inv s F' U' \<Longrightarrow> U' = U"
proof -
  assume "heap_inv s F U" "heap_inv s F' U'"
  then have "heap_lists s F U" "heap_lists s F' U'" by (auto dest: heap_invD)
  then show ?thesis
    using chain_unique heap_listsD(3,6) by (metis UnCI buckets_def)
qed

lemma heap_live_iff: "heap_inv s F U \<Longrightarrow> heap_live s p n \<longleftrightarrow> (\<exists>u\<in>set U. p = u + 32 \<and> n = bsize s u)"
  unfolding heap_live_def using used_unique by blast

lemma heap_allocD:
  assumes "heap_inv s F U" "heap_alloc ra s n = Some (p, t)"
  obtains b F' where "p = b + 32" "heap_inv t F' (b # U)" "n \<le> bsize t b" "data_frame (buckets F U) s t"
proof -
  obtain F1 U1 where f: "n < 2 ^ 64" "heap_inv s F1 U1" "servable s F1 (of_nat n)" "malloc s ra (of_nat n) = Some (p, t)"
    using assms(2) by (auto simp: heap_alloc_def split: if_splits)
  have "U1 = U" using used_unique [OF assms(1) f(2)] .
  moreover obtain b F' t' where "malloc s ra (of_nat n) = Some (b + 32, t')" "heap_inv t' F' (b # U1)"
    "data_frame (buckets F1 U1) s t'" "unat (of_nat n :: u64) \<le> bsize t' b"
    using malloc_lists [OF f(2,3), of ra] by blast
  moreover have "F1 = F"
  proof
    fix c
    have "heap_lists s F U" "heap_lists s F1 U1" using assms(1) f(2) by (auto dest: heap_invD)
    then have "chain (nexts s) (free_of c (GLOBAL_ALLOC s)) (F1 c)" "chain (nexts s) (free_of c (GLOBAL_ALLOC s)) (F c)"
      "0 \<notin> set (F1 c)" "0 \<notin> set (F c)" using heap_listsD(5,6) buckets_F [of 0 F c U] buckets_F [of 0 F1 c U1] by blast+
    then show "F1 c = F c" by (rule chain_unique)
  qed
  ultimately show ?thesis using that f by (simp add: unat_of_nat64)
qed

lemma heap_byte_nth: "k < bsize s u \<Longrightarrow> heap_byte s (u + 32) k = block_bytes s u ! k"
  by (simp add: heap_byte_def block_bytes_def)

lemma kept_byte:
  assumes "heap_inv s F U" "u \<in> set U" "data_frame (buckets F U) s t" "k < bsize s u"
  shows "heap_byte t (u + 32) k = heap_byte s (u + 32) k" "bsize t u = bsize s u"
  using block_bytes_kept [OF heap_invD(1) [OF assms(1)] assms(3) buckets_U [OF assms(2)]] assms(4)
  by (simp_all add: heap_byte_nth)

lemma kept_size: "data_frame (buckets F U) s t \<Longrightarrow> u \<in> set U \<Longrightarrow> bsize t u = bsize s u"
  using buckets_U [of u U F] by (auto simp: data_frame_def bsize_def)

lemma heap_releaseD:
  assumes "heap_inv s F U" "u \<in> set U"
  obtains t F' U' where "kfree s (u + 32) = Some t" "heap_inv t F' U'" "set U' = set U - {u}"
    "data_frame (buckets F U) s t"
proof -
  obtain xs ys where U: "U = xs @ u # ys" using assms(2) by (auto dest: split_list)
  then have "distinct (xs @ u # ys)" using heap_invD(4) [OF assms(1)] by simp
  then have "set (xs @ ys) = set U - {u}" by (auto simp: U)
  then show ?thesis using kfree_lists [of s F xs u ys] assms(1) that unfolding U by blast
qed

interpretation heap: block_allocator heap_ok heap_live heap_byte heap_loc "heap_alloc ra" kfree for ra
proof unfold_locales
  fix s assume "heap_ok s"
  then obtain F U where inv: "heap_inv s F U" by (auto simp: heap_ok_def)
  note lv = heap_live_iff [OF inv] and ok = heap_invD(1) [OF inv]
  show "n = m" if "heap_live s p n" "heap_live s p m" for p n m using that by (auto simp: lv)
  show "heap_loc s p i \<noteq> heap_loc s q j"
    if pq: "heap_live s p n" "heap_live s q m" "p \<noteq> q" "i < n" "j < m" for p q n m i j
  proof -
    obtain u where u: "u \<in> set U" "p = u + 32" "n = bsize s u" using pq(1) by (auto simp: lv)
    obtain v where v: "v \<in> set U" "q = v + 32" "m = bsize s v" using pq(2) by (auto simp: lv)
    have "u \<noteq> v" using pq(3) u(2) v(2) by auto
    then have "sep (kaddr s u + 32) n (kaddr s v + 32) m"
      using blocks_apart [OF ok] u(1,3) v(1,3) buckets_U by metis
    moreover have "in_rng (kaddr s u + 32) n (heap_loc s p i)" "in_rng (kaddr s v + 32) m (heap_loc s q j)"
      using data_byte [OF ok] u v pq(4,5) buckets_U by (metis heap_loc_def)+
    ultimately show ?thesis by (metis sep_not_in)
  qed
  fix n p t
  show "heap_ok t" "\<exists>m\<ge>n. heap_live t p m" "\<not> heap_live s p m" "q \<noteq> p \<Longrightarrow> heap_live t q m \<longleftrightarrow> heap_live s q m"
    "heap_live s q m \<Longrightarrow> k < m \<Longrightarrow> heap_byte t q k = heap_byte s q k"
    if al: "heap_alloc ra s n = Some (p, t)" for q m k
  proof -
    obtain b F' where b: "p = b + 32" "heap_inv t F' (b # U)" "n \<le> bsize t b" "data_frame (buckets F U) s t"
      using heap_allocD [OF inv al] .
    note lt = heap_live_iff [OF b(2)] and sz = kept_size [OF b(4)]
    show "heap_ok t" using b(2) by (auto simp: heap_ok_def)
    show "\<exists>m\<ge>n. heap_live t p m" using b(1,3) by (auto simp: lt)
    show "\<not> heap_live s p m" using heap_invD(4) [OF b(2)] b(1) by (auto simp: lv)
    show "q \<noteq> p \<Longrightarrow> heap_live t q m \<longleftrightarrow> heap_live s q m" using b(1) sz by (auto simp: lt lv)
    show "heap_live s q m \<Longrightarrow> k < m \<Longrightarrow> heap_byte t q k = heap_byte s q k"
      using kept_byte(1) [OF inv _ b(4)] by (auto simp: lv)
  qed
  show "\<exists>t. kfree s p = Some t" "kfree s p = Some t \<Longrightarrow> heap_ok t"
    "kfree s p = Some t \<Longrightarrow> heap_live t q m \<longleftrightarrow> heap_live s q m \<and> q \<noteq> p"
    "kfree s p = Some t \<Longrightarrow> heap_live s q m \<Longrightarrow> q \<noteq> p \<Longrightarrow> k < m \<Longrightarrow> heap_byte t q k = heap_byte s q k"
    if lp: "heap_live s p n" for q m k
  proof -
    obtain u where u: "u \<in> set U" "p = u + 32" using lp by (auto simp: lv)
    obtain t' F' U' where t': "kfree s p = Some t'" "heap_inv t' F' U'" "set U' = set U - {u}"
      "data_frame (buckets F U) s t'" using heap_releaseD [OF inv u(1)] u(2) by metis
    note lt = heap_live_iff [OF t'(2)] and sz = kept_size [OF t'(4)]
    show "\<exists>t. kfree s p = Some t" using t'(1) by blast
    assume "kfree s p = Some t"
    then have t: "t = t'" using t'(1) by simp
    show "heap_ok t" using t'(2) t by (auto simp: heap_ok_def)
    show "heap_live t q m \<longleftrightarrow> heap_live s q m \<and> q \<noteq> p" using u sz t'(3) unfolding t by (auto simp: lt lv)
    show "heap_live s q m \<Longrightarrow> q \<noteq> p \<Longrightarrow> k < m \<Longrightarrow> heap_byte t q k = heap_byte s q k"
      using kept_byte(1) [OF inv _ t'(4)] unfolding t by (auto simp: lv)
  qed
qed



subsection \<open>Where the code does not keep the promise\<close>

lemma last_bucket_sticks_out: "266240 < nbuckets c * stride c + stride c"
  by (cases c) (simp_all add: nbuckets_def stride_def)

text \<open>C39. The formatting of 65 fresh zeroed pages links every formatted bucket to its successor, but the
  last one to an address where no bucket was formatted: its size field is 0, and a block of the
  class there would end after the pages. The loop condition \<^verbatim>\<open>i + size < total_size\<close> and the test
  for the last bucket are the same, so the \<^verbatim>\<open>else\<close> branch that would end the list never runs.\<close>

theorem format_links_past_end:
  assumes "region_ok a" "\<And>x. in_rng a 266240 x \<Longrightarrow> mem s x = 0"
  shows "\<exists>t. free_buckets_format_unused s (phys2safe s a) (of_nat (csize c)) 65 = Some (phys2safe s a, t) \<and>
    chain (\<lambda>b. bget Next b t) (phys2safe s a) (fresh s a c) \<and>
    (\<forall>b\<in>set (butlast (fresh s a c)). bsize t b = csize c) \<and>
    bsize t (last (fresh s a c)) = 0 \<and>
    unat a + 266240 < unat (kaddr s (last (fresh s a c))) + 32 + csize c"
proof -
  obtain t where t: "free_buckets_format_unused s (phys2safe s a) (of_nat (csize c)) 65 = Some (phys2safe s a, t)"
    "\<And>j. j \<le> nbuckets c \<Longrightarrow> bget Next (B s a c j) t = (if j < nbuckets c then B s a c (Suc j) else 0)"
    "\<And>j. j \<le> nbuckets c \<Longrightarrow> bsize t (B s a c j) = (if j < nbuckets c then csize c else 0)"
    using format_fresh [of a s c] assms by blast
  have "chain (nexts t) (phys2safe s a) (fresh s a c)"
    using chain_upt [of 0 "nbuckets c" "nexts t" "B s a c"] t(2) by (simp add: fresh_def bucket_at_def del: upt_Suc)
  moreover have last: "last (fresh s a c) = B s a c (nbuckets c)" by (simp add: fresh_def)
  moreover have "butlast (fresh s a c) = map (B s a c) [0..<nbuckets c]" by (simp add: fresh_def)
  then have "\<forall>b\<in>set (butlast (fresh s a c)). bsize t b = csize c" using t(3) by auto
  moreover have "unat a + 266240 < unat (kaddr s (last (fresh s a c))) + 32 + csize c"
    using last_bucket_sticks_out [of c] unat_kaddr_B [OF assms(1), of "nbuckets c" c s] by (simp add: last stride_def)
  ultimately show ?thesis using t(1) t(3) [of "nbuckets c"] by auto
qed

theorem format_links_past_end_witness:
  "\<exists>t. free_buckets_format_unused demo_state (phys2safe demo_state 0x80421000) 16 65 =
         Some (phys2safe demo_state 0x80421000, t) \<and> bsize t (last (fresh demo_state 0x80421000 C16)) = 0"
proof -
  have "region_ok 0x80421000" by (simp add: region_ok_def window_size_def)
  from format_links_past_end [OF this, of demo_state C16] show ?thesis
    by (auto simp: demo_state_def kstate0_def)
qed

text \<open>When the page pool has no run for a large request, \<^verbatim>\<open>malloc\<close> returns NULL with the MMU off; with
  the MMU on it does not: the failed allocation is taken for a bucket at the start of the kernel
  window, that is at physical address 0.\<close>

theorem malloc_exhausted:
  assumes inv: "heap_inv s F U" and big: "65536 < unat sz" and n: "bpages (unat sz) \<le> npages s"
    and none: "find (free_run s (bpages (unat sz))) [0..<npages s - bpages (unat sz)] = None"
  shows "\<exists>t. malloc s ra sz = Some (if mmu_enabled s then KERNEL_SPACE_OFFSET + 32 else 0, t)"
proof -
  let ?n = "bpages (unat sz)" and ?s = "locked s"
  have m: "\<not> mutating (GLOBAL_ALLOC s)" and lay: "page_layout ?s (npages s)" "\<not> mutating_heap ?s"
    using inv by (auto simp: heap_inv_def heap_core_def pool_inv_def ga_update_def)
  have "free_run ?s ?n = free_run s ?n" by (simp add: free_run_def [abs_def])
  then have "find (free_run ?s ?n) [0..<npages s - ?n] = None" using none by simp
  moreover have "0 < ?n" using big by (simp add: bpages_def)
  ultimately obtain out where al: "alloc_pages ?s (of_nat ?n) = Some (0, ?s\<lparr>console_out := out\<rparr>)"
    using alloc_pages_None [OF lay _ n] by blast
  have "4096 * ?n < 2 ^ 64" using n page_layoutD(3) [OF lay(1)] by simp
  then have pc: "(sz + sizeof_bucket + PAGE_SIZE - 1) div PAGE_SIZE = of_nat ?n" by (rule page_round) simp
  have p0: "phys2safe (?s\<lparr>console_out := out\<rparr>) 0 = (if mmu_enabled s then KERNEL_SPACE_OFFSET else 0)"
    by (simp add: phys2safe_def)
  have cn: "class_of sz = None" "sz \<noteq> 0" "KERNEL_SPACE_OFFSET \<noteq> 0"
    using big by (auto simp: class_of_None KERNEL_SPACE_OFFSET_def)
  have "\<exists>u. take_bucket ?s sz = Some (if mmu_enabled s then KERNEL_SPACE_OFFSET else 0, u)"
    unfolding take_bucket_def cn(1) Let_def pc option.case al Option.bind.bind_lunit prod.case p0 using cn(3) by simp
  then show ?thesis using m cn
    by (auto simp: malloc_def free_buckets_alloc_def sizeof_bucket_def)
qed

text \<open>The same machine with paging on.\<close>

definition demo_paging :: kstate where
  "demo_paging = demo_state\<lparr>satp := 0x8000000000080500\<rparr>"

lemma demo_paging_heap: "heap_inv demo_paging (\<lambda>_. []) []"
proof -
  have lay: "page_layout demo_paging 2048" by (simp add: page_layout_def demo_paging_def demo_state_def kstate0_def window_size_def)
  then have "pool_inv demo_paging"
    by (simp add: pool_inv_def page_layout_npages [OF lay]) (simp add: demo_paging_def demo_state_def kstate0_def)
  then show ?thesis by (rule empty_heap) (simp add: demo_paging_def demo_state_def kstate0_def)
qed

theorem malloc_exhausted_witness:
  "\<exists>t. malloc demo_paging 0 8388576 = Some (KERNEL_SPACE_OFFSET + 32, t)"
proof -
  have "npages demo_paging = 2048" by (simp add: npages_def demo_paging_def demo_state_def)
  moreover have "mmu_enabled demo_paging" by (simp add: mmu_enabled_def demo_paging_def)
  moreover have "bpages (unat (8388576 :: u64)) = 2048" by (simp add: bpages_def)
  ultimately show ?thesis
    using malloc_exhausted [OF demo_paging_heap, of 8388576 0] by simp
qed

end
