(* ===== verification/Mmu.thy ===== *)
theory Mmu
  imports Page_Pool
begin

text \<open>
  \<^verbatim>\<open>kernel/src/mmu.c\<close> and the inline functions of \<^verbatim>\<open>mmu.h\<close>: the three-level page tables. A pointer to an
  entry is a kernel address, NULL is 0; a table is named by its physical address. The CSR
  instructions read and write the field \<open>satp\<close>; \<^verbatim>\<open>sfence.vma\<close> has no effect on the model, which has no
  translation cache. The proofs are in \<open>Mmu_Tables\<close>.
\<close>

subsection \<open>Entries\<close>

definition MMU_BIT_VALID :: u64 where "MMU_BIT_VALID = 0x01"
definition MMU_BIT_READ :: u64 where "MMU_BIT_READ = 0x02"
definition MMU_BIT_WRITE :: u64 where "MMU_BIT_WRITE = 0x04"
definition MMU_BIT_EXEC :: u64 where "MMU_BIT_EXEC = 0x08"
definition MMU_BIT_USER :: u64 where "MMU_BIT_USER = 0x10"
definition MMU_BIT_GLOBAL :: u64 where "MMU_BIT_GLOBAL = 0x20"
definition MMU_BIT_ACCESSED :: u64 where "MMU_BIT_ACCESSED = 0x40"
definition MMU_BIT_DIRTY :: u64 where "MMU_BIT_DIRTY = 0x80"
definition MMU_ALL_BITS :: u64 where "MMU_ALL_BITS = 0x3ff"

definition mmu_root_equal :: "u64 \<Rightarrow> u64 \<Rightarrow> bool" where "mmu_root_equal mmu1 mmu2 \<longleftrightarrow> mmu1 = mmu2"
definition mmu_root_valid :: "u64 \<Rightarrow> bool" where "mmu_root_valid mmu \<longleftrightarrow> mmu \<noteq> 0"
definition mmu_entry_valid :: "u64 \<Rightarrow> bool" where "mmu_entry_valid e \<longleftrightarrow> e AND MMU_BIT_VALID \<noteq> 0"
definition mmu_entry_read :: "u64 \<Rightarrow> bool" where "mmu_entry_read e \<longleftrightarrow> e AND MMU_BIT_READ \<noteq> 0"
definition mmu_entry_write :: "u64 \<Rightarrow> bool" where "mmu_entry_write e \<longleftrightarrow> e AND MMU_BIT_WRITE \<noteq> 0"
definition mmu_entry_exec :: "u64 \<Rightarrow> bool" where "mmu_entry_exec e \<longleftrightarrow> e AND MMU_BIT_EXEC \<noteq> 0"
definition mmu_entry_frame :: "u64 \<Rightarrow> bool" where
  "mmu_entry_frame e \<longleftrightarrow> mmu_entry_read e \<or> mmu_entry_write e \<or> mmu_entry_exec e"
definition mmu_entry_user :: "u64 \<Rightarrow> bool" where "mmu_entry_user e \<longleftrightarrow> e AND MMU_BIT_USER \<noteq> 0"
definition mmu_entry_global :: "u64 \<Rightarrow> bool" where "mmu_entry_global e \<longleftrightarrow> e AND MMU_BIT_GLOBAL \<noteq> 0"
definition mmu_entry_accessed :: "u64 \<Rightarrow> bool" where "mmu_entry_accessed e \<longleftrightarrow> e AND MMU_BIT_ACCESSED \<noteq> 0"
definition mmu_entry_dirty :: "u64 \<Rightarrow> bool" where "mmu_entry_dirty e \<longleftrightarrow> e AND MMU_BIT_DIRTY \<noteq> 0"
definition mmu_entry_flags :: "u64 \<Rightarrow> u64 \<Rightarrow> u64" where
  "mmu_entry_flags e flags = e AND MMU_ALL_BITS AND flags"
definition mmu_entry_phys :: "kstate \<Rightarrow> u64 \<Rightarrow> u64" where
  "mmu_entry_phys s e = phys2safe s (push_bit 2 (e AND NOT MMU_ALL_BITS))"

definition mmu_entry_set_flags :: "u64 \<Rightarrow> u64 \<Rightarrow> kstate \<Rightarrow> kstate" where
  "mmu_entry_set_flags entry flags s =
     (if entry = 0 then s
      else st64 entry (ld64 s entry AND NOT MMU_ALL_BITS OR flags AND MMU_ALL_BITS) s)"

definition mmu_entry_set_phys :: "u64 \<Rightarrow> u64 \<Rightarrow> kstate \<Rightarrow> kstate" where
  "mmu_entry_set_phys entry phys s =
     (if entry = 0 then s
      else st64 entry (ld64 s entry AND MMU_ALL_BITS OR signed_drop_bit 2 (phys AND NOT 0xfff)) s)"

subsection \<open>Tables\<close>

definition vpn0 :: "u64 \<Rightarrow> u64" where "vpn0 addr = signed_drop_bit 30 addr AND 0x1ff"
definition vpn1 :: "u64 \<Rightarrow> u64" where "vpn1 addr = signed_drop_bit 21 addr AND 0x1ff"
definition vpn2 :: "u64 \<Rightarrow> u64" where "vpn2 addr = signed_drop_bit 12 addr AND 0x1ff"
definition page_offset :: "u64 \<Rightarrow> u64" where "page_offset addr = addr AND 0xfff"

definition get_vpns :: "u64 \<Rightarrow> u64 list \<times> u64" where
  "get_vpns addr = ([vpn0 addr, vpn1 addr, vpn2 addr], page_offset addr)"

definition get_mmu :: "kstate \<Rightarrow> u64" where
  "get_mmu s = (if satp s AND 0x8000000000000000 \<noteq> 0 then push_bit 12 (satp s AND 0x00000fffffffffff) else 0)"

definition set_mmu :: "u64 \<Rightarrow> kstate \<Rightarrow> kstate" where
  "set_mmu root s =
     (if mmu_root_valid root then
        if root = get_mmu s then s
        else s\<lparr>satp := 0x8000000000000000 OR signed_drop_bit 12 root\<rparr>
      else s)"

definition MMU_ENTRY_COUNT :: u64 where "MMU_ENTRY_COUNT = 512"
definition MMU_TOP_HALF :: u64 where "MMU_TOP_HALF = MMU_ENTRY_COUNT div 2"

definition mmu_root_get_any :: "kstate \<Rightarrow> u64 \<Rightarrow> u64 \<Rightarrow> u64" where
  "mmu_root_get_any s root i =
     (if \<not> mmu_root_valid root then 0 else if i \<ge> MMU_ENTRY_COUNT then 0 else phys2safe s root + 8 * i)"

definition mmu_root_get :: "kstate \<Rightarrow> u64 \<Rightarrow> u64 \<Rightarrow> u64" where
  "mmu_root_get s root i =
     (let entry = mmu_root_get_any s root i
      in if entry \<noteq> 0 \<and> mmu_entry_valid (ld64 s entry) then entry else 0)"

definition mmu_entry_get_any :: "kstate \<Rightarrow> u64 \<Rightarrow> u64 \<Rightarrow> u64" where
  "mmu_entry_get_any s entry i =
     (if \<not> mmu_entry_valid entry \<or> mmu_entry_frame entry then 0
      else if i \<ge> MMU_ENTRY_COUNT then 0
      else if mmu_entry_phys s entry = 0 then 0
      else phys2safe s (mmu_entry_phys s entry) + 8 * i)"

definition mmu_entry_get :: "kstate \<Rightarrow> u64 \<Rightarrow> u64 \<Rightarrow> u64" where
  "mmu_entry_get s entry i =
     (let next_entry = mmu_entry_get_any s entry i
      in if next_entry \<noteq> 0 \<and> mmu_entry_valid (ld64 s next_entry) then next_entry else 0)"

text \<open>The loops over the remaining indices, \<open>vpns[i], \<dots>, vpns[2]\<close>.\<close>

primrec walk_loop :: "kstate \<Rightarrow> u64 \<Rightarrow> u64 list \<Rightarrow> u64" where
  "walk_loop s entry [] = entry"
| "walk_loop s entry (v # vs) =
     (let entry = mmu_entry_get s (ld64 s entry) v
      in if entry = 0 \<or> mmu_entry_frame (ld64 s entry) then entry else walk_loop s entry vs)"

definition mmu_walk_to_entry :: "kstate \<Rightarrow> u64 \<Rightarrow> u64 \<Rightarrow> u64" where
  "mmu_walk_to_entry s root virt_addr =
     (let (vpns, _) = get_vpns virt_addr;
          entry = mmu_root_get s root (vpns ! 0)
      in if entry = 0 \<or> mmu_entry_frame (ld64 s entry) then entry
         else walk_loop s entry (drop 1 vpns))"

text \<open>The part of the address below a superpage: each remaining index at its place.\<close>

primrec super_offset :: "u64 list \<Rightarrow> u64 \<Rightarrow> u64" where
  "super_offset [] offset = offset"
| "super_offset (v # vs) offset = super_offset vs offset OR push_bit (12 + length vs * 9) v"

primrec translate_loop :: "kstate \<Rightarrow> u64 \<Rightarrow> u64 list \<Rightarrow> u64 \<Rightarrow> u64 option" where
  "translate_loop s entry [] offset =
     (if \<not> mmu_entry_frame (ld64 s entry) then None
      else Some (mmu_entry_phys s (ld64 s entry) OR offset))"
| "translate_loop s entry (v # vs) offset =
     (if mmu_entry_frame (ld64 s entry)
      then Some (mmu_entry_phys s (ld64 s entry) OR super_offset (v # vs) offset)
      else let entry = mmu_entry_get s (ld64 s entry) v
           in if entry = 0 then None else translate_loop s entry vs offset)"

definition mmu_translate :: "kstate \<Rightarrow> u64 \<Rightarrow> u64 \<Rightarrow> u64 option" where
  "mmu_translate s root virt_addr =
     (let (vpns, offset) = get_vpns virt_addr;
          entry = mmu_root_get s root (vpns ! 0)
      in if entry = 0 then None else translate_loop s entry (drop 1 vpns) offset)"

text \<open>The descent of \<^verbatim>\<open>mmu_map\<close>, which creates missing tables; \<open>None\<close> is its early return of -1.\<close>

primrec map_loop :: "kstate \<Rightarrow> u64 \<Rightarrow> u64 list \<Rightarrow> (u64 option \<times> kstate) option" where
  "map_loop s entry [] = Some (Some entry, s)"
| "map_loop s entry (v # vs) =
     (if entry = 0 \<or> mmu_entry_valid (ld64 s entry) \<and> mmu_entry_frame (ld64 s entry) then Some (None, s)
      else do {
        s \<leftarrow> (if \<not> mmu_entry_valid (ld64 s entry) then do {
                (page, s) \<leftarrow> alloc_pages s 1;
                Some (mmu_entry_set_phys entry page (mmu_entry_set_flags entry MMU_BIT_VALID s)) }
              else Some s);
        map_loop s (mmu_entry_get_any s (ld64 s entry) v) vs })"

definition mmu_map :: "kstate \<Rightarrow> u64 \<Rightarrow> u64 \<Rightarrow> u64 \<Rightarrow> u64 \<Rightarrow> (int \<times> kstate) option" where
  "mmu_map s root virt_addr physical flags = do {
     let vpns = fst (get_vpns virt_addr);
     (r, s) \<leftarrow> map_loop s (mmu_root_get_any s root (vpns ! 0)) (drop 1 vpns);
     case r of None \<Rightarrow> Some (- 1, s)
     | Some entry \<Rightarrow>
         if entry = 0 \<or> mmu_entry_valid (ld64 s entry) then Some (- 1, s)
         else Some (0, mmu_entry_set_phys entry physical
                (mmu_entry_set_flags entry (flags OR MMU_BIT_VALID OR MMU_BIT_ACCESSED OR MMU_BIT_DIRTY) s)) }"

definition mmu_alloc :: "kstate \<Rightarrow> u64 \<Rightarrow> u64 \<Rightarrow> u64 \<Rightarrow> (u64 \<times> kstate) option" where
  "mmu_alloc s root virt_addr flags = do {
     (physical, s) \<leftarrow> alloc_pages s 1;
     (r, s) \<leftarrow> mmu_map s root virt_addr physical flags;
     if r \<noteq> 0 then do { s \<leftarrow> dealloc_pages s physical 1; Some (0, s) }
     else Some (physical, s) }"

definition mmu_change_flags :: "u64 \<Rightarrow> u64 \<Rightarrow> u64 \<Rightarrow> kstate \<Rightarrow> kstate" where
  "mmu_change_flags root virt_addr flags s =
     (let entry = mmu_walk_to_entry s root virt_addr
      in if entry \<noteq> 0
         then mmu_entry_set_flags entry (flags OR MMU_BIT_VALID OR MMU_BIT_ACCESSED OR MMU_BIT_DIRTY) s
         else s)"

definition mmu_remove :: "u64 \<Rightarrow> u64 \<Rightarrow> kstate \<Rightarrow> u64 \<times> kstate" where
  "mmu_remove root virt_addr s =
     (let entry = mmu_walk_to_entry s root virt_addr
      in if entry = 0 then (0, s)
         else (mmu_entry_phys s (ld64 s entry), mmu_entry_set_flags entry 0 s))"

partial_function (option) mmu_map_range_identity :: "u64 \<Rightarrow> u64 \<Rightarrow> u64 \<Rightarrow> u64 \<Rightarrow> kstate \<Rightarrow> kstate option" where
  "mmu_map_range_identity root p e flags s =
     (if p < e then do {
        (r, s) \<leftarrow> mmu_map s root p p flags;
        mmu_map_range_identity root (p + PAGE_SIZE) e flags s }
      else Some s)"

text \<open>The addresses the linker script defines.\<close>

record kernel_image =
  text_start :: u64
  data_start :: u64
  ro_data_start :: u64
  sdata_start :: u64
  sdata_end :: u64
  stack_start :: u64
  stack_top :: u64

definition identity_map_kernel :: "kernel_image \<Rightarrow> u64 \<Rightarrow> kstate \<Rightarrow> kstate option" where
  "identity_map_kernel k root s = do {
     s \<leftarrow> mmu_map_range_identity root (text_start k) (data_start k)
           (MMU_BIT_READ OR MMU_BIT_EXEC OR MMU_BIT_GLOBAL) s;
     s \<leftarrow> mmu_map_range_identity root (data_start k) (ro_data_start k)
           (MMU_BIT_READ OR MMU_BIT_WRITE OR MMU_BIT_GLOBAL) s;
     s \<leftarrow> mmu_map_range_identity root (ro_data_start k) (sdata_start k) (MMU_BIT_READ OR MMU_BIT_GLOBAL) s;
     s \<leftarrow> mmu_map_range_identity root (sdata_start k) (sdata_end k)
           (MMU_BIT_READ OR MMU_BIT_WRITE OR MMU_BIT_GLOBAL) s;
     s \<leftarrow> mmu_map_range_identity root (stack_start k) (stack_top k)
           (MMU_BIT_READ OR MMU_BIT_WRITE OR MMU_BIT_GLOBAL) s;
     mmu_map_range_identity root (pages_bottom s) (heap_bottom s)
           (MMU_BIT_READ OR MMU_BIT_WRITE OR MMU_BIT_GLOBAL) s }"

text \<open>The kernel window: one gigabyte per entry of the upper half.\<close>

definition window_entry :: "nat \<Rightarrow> u64" where
  "window_entry i = push_bit 28 (of_nat (i - 256)) OR MMU_BIT_GLOBAL OR MMU_BIT_READ OR MMU_BIT_WRITE OR MMU_BIT_VALID"

definition fill_window :: "u64 \<Rightarrow> kstate \<Rightarrow> kstate" where
  "fill_window tbl s = fold (\<lambda>i. st64 (tbl + of_nat (8 * i)) (window_entry i)) [256..<512] s"

definition create_mmu_table :: "kernel_image \<Rightarrow> kstate \<Rightarrow> (u64 \<times> kstate) option" where
  "create_mmu_table k s = do {
     (page, s) \<leftarrow> alloc_pages s 1;
     let tbl = phys2safe s page;
     let s = fill_window tbl s;
     let root = safe2phys s tbl;
     s \<leftarrow> identity_map_kernel k root s;
     Some (root, s) }"

definition clean_mmu_table :: "u64 \<Rightarrow> kstate \<Rightarrow> kstate" where
  "clean_mmu_table root s = s"

end
