(* ===== verification/Mmu_Tables.thy ===== *)
theory Mmu_Tables
  imports Mmu
begin

text \<open>
  The page tables as a three-level tree of entries (\<open>ent\<close>), the lookup of an address in it
  (\<open>find_entry\<close>), and the invariant \<open>pt\<close> of a tree: every table is a page of the pool that is in use,
  no table has two parents. The operations of \<open>Mmu\<close> are followed on that tree.
\<close>

subsection \<open>Bits of an entry\<close>

lemma vpn_less [simp]: "vpn0 a < 512" "vpn1 a < 512" "vpn2 a < 512"
proof -
  have "x AND 0x1ff < 512" for x :: u64
  proof -
    have "x AND 0x1ff = take_bit 9 x" by (simp add: take_bit_eq_mask mask_eq_exp_minus_1)
    moreover have "unat (take_bit 9 x) < 512"
      using take_bit_nat_less_exp [of 9 "unat x"] by (simp add: unsigned_take_bit_eq)
    ultimately show ?thesis by (simp add: word_less_nat_alt)
  qed
  then show "vpn0 a < 512" "vpn1 a < 512" "vpn2 a < 512" by (simp_all add: vpn0_def vpn1_def vpn2_def)
qed

text \<open>The physical address in an entry.\<close>

definition taddr :: "u64 \<Rightarrow> u64" where "taddr e = push_bit 2 (e AND NOT MMU_ALL_BITS)"

lemma mmu_entry_phys_taddr: "mmu_entry_phys s e = phys2safe s (taddr e)"
  by (simp add: mmu_entry_phys_def taddr_def)

lemma ALL_BITS_mask: "MMU_ALL_BITS = mask 10"
  by (simp add: MMU_ALL_BITS_def mask_eq_exp_minus_1)

text \<open>The entry that \<^verbatim>\<open>mmu_entry_set_flags\<close> and \<^verbatim>\<open>mmu_entry_set_phys\<close> build together.\<close>

definition mk_entry :: "u64 \<Rightarrow> u64 \<Rightarrow> u64" where
  "mk_entry flags phys = (flags AND MMU_ALL_BITS) OR signed_drop_bit 2 (phys AND NOT 0xfff)"

lemma page_mask: "(0xfff :: u64) = mask 12"
  by (simp add: mask_eq_exp_minus_1)

lemma set_flags_phys:
  "entry \<noteq> 0 \<Longrightarrow> mmu_entry_set_phys entry phys (mmu_entry_set_flags entry flags s) =
     st64 entry (mk_entry flags phys) s"
proof -
  assume "entry \<noteq> 0"
  moreover have "(x AND NOT MMU_ALL_BITS OR flags AND MMU_ALL_BITS) AND MMU_ALL_BITS = flags AND MMU_ALL_BITS" for x
    by (rule bit_eqI) (auto simp: bit_simps)
  moreover have "st64 a v (st64 a w s) = st64 a v s" for a v w
    by (simp add: st64_def fun_eq_iff write_le_apply)
  ultimately show ?thesis by (simp add: mmu_entry_set_phys_def mmu_entry_set_flags_def mk_entry_def)
qed

lemma taddr_mk_entry: "taddr (mk_entry flags phys) = phys AND NOT 0xfff"
  unfolding taddr_def mk_entry_def ALL_BITS_mask page_mask
proof (rule bit_word_eqI)
  fix n assume "n < LENGTH(64)"
  then show "bit (push_bit 2 (((flags AND mask 10) OR signed_drop_bit 2 (phys AND NOT (mask 12))) AND NOT (mask 10))) n =
      bit (phys AND NOT (mask 12)) n"
    by (cases n; cases "n - 1") (auto simp: bit_simps)
qed

lemma flags_mk_entry: "mk_entry flags phys AND MMU_ALL_BITS = flags AND MMU_ALL_BITS"
  unfolding mk_entry_def ALL_BITS_mask page_mask
  by (rule bit_eqI) (auto simp: bit_simps)

lemma flag_bits:
  "mmu_entry_valid e \<longleftrightarrow> bit e 0" "mmu_entry_read e \<longleftrightarrow> bit e 1" "mmu_entry_write e \<longleftrightarrow> bit e 2"
  "mmu_entry_exec e \<longleftrightarrow> bit e 3" "mmu_entry_user e \<longleftrightarrow> bit e 4" "mmu_entry_global e \<longleftrightarrow> bit e 5"
  "mmu_entry_accessed e \<longleftrightarrow> bit e 6" "mmu_entry_dirty e \<longleftrightarrow> bit e 7"
proof -
  have "e AND push_bit n 1 \<noteq> 0 \<longleftrightarrow> bit e n" for n
    by (simp add: and_exp_eq_0_iff_not_bit)
  from this [of 0] this [of 1] this [of 2] this [of 3] this [of 4] this [of 5] this [of 6] this [of 7]
  show "mmu_entry_valid e \<longleftrightarrow> bit e 0" "mmu_entry_read e \<longleftrightarrow> bit e 1" "mmu_entry_write e \<longleftrightarrow> bit e 2"
    "mmu_entry_exec e \<longleftrightarrow> bit e 3" "mmu_entry_user e \<longleftrightarrow> bit e 4" "mmu_entry_global e \<longleftrightarrow> bit e 5"
    "mmu_entry_accessed e \<longleftrightarrow> bit e 6" "mmu_entry_dirty e \<longleftrightarrow> bit e 7"
    by (simp_all add: mmu_entry_valid_def mmu_entry_read_def mmu_entry_write_def mmu_entry_exec_def
      mmu_entry_user_def mmu_entry_global_def mmu_entry_accessed_def mmu_entry_dirty_def MMU_BIT_VALID_def
      MMU_BIT_READ_def MMU_BIT_WRITE_def MMU_BIT_EXEC_def MMU_BIT_USER_def MMU_BIT_GLOBAL_def
      MMU_BIT_ACCESSED_def MMU_BIT_DIRTY_def)
qed

lemma mk_entry_bit: "n < 10 \<Longrightarrow> bit (mk_entry flags phys) n = bit flags n"
  unfolding mk_entry_def ALL_BITS_mask page_mask by (auto simp: bit_simps)

subsection \<open>Tables and slots\<close>

text \<open>A table in use, the kernel address of its entry \<open>i\<close>, and that entry.\<close>

definition is_table :: "kstate \<Rightarrow> u64 \<Rightarrow> bool" where
  "is_table s t \<longleftrightarrow> (\<exists>j<npages s. rc s j \<noteq> 0 \<and> t = page_addr s j)"

definition slot :: "kstate \<Rightarrow> u64 \<Rightarrow> u64 \<Rightarrow> u64" where
  "slot s t i = phys2safe s t + 8 * i"

definition ent :: "kstate \<Rightarrow> u64 \<Rightarrow> u64 \<Rightarrow> u64" where
  "ent s t i = ld64 s (slot s t i)"

lemma slot_st64 [simp]: "slot (st64 a v s) = slot s"
  by (simp add: slot_def st64_def fun_eq_iff)

lemma is_table_bounds:
  assumes "pool_inv s" "is_table s t"
  shows "unat t + 4096 < window_size" "t \<noteq> 0" "4096 dvd unat t"
proof -
  obtain j where j: "j < npages s" "t = page_addr s j" using assms(2) by (auto simp: is_table_def)
  have lay: "page_layout s (npages s)" using assms(1) by (simp add: pool_inv_def)
  show "unat t + 4096 < window_size" "t \<noteq> 0" "4096 dvd unat t"
    using j page_layoutD [OF lay] page_addr_nonzero [OF lay, of j] unat_page_addr [OF lay, of j] by auto
qed

lemma slot_kaddr:
  assumes "pool_inv s" "is_table s t" "i < 512"
  shows "kaddr s (slot s t i) = t + 8 * i" "unat (t + 8 * i) = unat t + 8 * unat i"
    "slot s t i \<noteq> 0"
proof -
  have i: "unat i < 512" using assms(3) by (simp add: word_less_nat_alt)
  have t: "unat t + 4096 < window_size" "t \<noteq> 0" using is_table_bounds [OF assms(1,2)] by simp_all
  have sl: "slot s t i = phys2safe s t + of_nat (8 * unat i)" by (simp add: slot_def)
  have b: "unat t + 8 * unat i < window_size" using i t by simp
  show "kaddr s (slot s t i) = t + 8 * i" unfolding sl using kaddr_phys2safe_add [OF b] by simp
  have "unat (t + of_nat (8 * unat i)) = unat t + 8 * unat i"
    by (rule unat_add_nowrap) (use b in \<open>simp add: window_size_def\<close>)
  then show u: "unat (t + 8 * i) = unat t + 8 * unat i" by simp
  have "unat (slot s t i) = (if mmu_enabled s then unat t + 8 * unat i + unat KERNEL_SPACE_OFFSET else unat t + 8 * unat i)"
    unfolding sl phys2safe_add [OF b, symmetric] using b u by (simp add: phys2safe_window window_no_wrap)
  moreover have "0 < unat t" using t(2) by (simp add: unat_gt_0)
  ultimately show "slot s t i \<noteq> 0" by (auto split: if_splits)
qed

lemma slot_in_table:
  assumes "pool_inv s" "is_table s t" "i < 512" "in_rng (kaddr s (slot s t i)) 8 b"
  shows "in_rng t 4096 b"
proof -
  have i: "unat i < 512" using assms(3) by (simp add: word_less_nat_alt)
  have t: "unat t + 4096 < 2 ^ 38" using is_table_bounds [OF assms(1,2)] by (simp add: window_size_def)
  note k = slot_kaddr [OF assms(1-3)]
  have "unat t + 8 * unat i \<le> unat b \<and> unat b < unat t + 8 * unat i + 8"
    using assms(4) i t unfolding k(1) by (subst (asm) in_rng_nat) (simp_all add: k(2))
  then show ?thesis using t i by (subst in_rng_nat) simp_all
qed

lemma table_unique:
  assumes "pool_inv s" "is_table s t" "is_table s t'" "in_rng t 4096 b" "in_rng t' 4096 b"
  shows "t = t'"
  using assms page_unique [of s "npages s"] unfolding is_table_def pool_inv_def by metis

lemma table_held: "pool_inv s \<Longrightarrow> is_table s t \<Longrightarrow> in_rng t 4096 b \<Longrightarrow> pool_held s b"
  unfolding is_table_def pool_held_def by auto

lemma slot_sep:
  assumes "pool_inv s" "is_table s t" "is_table s t'" "i < 512" "i' < 512" "(t, i) \<noteq> (t', i')"
  shows "sep (kaddr s (slot s t i)) 8 (kaddr s (slot s t' i')) 8"
proof (cases "t = t'")
  case False
  show ?thesis
    unfolding sep_def using False slot_in_table [OF assms(1,2,4)] slot_in_table [OF assms(1,3,5)]
      table_unique [OF assms(1-3)] by blast
next
  case True
  then have ne: "unat i \<noteq> unat i'" using assms(6) by (simp add: word_unat_eq_iff)
  have b: "unat i < 512" "unat i' < 512" using assms(4,5) by (simp_all add: word_less_nat_alt)
  have t: "unat t + 4096 < 2 ^ 38" using is_table_bounds [OF assms(1,2)] by (simp add: window_size_def)
  note k = slot_kaddr [OF assms(1,2,4)] slot_kaddr [OF assms(1,3,5)]
  show ?thesis unfolding k(1,4) by (rule sep_nat) (use ne b t True k in auto)
qed

lemma ent_write:
  assumes "pool_inv s" "is_table s t" "is_table s t'" "i < 512" "i' < 512"
  shows "ent (st64 (slot s t i) v s) t' i' = (if t = t' \<and> i = i' then v else ent s t' i')"
proof (cases "t = t' \<and> i = i'")
  case False
  then have "sep (kaddr s (slot s t i)) 8 (kaddr s (slot s t' i')) 8" using slot_sep [OF assms] by auto
  then have "ld64 (st64 (slot s t i) v s) (slot s t' i') = ld64 s (slot s t' i')" by (rule ld64_st64_other)
  then show ?thesis using False by (auto simp: ent_def)
qed (simp add: ent_def)

lemma ent_keep:
  assumes "pool_inv s" "is_table s t" "i < 512" "same_regs s u"
    and "\<And>b. in_rng t 4096 b \<Longrightarrow> mem u b = mem s b"
  shows "ent u t i = ent s t i"
proof -
  note same = same_regs_layout [OF assms(4)]
  have "load64 (mem u) (kaddr s (slot s t i)) = load64 (mem s) (kaddr s (slot s t i))"
    by (rule read_le_cong) (use slot_in_table [OF assms(1-3)] assms(5) in blast)
  then show ?thesis by (simp add: ent_def ld64_def slot_def same)
qed

text \<open>Writing a slot changes no reference count.\<close>

lemma rc_slot_write:
  assumes "pool_inv s" "is_table s t" "i < 512" "j < npages s"
  shows "rc (st64 (slot s t i) v s) j = rc s j"
proof -
  have lay: "page_layout s (npages s)" using assms(1) by (simp add: pool_inv_def)
  obtain k where k: "k < npages s" "t = page_addr s k" using assms(2) by (auto simp: is_table_def)
  have "\<not> in_rng (rc_ptr s j) (2 * 1) b" if "in_rng (kaddr s (slot s t i)) 8 b" for b
    by (rule pool_above_table [OF lay k(1)])
      (use slot_in_table [OF assms(1-3) that] k assms(4) in simp_all)
  then have "sep (kaddr s (slot s t i)) 8 (rc_ptr s j) 2" by (simp add: sep_def)
  then show ?thesis
    using kaddr_rc_ptr [OF lay, of j] assms(4)
    by (simp add: rc_def ld16_def st64_def read_write_le_sep)
qed

lemma slot_write:
  assumes "pool_inv s" "is_table s t" "i < 512"
  shows "pool_inv (st64 (slot s t i) v s)" "is_table (st64 (slot s t i) v s) = is_table s"
    "npages (st64 (slot s t i) v s) = npages s" "pool_held (st64 (slot s t i) v s) = pool_held s"
    "phys2safe (st64 (slot s t i) v s) = phys2safe s"
proof -
  let ?u = "st64 (slot s t i) v s"
  have regs: "same_regs s ?u" by simp
  note same = same_regs_layout [OF regs]
  show "pool_inv ?u" using assms(1) same by (simp add: pool_inv_def)
  show "is_table ?u = is_table s" "pool_held ?u = pool_held s"
    using rc_slot_write [OF assms] same by (auto simp: is_table_def pool_held_def fun_eq_iff)
  show "npages ?u = npages s" "phys2safe ?u = phys2safe s" by (rule same)+
qed

subsection \<open>One fresh table\<close>

text \<open>The pages \<^verbatim>\<open>alloc_pages(1)\<close> can still hand out.\<close>

definition free_pages :: "kstate \<Rightarrow> nat" where
  "free_pages s = card {j. j < npages s - 1 \<and> rc s j = 0}"

lemma free_pages_write:
  assumes "pool_inv s" "is_table s t" "i < 512"
  shows "free_pages (st64 (slot s t i) v s) = free_pages s"
proof -
  have "{j. j < npages s - 1 \<and> rc (st64 (slot s t i) v s) j = 0} = {j. j < npages s - 1 \<and> rc s j = 0}"
    using rc_slot_write [OF assms] by auto
  then show ?thesis by (simp add: free_pages_def slot_write [OF assms])
qed

lemma alloc_table:
  assumes inv: "pool_inv s" and free: "0 < free_pages s"
  obtains p u where "alloc_pages s 1 = Some (p, u)" "pool_inv u" "same_regs s u" "is_table u p" "\<not> is_table s p"
    "\<And>t. is_table s t \<Longrightarrow> is_table u t" "\<And>i. i < 512 \<Longrightarrow> ent u p i = 0"
    "\<And>b. pool_held s b \<Longrightarrow> mem u b = mem s b" "free_pages u = free_pages s - 1"
    "\<And>b. pool_held u b \<longleftrightarrow> pool_held s b \<or> in_rng p 4096 b"
proof -
  let ?N = "npages s"
  have lay: "page_layout s ?N" "\<not> mutating_heap s" using inv by (simp_all add: pool_inv_def)
  obtain k where "k < ?N - 1" "rc s k = 0" using free by (auto simp: free_pages_def card_gt_0_iff)
  then have run: "k < ?N - 1" "free_run s 1 k" and N: "1 \<le> ?N" by (auto simp: free_run_def)
  obtain i where i: "find (free_run s 1) [0..<?N - 1] = Some i"
    using run by (cases "find (free_run s 1) [0..<?N - 1]") (auto simp: find_None_iff)
  then have iN: "i < ?N - 1" "rc s i = 0" by (auto simp: find_Some_iff free_run_def)
  from alloc_pages_Some [OF lay _ N i] obtain u
    where u: "alloc_pages s 1 = Some (page_addr s i, u)" "pages_taken s ?N i 1 u" by auto
  have pa: "pool_alloc s 1 = Some (page_addr s i, u)"
    using u N page_addr_nonzero [OF lay(1), of i] iN by (simp add: pool_alloc_def)
  have "rc u j = (if i \<le> j \<and> j < i + 1 then 1 else rc s j)" if "j < ?N" for j
    using u(2) that unfolding pages_taken_def by blast
  then have rcu: "rc u j = (if j = i then 1 else rc s j)" if "j < ?N" for j using that by (auto split: if_splits)
  have regs: "same_regs s u" using u(2) by (simp add: pages_taken_def)
  note same = same_regs_layout [OF regs]
  have inj: "j = i" if "page_addr s j = page_addr s i" "j < ?N" for j
  proof -
    have le: "j \<le> ?N" "i \<le> ?N" using that(2) iN by simp_all
    have "unat (page_addr s j) = unat (heap_bottom s) + 4096 * j" "unat (page_addr s i) = unat (heap_bottom s) + 4096 * i"
      by (rule unat_page_addr [OF lay(1) le(1)], rule unat_page_addr [OF lay(1) le(2)])
    then have "4096 * j = 4096 * i" unfolding that(1) by (metis add_left_cancel)
    then show "j = i" by simp
  qed
  have invu: "pool_inv u" by (rule pool.alloc_inv [OF inv pa])
  have tab: "is_table u (page_addr s i)"
    unfolding is_table_def same(1,3) by (rule exI [of _ i]) (use iN rcu [of i] in simp)
  have zero: "mem u b = 0" if "in_rng (page_addr s i) 4096 b" for b
    using pool.alloc_zero [OF inv pa, of b] that by simp
  show thesis
  proof (rule that [of "page_addr s i" u])
    show "\<not> is_table s (page_addr s i)" using inj iN by (auto simp: is_table_def)
    show "is_table u t" if "is_table s t" for t
      using that rcu unfolding is_table_def same(1,3) by (metis zero_neq_one)
    show "ent u (page_addr s i) j = 0" if "j < 512" for j
    proof -
      have "load64 (mem u) (kaddr u (slot u (page_addr s i) j)) = load64 (\<lambda>_. 0) (kaddr u (slot u (page_addr s i) j))"
        by (rule read_le_cong) (use slot_in_table [OF invu tab that] zero in simp)
      then show ?thesis by (simp add: ent_def ld64_def read_le_zero)
    qed
    have "{j. j < ?N - 1 \<and> rc u j = 0} = {j. j < ?N - 1 \<and> rc s j = 0} - {i}"
      using rcu by (auto split: if_splits)
    then show "free_pages u = free_pages s - 1" using iN by (simp add: free_pages_def same)
    show "mem u b = mem s b" if "pool_held s b" for b using pool.alloc_keeps [OF inv pa that] .
    show "pool_held u b \<longleftrightarrow> pool_held s b \<or> in_rng (page_addr s i) 4096 b" for b
      using pool.alloc_held [OF inv pa, of b] by simp
  qed (use u(1) regs tab invu in simp_all)
qed

end
