(* ===== verification/Mmu_Tree.thy ===== *)
theory Mmu_Tree
  imports Mmu_Tables
begin

text \<open>
  The three-level tree as a function from tables and indices to entries, independent of memory:
  its lookup, its shape, and what the three kinds of writes of \<^verbatim>\<open>mmu_map\<close> do to both.
\<close>

definition is_dir :: "u64 \<Rightarrow> bool" where
  "is_dir e \<longleftrightarrow> mmu_entry_valid e \<and> \<not> mmu_entry_frame e"

text \<open>The entry that decides about an address with the indices \<open>a\<close>, \<open>b\<close>, \<open>c\<close>: its level, table and index.\<close>

definition find_entry :: "(u64 \<Rightarrow> u64 \<Rightarrow> u64) \<Rightarrow> u64 \<Rightarrow> u64 \<Rightarrow> u64 \<Rightarrow> u64 \<Rightarrow> (nat \<times> u64 \<times> u64) option" where
  "find_entry E root a b c =
     (if \<not> mmu_entry_valid (E root a) then None
      else if mmu_entry_frame (E root a) then Some (0, root, a)
      else let t1 = taddr (E root a)
           in if \<not> mmu_entry_valid (E t1 b) then None
              else if mmu_entry_frame (E t1 b) then Some (1, t1, b)
              else let t2 = taddr (E t1 b)
                   in if mmu_entry_valid (E t2 c) then Some (2, t2, c) else None)"

text \<open>The shape of a tree with second-level tables \<open>T1\<close> and third-level tables \<open>T2\<close>.\<close>

definition shape :: "(u64 \<Rightarrow> u64 \<Rightarrow> u64) \<Rightarrow> u64 \<Rightarrow> u64 set \<Rightarrow> u64 set \<Rightarrow> bool" where
  "shape E root T1 T2 \<longleftrightarrow>
     root \<notin> T1 \<and> root \<notin> T2 \<and> T1 \<inter> T2 = {} \<and>
     (\<forall>i<512. is_dir (E root i) \<longrightarrow> taddr (E root i) \<in> T1) \<and>
     (\<forall>t\<in>T1. \<forall>i<512. is_dir (E t i) \<longrightarrow> taddr (E t i) \<in> T2) \<and>
     (\<forall>t\<in>T2. \<forall>i<512. \<not> is_dir (E t i)) \<and>
     (\<forall>i<512. \<forall>i'<512. is_dir (E root i) \<and> is_dir (E root i') \<and> taddr (E root i) = taddr (E root i') \<longrightarrow> i = i') \<and>
     (\<forall>t\<in>T1. \<forall>t'\<in>T1. \<forall>i<512. \<forall>i'<512.
        is_dir (E t i) \<and> is_dir (E t' i') \<and> taddr (E t i) = taddr (E t' i') \<longrightarrow> t = t' \<and> i = i')"

definition upd :: "(u64 \<Rightarrow> u64 \<Rightarrow> u64) \<Rightarrow> u64 \<Rightarrow> u64 \<Rightarrow> u64 \<Rightarrow> u64 \<Rightarrow> u64 \<Rightarrow> u64" where
  "upd E t i v = (\<lambda>t' i'. if t' = t \<and> i' = i then v else E t' i')"

text \<open>Trees that agree on their tables.\<close>

definition agree :: "u64 set \<Rightarrow> (u64 \<Rightarrow> u64 \<Rightarrow> u64) \<Rightarrow> (u64 \<Rightarrow> u64 \<Rightarrow> u64) \<Rightarrow> bool" where
  "agree T E E' \<longleftrightarrow> (\<forall>t\<in>T. \<forall>i<512. E' t i = E t i)"

abbreviation tabs :: "u64 \<Rightarrow> u64 set \<Rightarrow> u64 set \<Rightarrow> u64 set" where
  "tabs root T1 T2 \<equiv> insert root (T1 \<union> T2)"

lemma shapeD:
  assumes "shape E root T1 T2"
  shows "root \<notin> T1" "root \<notin> T2" "t \<in> T1 \<Longrightarrow> t \<notin> T2"
    and "i < 512 \<Longrightarrow> is_dir (E root i) \<Longrightarrow> taddr (E root i) \<in> T1"
    and "t \<in> T1 \<Longrightarrow> i < 512 \<Longrightarrow> is_dir (E t i) \<Longrightarrow> taddr (E t i) \<in> T2"
    and "t \<in> T2 \<Longrightarrow> i < 512 \<Longrightarrow> \<not> is_dir (E t i)"
    and "i < 512 \<Longrightarrow> i' < 512 \<Longrightarrow> is_dir (E root i) \<Longrightarrow> is_dir (E root i') \<Longrightarrow> taddr (E root i) = taddr (E root i') \<Longrightarrow> i = i'"
    and "t \<in> T1 \<Longrightarrow> t' \<in> T1 \<Longrightarrow> i < 512 \<Longrightarrow> i' < 512 \<Longrightarrow> is_dir (E t i) \<Longrightarrow> is_dir (E t' i') \<Longrightarrow>
      taddr (E t i) = taddr (E t' i') \<Longrightarrow> t = t' \<and> i = i'"
  using assms unfolding shape_def by blast+

lemma agreeD: "agree T E E' \<Longrightarrow> t \<in> T \<Longrightarrow> i < 512 \<Longrightarrow> E' t i = E t i"
  by (simp add: agree_def)

lemma shape_agree: "agree (tabs root T1 T2) E E' \<Longrightarrow> shape E root T1 T2 \<Longrightarrow> shape E' root T1 T2"
  unfolding shape_def agree_def by simp

lemma find_entry_cong:
  assumes "E' root a = E root a"
    and "is_dir (E root a) \<Longrightarrow> E' (taddr (E root a)) b = E (taddr (E root a)) b"
    and "is_dir (E root a) \<Longrightarrow> is_dir (E (taddr (E root a)) b) \<Longrightarrow>
      E' (taddr (E (taddr (E root a)) b)) c = E (taddr (E (taddr (E root a)) b)) c"
  shows "find_entry E' root a b c = find_entry E root a b c"
  using assms unfolding find_entry_def Let_def is_dir_def by simp

lemma find_entry_agree:
  assumes "agree (tabs root T1 T2) E E'" "shape E root T1 T2" "a < 512" "b < 512" "c < 512"
  shows "find_entry E' root a b c = find_entry E root a b c"
proof -
  have r: "E' root a = E root a" using assms by (simp add: agree_def)
  have l1: "E' (taddr (E root a)) b = E (taddr (E root a)) b" if "is_dir (E root a)"
    using shapeD(4) [OF assms(2,3) that] assms(1,4) by (simp add: agree_def)
  have l2: "E' (taddr (E (taddr (E root a)) b)) c = E (taddr (E (taddr (E root a)) b)) c"
    if "is_dir (E root a)" "is_dir (E (taddr (E root a)) b)"
    using shapeD(5) [OF assms(2) shapeD(4) [OF assms(2,3) that(1)] assms(4) that(2)] assms(1,5)
    by (simp add: agree_def)
  show ?thesis by (rule find_entry_cong) (use r l1 l2 in auto)
qed

lemma find_entry_valid:
  assumes "shape E root T1 T2" "a < 512" "b < 512" "c < 512" "find_entry E root a b c = Some (l, t, i)"
  shows "t \<in> tabs root T1 T2" "i < 512" "mmu_entry_valid (E t i)" "mmu_entry_frame (E t i)" "l \<le> 2"
proof -
  have l1: "taddr (E root a) \<in> T1" if "is_dir (E root a)" by (rule shapeD(4) [OF assms(1,2) that])
  have l2: "taddr (E (taddr (E root a)) b) \<in> T2" if "is_dir (E root a)" "is_dir (E (taddr (E root a)) b)"
    by (rule shapeD(5) [OF assms(1) l1 [OF that(1)] assms(3) that(2)])
  show "t \<in> tabs root T1 T2" "i < 512" "mmu_entry_valid (E t i)" "l \<le> 2" "mmu_entry_frame (E t i)"
    using assms(2-5) l1 l2 shapeD(6) [OF assms(1) l2 assms(4)]
    by (auto simp: find_entry_def Let_def is_dir_def split: if_splits)
qed

lemma zero_entry [simp]: "\<not> mmu_entry_valid 0" "\<not> is_dir 0"
  by (simp_all add: mmu_entry_valid_def is_dir_def)

lemma upd_simps [simp]: "upd E t i v t i = v" "(t', i') \<noteq> (t, i) \<Longrightarrow> upd E t i v t' i' = E t' i'"
  by (auto simp: upd_def)

text \<open>A fresh, empty table hung into the root or into a second-level table.\<close>

lemma install0:
  assumes sh: "shape E root T1 T2" and a: "a < 512" "\<not> mmu_entry_valid (E root a)"
    and p: "p \<notin> tabs root T1 T2" "\<And>i. i < 512 \<Longrightarrow> E p i = 0" and v: "is_dir v" "taddr v = p"
  shows "shape (upd E root a v) root (insert p T1) T2"
    and "x < 512 \<Longrightarrow> y < 512 \<Longrightarrow> z < 512 \<Longrightarrow> find_entry (upd E root a v) root x y z = find_entry E root x y z"
proof -
  let ?E = "upd E root a v"
  have ne: "p \<noteq> root" "p \<notin> T1" "p \<notin> T2" using p(1) by auto
  have oth: "?E t i = E t i" if "t \<noteq> root" for t i using that by simp
  have rt: "?E root i = (if i = a then v else E root i)" for i by (simp add: upd_def)
  have par: "taddr (E root i) \<noteq> p" if "i < 512" "is_dir (E root i)" for i
    using shapeD(4) [OF sh that] ne by auto
  have T: "t \<noteq> root" if "t \<in> T1 \<or> t \<in> T2" for t using that shapeD(1,2) [OF sh] by auto
  show "shape ?E root (insert p T1) T2"
    unfolding shape_def
  proof (intro conjI ballI allI impI)
    show "root \<notin> insert p T1" "root \<notin> T2" "insert p T1 \<inter> T2 = {}"
      using ne shapeD(1-3) [OF sh] by auto
    show "taddr (?E root i) \<in> insert p T1" if "i < 512" "is_dir (?E root i)" for i
      using that v shapeD(4) [OF sh] by (auto simp: rt split: if_splits)
    show "taddr (?E t i) \<in> T2" if "t \<in> insert p T1" "i < 512" "is_dir (?E t i)" for t i
      using that shapeD(5) [OF sh] p(2) T ne oth by auto
    show "\<not> is_dir (?E t i)" if "t \<in> T2" "i < 512" for t i
      using that shapeD(6) [OF sh] T oth by auto
    show "i = i'" if "i < 512" "i' < 512" "is_dir (?E root i) \<and> is_dir (?E root i') \<and> taddr (?E root i) = taddr (?E root i')" for i i'
      using that shapeD(7) [OF sh, of i i'] par v by (auto simp: rt split: if_splits)
    show "t = t'" "i = i'" if "t \<in> insert p T1" "t' \<in> insert p T1" "i < 512" "i' < 512"
      "is_dir (?E t i) \<and> is_dir (?E t' i') \<and> taddr (?E t i) = taddr (?E t' i')" for t t' i i'
      using that shapeD(8) [OF sh, of t t' i i'] p(2) T ne oth by auto
  qed
  show "find_entry ?E root x y z = find_entry E root x y z" if "x < 512" "y < 512" "z < 512"
  proof (cases "x = a")
    case True
    then show ?thesis using a v p(2) [OF that(2)] oth [OF ne(1)] by (simp add: find_entry_def is_dir_def Let_def)
  next
    case False
    have "?E root x = E root x" using False by simp
    moreover have "taddr (E root x) \<noteq> root" if "is_dir (E root x)"
      using shapeD(4) [OF sh \<open>x < 512\<close> that] T by auto
    moreover have "taddr (E (taddr (E root x)) y) \<noteq> root" if "is_dir (E root x)" "is_dir (E (taddr (E root x)) y)"
      using shapeD(5) [OF sh shapeD(4) [OF sh \<open>x < 512\<close> that(1)] \<open>y < 512\<close> that(2)] T by auto
    ultimately show ?thesis using oth by (intro find_entry_cong) auto
  qed
qed

lemma install1:
  assumes sh: "shape E root T1 T2" and t1: "t1 \<in> T1" and b: "b < 512" "\<not> mmu_entry_valid (E t1 b)"
    and p: "p \<notin> tabs root T1 T2" "\<And>i. i < 512 \<Longrightarrow> E p i = 0" and v: "is_dir v" "taddr v = p"
  shows "shape (upd E t1 b v) root T1 (insert p T2)"
    and "x < 512 \<Longrightarrow> y < 512 \<Longrightarrow> z < 512 \<Longrightarrow> find_entry (upd E t1 b v) root x y z = find_entry E root x y z"
proof -
  let ?E = "upd E t1 b v"
  have ne: "p \<noteq> root" "p \<notin> T1" "p \<notin> T2" "t1 \<noteq> root" "t1 \<notin> T2" "p \<noteq> t1"
    using p(1) t1 shapeD(1,3) [OF sh] by auto
  have oth: "?E t i = E t i" if "t \<noteq> t1" for t i using that by simp
  have tt: "?E t1 i = (if i = b then v else E t1 i)" for i by (simp add: upd_def)
  have par: "taddr (E t i) \<noteq> p" if "t \<in> T1" "i < 512" "is_dir (E t i)" for t i
    using shapeD(5) [OF sh that] ne by auto
  show "shape ?E root T1 (insert p T2)"
    unfolding shape_def
  proof (intro conjI ballI allI impI)
    show "root \<notin> T1" "root \<notin> insert p T2" "T1 \<inter> insert p T2 = {}"
      using ne shapeD(1-3) [OF sh] by auto
    show "taddr (?E root i) \<in> T1" if "i < 512" "is_dir (?E root i)" for i
      using that shapeD(4) [OF sh] ne oth by auto
    show "taddr (?E t i) \<in> insert p T2" if "t \<in> T1" "i < 512" "is_dir (?E t i)" for t i
      using that shapeD(5) [OF sh] v by (cases "t = t1") (auto simp: tt split: if_splits)
    show "\<not> is_dir (?E t i)" if "t \<in> insert p T2" "i < 512" for t i
      using that shapeD(6) [OF sh, of t i] ne p(2) [of i] oth [of t i] by (cases "t = t1") auto
    show "i = i'" if "i < 512" "i' < 512" "is_dir (?E root i) \<and> is_dir (?E root i') \<and> taddr (?E root i) = taddr (?E root i')" for i i'
      using that shapeD(7) [OF sh, of i i'] ne oth by auto
    fix t t' i i'
    assume H: "t \<in> T1" "t' \<in> T1" "i < 512" "i' < 512"
      "is_dir (?E t i) \<and> is_dir (?E t' i') \<and> taddr (?E t i) = taddr (?E t' i')"
    have "t = t' \<and> i = i'"
    proof (cases "(t, i) = (t1, b)"; cases "(t', i') = (t1, b)")
      assume "(t, i) = (t1, b)" "(t', i') \<noteq> (t1, b)"
      then show ?thesis using H par [of t' i'] v by auto
    next
      assume "(t, i) \<noteq> (t1, b)" "(t', i') = (t1, b)"
      then show ?thesis using H par [of t i] v by auto
    next
      assume "(t, i) \<noteq> (t1, b)" "(t', i') \<noteq> (t1, b)"
      then show ?thesis using H shapeD(8) [OF sh, of t t' i i'] by auto
    qed auto
    then show "t = t'" "i = i'" by auto
  qed
  show "find_entry ?E root x y z = find_entry E root x y z" if "x < 512" "y < 512" "z < 512"
  proof -
    have r: "?E root x = E root x" using ne by simp
    have l2: "taddr (E (taddr (E root x)) y) \<noteq> t1" if "is_dir (E root x)" "is_dir (E (taddr (E root x)) y)"
      using shapeD(5) [OF sh shapeD(4) [OF sh \<open>x < 512\<close> that(1)] \<open>y < 512\<close> that(2)] ne by auto
    show ?thesis
    proof (cases "(taddr (E root x), y) = (t1, b)")
      case True
      then show ?thesis using r b v p(2) [OF \<open>z < 512\<close>] oth [of p] ne
        unfolding find_entry_def Let_def is_dir_def by simp
    next
      case False
      then show ?thesis using r l2 oth by (intro find_entry_cong) auto
    qed
  qed
qed

text \<open>The entry of a page, at the end of the path \<open>a\<close>, \<open>b\<close>, \<open>c\<close>.\<close>

lemma write_leaf:
  assumes sh: "shape E root T1 T2" and i: "a < 512" "b < 512" "c < 512"
    and d: "is_dir (E root a)" "t1 = taddr (E root a)" "is_dir (E t1 b)" "t2 = taddr (E t1 b)"
    and v: "\<not> is_dir v"
  shows "shape (upd E t2 c v) root T1 T2"
    and "x < 512 \<Longrightarrow> y < 512 \<Longrightarrow> z < 512 \<Longrightarrow> find_entry (upd E t2 c v) root x y z =
      (if (x, y, z) = (a, b, c) then if mmu_entry_valid v then Some (2, t2, c) else None else find_entry E root x y z)"
proof -
  let ?E = "upd E t2 c v"
  have t: "t1 \<in> T1" "t2 \<in> T2" using shapeD(4) [OF sh i(1) d(1)] shapeD(5) [OF sh _ i(2) d(3)] d by auto
  have ne: "t2 \<noteq> root" "t2 \<notin> T1" using t shapeD(2,3) [OF sh] by auto
  have oth: "?E t i = E t i" if "t \<noteq> t2" for t i using that by simp
  have oth1: "?E t i = E t i" if "t = root \<or> t \<in> T1" for t i using that ne by (metis oth)
  show "shape ?E root T1 T2"
    using sh v unfolding shape_def by (auto simp: oth1 ball_Un) (auto simp: upd_def split: if_splits)
  show "find_entry ?E root x y z =
      (if (x, y, z) = (a, b, c) then if mmu_entry_valid v then Some (2, t2, c) else None else find_entry E root x y z)"
    if xyz: "x < 512" "y < 512" "z < 512"
  proof (cases "is_dir (E root x) \<and> is_dir (E (taddr (E root x)) y) \<and> taddr (E (taddr (E root x)) y) = t2")
    case True
    then have s1: "taddr (E root x) \<in> T1" using shapeD(4) [OF sh xyz(1)] by simp
    have "taddr (E root x) = t1 \<and> y = b"
      using shapeD(8) [OF sh s1 t(1) xyz(2) i(2)] True d by simp
    then have "x = a" "y = b" using shapeD(7) [OF sh xyz(1) i(1)] True d by simp_all
    then have "?E root x = E root a" "?E t1 y = E t1 b" "?E t2 z = (if z = c then v else E t2 z)"
      using oth1 t(1) by (simp_all add: upd_def)
    then show ?thesis using d \<open>x = a\<close> \<open>y = b\<close> unfolding find_entry_def Let_def is_dir_def by simp
  next
    case False
    have s1: "taddr (E root x) \<in> T1" if "is_dir (E root x)" using shapeD(4) [OF sh xyz(1) that] .
    have "(x, y, z) \<noteq> (a, b, c)" using False d by auto
    then have "find_entry ?E root x y z = find_entry E root x y z"
      using False oth1 oth s1 by (intro find_entry_cong) auto
    then show ?thesis using \<open>(x, y, z) \<noteq> (a, b, c)\<close> by auto
  qed
qed

text \<open>A frame replaced by another frame, or by nothing, at any level.\<close>

lemma rewrite_frame:
  assumes sh: "shape E root T1 T2" and e: "mmu_entry_valid (E t i)" "\<not> is_dir (E t i)" and v: "\<not> is_dir v"
  shows "shape (upd E t i v) root T1 T2"
    and "x < 512 \<Longrightarrow> y < 512 \<Longrightarrow> z < 512 \<Longrightarrow> find_entry (upd E t i v) root x y z =
      (case find_entry E root x y z of None \<Rightarrow> None
       | Some (l, t', i') \<Rightarrow> if (t', i') = (t, i) then if mmu_entry_valid v then Some (l, t, i) else None
                          else Some (l, t', i'))"
proof -
  let ?E = "upd E t i v"
  have dir: "is_dir (?E t' i') \<longleftrightarrow> is_dir (E t' i')" for t' i' using e v by (simp add: upd_def)
  have same: "?E t' i' = E t' i'" if "is_dir (E t' i')" for t' i' using that e by (auto simp: upd_def)
  show "shape ?E root T1 T2"
    unfolding shape_def dir
  proof (intro conjI ballI allI impI)
    show "root \<notin> T1" "root \<notin> T2" "T1 \<inter> T2 = {}" using sh by (simp_all add: shape_def)
    show "taddr (?E root j) \<in> T1" if "j < 512" "is_dir (E root j)" for j
      using shapeD(4) [OF sh that] same that by simp
    show "taddr (?E u j) \<in> T2" if "u \<in> T1" "j < 512" "is_dir (E u j)" for u j
      using shapeD(5) [OF sh that] same that by simp
    show "\<not> is_dir (E u j)" if "u \<in> T2" "j < 512" for u j using shapeD(6) [OF sh that] .
    show "j = k" if "j < 512" "k < 512" "is_dir (E root j) \<and> is_dir (E root k) \<and> taddr (?E root j) = taddr (?E root k)" for j k
      using shapeD(7) [OF sh that(1,2)] that(3) same [of root j] same [of root k] by metis
    show "u = w" "j = k" if "u \<in> T1" "w \<in> T1" "j < 512" "k < 512"
      "is_dir (E u j) \<and> is_dir (E w k) \<and> taddr (?E u j) = taddr (?E w k)" for u w j k
      using shapeD(8) [OF sh that(1-4)] that(5) same [of u j] same [of w k] by metis+
  qed
  show "find_entry ?E root x y z =
      (case find_entry E root x y z of None \<Rightarrow> None
       | Some (l, t', i') \<Rightarrow> if (t', i') = (t, i) then if mmu_entry_valid v then Some (l, t, i) else None
                          else Some (l, t', i'))"
    if xyz: "x < 512" "y < 512" "z < 512"
  proof -
    define e0 where "e0 = E root x"
    define e1 where "e1 = E (taddr e0) y"
    define e2 where "e2 = E (taddr e1) z"
    have nd2: "\<not> is_dir e2" if "is_dir e0" "is_dir e1"
      using shapeD(6) [OF sh shapeD(5) [OF sh shapeD(4) [OF sh xyz(1)] xyz(2)] xyz(3)] that
      by (simp add: e0_def e1_def e2_def)
    have E0: "?E root x = (if (root, x) = (t, i) then v else e0)" by (auto simp: upd_def e0_def)
    have E1: "?E (taddr e0) y = (if (taddr e0, y) = (t, i) then v else e1)" by (auto simp: upd_def e1_def)
    have E2: "?E (taddr e1) z = (if (taddr e1, z) = (t, i) then v else e2)" by (auto simp: upd_def e2_def)
    have F: "(root, x) = (t, i) \<Longrightarrow> mmu_entry_valid e0 \<and> mmu_entry_frame e0"
      "(taddr e0, y) = (t, i) \<Longrightarrow> mmu_entry_valid e1 \<and> mmu_entry_frame e1"
      "(taddr e1, z) = (t, i) \<Longrightarrow> mmu_entry_valid e2 \<and> mmu_entry_frame e2"
      using e by (auto simp: e0_def e1_def e2_def is_dir_def)
    have V: "mmu_entry_valid v \<Longrightarrow> mmu_entry_frame v" using v by (simp add: is_dir_def)
    have old: "find_entry E root x y z = (if \<not> mmu_entry_valid e0 then None else if mmu_entry_frame e0 then Some (0, root, x)
       else if \<not> mmu_entry_valid e1 then None else if mmu_entry_frame e1 then Some (1, taddr e0, y)
       else if mmu_entry_valid e2 then Some (2, taddr e1, z) else None)"
      by (simp add: find_entry_def Let_def e0_def e1_def e2_def)
    show ?thesis
    proof (cases "is_dir e0")
      case False
      then show ?thesis using E0 F(1) V old by (auto simp: find_entry_def is_dir_def Let_def)
    next
      case d0: True
      then have E0': "?E root x = e0" using same [of root x] by (simp add: e0_def)
      show ?thesis
      proof (cases "is_dir e1")
        case False
        then show ?thesis using d0 E0' E1 F(2) V old by (auto simp: find_entry_def is_dir_def Let_def)
      next
        case d1: True
        then have E1': "?E (taddr e0) y = e1" using same [of "taddr e0" y] by (simp add: e1_def)
        then show ?thesis using d0 d1 E0' E2 F(3) V old by (auto simp: find_entry_def is_dir_def Let_def)
      qed
    qed
  qed
qed

end
