(* ===== verification/Mmu_Map.thy ===== *)
theory Mmu_Map
  imports Mmu_Tree
begin

text \<open>
  The operations of \<^verbatim>\<open>mmu.c\<close> on a page table that satisfies \<open>pt\<close>: lookups are those of the tree, and
  \<^verbatim>\<open>mmu_map\<close> adds exactly one page.
\<close>

subsection \<open>The invariant\<close>

definition pt :: "kstate \<Rightarrow> u64 \<Rightarrow> u64 set \<Rightarrow> u64 set \<Rightarrow> bool" where
  "pt s root T1 T2 \<longleftrightarrow> pool_inv s \<and> (\<forall>t\<in>tabs root T1 T2. is_table s t) \<and> shape (ent s) root T1 T2"

lemma ptD:
  assumes "pt s root T1 T2"
  shows "pool_inv s" "is_table s root" "t \<in> T1 \<Longrightarrow> is_table s t" "t \<in> T2 \<Longrightarrow> is_table s t"
    "shape (ent s) root T1 T2" "t \<in> tabs root T1 T2 \<Longrightarrow> is_table s t"
  using assms by (auto simp: pt_def)

text \<open>The steps from an entry to the next table.\<close>

lemma phys2safe_twice:
  assumes "unat t < window_size" "t \<noteq> 0"
  shows "phys2safe s (phys2safe s t) = phys2safe s t"
proof (cases "mmu_enabled s")
  case True
  have "0 < unat t" using assms(2) by (simp add: unat_gt_0)
  moreover have "phys2safe s t = t + KERNEL_SPACE_OFFSET" using True assms(1) by (simp add: phys2safe_window)
  ultimately have "\<not> phys2safe s t \<le> KERNEL_SPACE_OFFSET"
    using assms(1) by (simp add: word_le_nat_alt window_no_wrap)
  then show ?thesis by (simp add: phys2safe_def)
qed (simp add: phys2safe_def)

lemma root_slot:
  "pool_inv s \<Longrightarrow> is_table s root \<Longrightarrow> i < 512 \<Longrightarrow> mmu_root_get_any s root i = slot s root i"
  using is_table_bounds(2) [of s root] by (auto simp: mmu_root_get_any_def mmu_root_valid_def MMU_ENTRY_COUNT_def slot_def dest: leD)

lemma entry_slot:
  assumes "pool_inv s" "is_dir e" "is_table s (taddr e)" "i < 512"
  shows "mmu_entry_get_any s e i = slot s (taddr e) i"
proof -
  have t: "unat (taddr e) < window_size" "taddr e \<noteq> 0" using is_table_bounds [OF assms(1,3)] by simp_all
  then show ?thesis
    using assms(2,4) phys2safe_twice [OF t] phys2safe_nonzero [OF t]
    by (auto simp: mmu_entry_get_any_def is_dir_def mmu_entry_phys_taddr MMU_ENTRY_COUNT_def slot_def dest: leD)
qed

subsection \<open>Lookups\<close>

definition path :: "u64 \<Rightarrow> u64 \<times> u64 \<times> u64" where "path va = (vpn0 va, vpn1 va, vpn2 va)"

abbreviation entry_of :: "kstate \<Rightarrow> u64 \<Rightarrow> u64 \<Rightarrow> (nat \<times> u64 \<times> u64) option" where
  "entry_of s root va \<equiv> find_entry (ent s) root (vpn0 va) (vpn1 va) (vpn2 va)"

text \<open>The part of an address that an entry of level \<open>l\<close> does not translate.\<close>

definition low_part :: "nat \<Rightarrow> u64 \<Rightarrow> u64" where
  "low_part l va = super_offset (drop l [vpn1 va, vpn2 va]) (page_offset va)"

lemma pt_path:
  assumes "pt s root T1 T2"
  shows "is_dir (ent s root (vpn0 va)) \<Longrightarrow> taddr (ent s root (vpn0 va)) \<in> T1"
    and "is_dir (ent s root (vpn0 va)) \<Longrightarrow> is_dir (ent s (taddr (ent s root (vpn0 va))) (vpn1 va)) \<Longrightarrow>
      taddr (ent s (taddr (ent s root (vpn0 va))) (vpn1 va)) \<in> T2"
  using shapeD(4,5) [OF ptD(5) [OF assms]] by auto

lemma walk_find:
  assumes "pt s root T1 T2"
  shows "mmu_walk_to_entry s root va = (case entry_of s root va of None \<Rightarrow> 0 | Some (l, t, i) \<Rightarrow> slot s t i)"
    and "mmu_translate s root va =
      map_option (\<lambda>(l, t, i). mmu_entry_phys s (ent s t i) OR low_part l va) (entry_of s root va)"
proof -
  note inv = ptD(1) [OF assms]
  define e0 where "e0 = ent s root (vpn0 va)"
  define e1 where "e1 = ent s (taddr e0) (vpn1 va)"
  define e2 where "e2 = ent s (taddr e1) (vpn2 va)"
  have r: "mmu_root_get s root (vpn0 va) = (if mmu_entry_valid e0 then slot s root (vpn0 va) else 0)"
    "slot s root (vpn0 va) \<noteq> 0" "ld64 s (slot s root (vpn0 va)) = e0"
    using root_slot [OF inv ptD(2) [OF assms]] slot_kaddr(3) [OF inv ptD(2) [OF assms]]
    by (simp_all add: mmu_root_get_def Let_def e0_def ent_def)
  have n1: "mmu_entry_get s e0 (vpn1 va) = (if mmu_entry_valid e1 then slot s (taddr e0) (vpn1 va) else 0)"
    "slot s (taddr e0) (vpn1 va) \<noteq> 0" "ld64 s (slot s (taddr e0) (vpn1 va)) = e1" if d: "is_dir e0"
  proof -
    have t: "is_table s (taddr e0)" using ptD(3) [OF assms] pt_path(1) [OF assms] d by (simp add: e0_def)
    show "mmu_entry_get s e0 (vpn1 va) = (if mmu_entry_valid e1 then slot s (taddr e0) (vpn1 va) else 0)"
      "slot s (taddr e0) (vpn1 va) \<noteq> 0" "ld64 s (slot s (taddr e0) (vpn1 va)) = e1"
      using entry_slot [OF inv d t] slot_kaddr(3) [OF inv t] by (simp_all add: mmu_entry_get_def Let_def e1_def ent_def)
  qed
  have n2: "mmu_entry_get s e1 (vpn2 va) = (if mmu_entry_valid e2 then slot s (taddr e1) (vpn2 va) else 0)"
    "slot s (taddr e1) (vpn2 va) \<noteq> 0" "ld64 s (slot s (taddr e1) (vpn2 va)) = e2" "mmu_entry_valid e2 \<Longrightarrow> mmu_entry_frame e2"
    if d: "is_dir e0" "is_dir e1"
  proof -
    have T2: "taddr e1 \<in> T2" using pt_path(2) [OF assms] d by (simp add: e0_def e1_def)
    have t: "is_table s (taddr e1)" using ptD(4) [OF assms T2] .
    show "mmu_entry_get s e1 (vpn2 va) = (if mmu_entry_valid e2 then slot s (taddr e1) (vpn2 va) else 0)"
      "slot s (taddr e1) (vpn2 va) \<noteq> 0" "ld64 s (slot s (taddr e1) (vpn2 va)) = e2"
      using entry_slot [OF inv d(2) t] slot_kaddr(3) [OF inv t] by (simp_all add: mmu_entry_get_def Let_def e2_def ent_def)
    show "mmu_entry_valid e2 \<Longrightarrow> mmu_entry_frame e2"
      using shapeD(6) [OF ptD(5) [OF assms] T2, of "vpn2 va"] by (simp add: e2_def is_dir_def)
  qed
  have fe: "entry_of s root va =
     (if \<not> mmu_entry_valid e0 then None else if mmu_entry_frame e0 then Some (0, root, vpn0 va)
      else if \<not> mmu_entry_valid e1 then None else if mmu_entry_frame e1 then Some (1, taddr e0, vpn1 va)
      else if mmu_entry_valid e2 then Some (2, taddr e1, vpn2 va) else None)"
    by (simp add: find_entry_def Let_def e0_def e1_def e2_def)
  consider "\<not> mmu_entry_valid e0" | "mmu_entry_valid e0" "mmu_entry_frame e0" | "is_dir e0" "\<not> mmu_entry_valid e1"
    | "is_dir e0" "mmu_entry_valid e1" "mmu_entry_frame e1" | "is_dir e0" "is_dir e1" by (auto simp: is_dir_def)
  note cases = this
  show "mmu_walk_to_entry s root va = (case entry_of s root va of None \<Rightarrow> 0 | Some (l, t, i) \<Rightarrow> slot s t i)"
    unfolding mmu_walk_to_entry_def get_vpns_def
    by (rule cases) (use r n1 n2 fe in \<open>auto simp: is_dir_def Let_def\<close>)
  show "mmu_translate s root va =
      map_option (\<lambda>(l, t, i). mmu_entry_phys s (ent s t i) OR low_part l va) (entry_of s root va)"
    unfolding mmu_translate_def get_vpns_def
    by (rule cases)
      (use r n1 n2 fe in \<open>auto simp: is_dir_def Let_def low_part_def e0_def [symmetric] e1_def [symmetric] e2_def [symmetric]\<close>)
qed

subsection \<open>Writes\<close>

text \<open>
  \<open>extends s root T1 T2 u T1' T2'\<close>: the table has grown from \<open>s\<close> to \<open>u\<close> without harm to anyone else;
  pages in use stay in use, and those outside the table keep their content.
\<close>

definition extends :: "kstate \<Rightarrow> u64 \<Rightarrow> u64 set \<Rightarrow> u64 set \<Rightarrow> kstate \<Rightarrow> u64 set \<Rightarrow> u64 set \<Rightarrow> bool" where
  "extends s root T1 T2 u T1' T2' \<longleftrightarrow>
     pt u root T1' T2' \<and> same_regs s u \<and> T1 \<subseteq> T1' \<and> T2 \<subseteq> T2' \<and>
     (\<forall>t. is_table s t \<longrightarrow> is_table u t) \<and> (\<forall>b. pool_held s b \<longrightarrow> pool_held u b) \<and>
     (\<forall>b. pool_held s b \<longrightarrow> \<not> (\<exists>t\<in>tabs root T1 T2. in_rng t 4096 b) \<longrightarrow>
        \<not> (\<exists>t\<in>tabs root T1' T2'. in_rng t 4096 b) \<and> mem u b = mem s b)"

lemma extends_refl: "pt s root T1 T2 \<Longrightarrow> extends s root T1 T2 s T1 T2"
  by (simp add: extends_def)

lemma extends_trans:
  assumes su: "extends s root T1 T2 u T1' T2'" and uw: "extends u root T1' T2' w T1'' T2''"
  shows "extends s root T1 T2 w T1'' T2''"
proof -
  have "same_regs s w" using su uw same_regs_trans unfolding extends_def by blast
  moreover have "T1 \<subseteq> T1''" "T2 \<subseteq> T2''" using su uw unfolding extends_def by blast+
  moreover have "is_table w t" if "is_table s t" for t using that su uw unfolding extends_def by blast
  moreover have "pool_held w b" if "pool_held s b" for b using that su uw unfolding extends_def by blast
  moreover have "\<not> (\<exists>t\<in>tabs root T1'' T2''. in_rng t 4096 b) \<and> mem w b = mem s b"
    if b: "pool_held s b" "\<not> (\<exists>t\<in>tabs root T1 T2. in_rng t 4096 b)" for b
  proof -
    have u: "pool_held u b" "\<not> (\<exists>t\<in>tabs root T1' T2'. in_rng t 4096 b)" "mem u b = mem s b"
      using su b unfolding extends_def by blast+
    then show ?thesis using uw unfolding extends_def by metis
  qed
  ultimately show ?thesis using uw unfolding extends_def by blast
qed

text \<open>A slot of a table of the tree is written.\<close>

lemma pt_write:
  assumes pt: "pt s root T1 T2" and t: "t \<in> tabs root T1 T2" "i < 512"
    and sh: "shape (upd (ent s) t i v) root T1 T2"
  defines "u \<equiv> st64 (slot s t i) v s"
  shows "extends s root T1 T2 u T1 T2" "agree (tabs root T1 T2) (upd (ent s) t i v) (ent u)"
    "free_pages u = free_pages s" "is_table u = is_table s" "phys2safe u = phys2safe s"
proof -
  note inv = ptD(1) [OF pt] and tab = ptD(6) [OF pt]
  note w = slot_write [OF inv tab [OF t(1)] t(2), of v, folded u_def]
  show ag: "agree (tabs root T1 T2) (upd (ent s) t i v) (ent u)"
    using ent_write [OF inv tab [OF t(1)] tab t(2)] by (auto simp: agree_def upd_def u_def)
  show "free_pages u = free_pages s" unfolding u_def by (rule free_pages_write [OF inv tab [OF t(1)] t(2)])
  show "is_table u = is_table s" "phys2safe u = phys2safe s" by (rule w)+
  have "pt u root T1 T2" unfolding pt_def using shape_agree [OF ag sh] w tab by simp
  moreover have "mem u b = mem s b" if "\<not> in_rng t 4096 b" for b
  proof -
    have "\<not> in_rng (kaddr s (slot s t i)) 8 b" using slot_in_table [OF inv tab [OF t(1)] t(2)] that by blast
    then show ?thesis by (simp add: u_def st64_def write_le_other)
  qed
  ultimately show "extends s root T1 T2 u T1 T2" using t(1) w by (auto simp: extends_def u_def)
qed

text \<open>A fresh page becomes a table: first the allocation, which leaves the tree as it is.\<close>

lemma pt_alloc:
  assumes pt: "pt s root T1 T2" and free: "0 < free_pages s"
  obtains p u where "alloc_pages s 1 = Some (p, u)" "pt u root T1 T2" "extends s root T1 T2 u T1 T2"
    "agree (tabs root T1 T2) (ent s) (ent u)" "is_table u p" "\<not> is_table s p" "p \<notin> tabs root T1 T2"
    "\<And>i. i < 512 \<Longrightarrow> ent u p i = 0" "free_pages u = free_pages s - 1" "\<And>t. is_table s t \<Longrightarrow> is_table u t"
    "phys2safe u = phys2safe s" "\<And>b. pool_held s b \<Longrightarrow> \<not> in_rng p 4096 b"
proof -
  note inv = ptD(1) [OF pt] and tab = ptD(6) [OF pt]
  obtain p u where u: "alloc_pages s 1 = Some (p, u)" "pool_inv u" "same_regs s u" "is_table u p" "\<not> is_table s p"
    "\<And>t. is_table s t \<Longrightarrow> is_table u t" "\<And>i. i < 512 \<Longrightarrow> ent u p i = 0"
    "\<And>b. pool_held s b \<Longrightarrow> mem u b = mem s b" "free_pages u = free_pages s - 1"
    "\<And>b. pool_held u b \<longleftrightarrow> pool_held s b \<or> in_rng p 4096 b"
    by (rule alloc_table [OF inv free]) (rule that)
  have ag: "agree (tabs root T1 T2) (ent s) (ent u)"
    unfolding agree_def using ent_keep [OF inv tab _ u(3)] table_held [OF inv tab] u(8) by blast
  have ptu: "pt u root T1 T2"
    unfolding pt_def using u(2,6) tab shape_agree [OF ag ptD(5) [OF pt]] by blast
  have np: "\<not> in_rng p 4096 b" if held: "pool_held s b" for b
  proof
    assume b: "in_rng p 4096 b"
    obtain j where j: "j < npages s" "rc s j \<noteq> 0" "in_rng (page_addr s j) 4096 b"
      using held unfolding pool_held_def by blast
    then have "is_table s (page_addr s j)" by (auto simp: is_table_def)
    then show False using table_unique [OF u(2,4) u(6) b j(3)] u(5) by auto
  qed
  have "extends s root T1 T2 u T1 T2" using ptu u(3,6,8,10) by (simp add: extends_def)
  then show thesis
    using that [of p u] u ag ptu np tab same_regs_layout(7) [OF u(3)] by metis
qed

text \<open>Then the entry that points to it, in the root or in a second-level table.\<close>

lemma page_aligned: "4096 dvd unat p \<Longrightarrow> p AND NOT 0xfff = (p :: u64)"
proof -
  assume "4096 dvd unat p"
  then have "unat (take_bit 12 p) = 0" by (simp add: take_bit_eq_mod unat_mod)
  then have "take_bit 12 p = 0" by (simp add: unat_eq_0)
  then have "\<not> bit p n" if "n < 12" for n using that by (metis bit_take_bit_iff bit_0_eq bot_apply bot_bool_def)
  then show ?thesis unfolding page_mask by (intro bit_word_eqI) (auto simp: bit_simps)
qed

lemma dir_entry:
  assumes "pool_inv s" "is_table s p"
  shows "is_dir (mk_entry MMU_BIT_VALID p)" "taddr (mk_entry MMU_BIT_VALID p) = p"
proof -
  have "p AND NOT 0xfff = p" by (rule page_aligned) (rule is_table_bounds(3) [OF assms])
  then show "taddr (mk_entry MMU_BIT_VALID p) = p" by (simp add: taddr_mk_entry)
  have "bit (MMU_BIT_VALID :: u64) n \<longleftrightarrow> n = 0" for n by (auto simp: MMU_BIT_VALID_def bit_1_iff)
  then show "is_dir (mk_entry MMU_BIT_VALID p)"
    by (simp add: is_dir_def mmu_entry_frame_def flag_bits mk_entry_bit)
qed

lemma pt_install:
  assumes pt: "pt s root T1 T2" and t: "t = root \<or> t \<in> T1" and i: "i < 512" "\<not> mmu_entry_valid (ent s t i)"
    and free: "0 < free_pages s"
  obtains p u w T1' T2' where "alloc_pages s 1 = Some (p, u)"
    "mmu_entry_set_phys (slot s t i) p (mmu_entry_set_flags (slot s t i) MMU_BIT_VALID u) = w"
    "extends s root T1 T2 w T1' T2'" "is_dir (ent w t i)" "\<And>j. j < 512 \<Longrightarrow> ent w (taddr (ent w t i)) j = 0"
    "\<And>t' i'. t' \<in> tabs root T1 T2 \<Longrightarrow> i' < 512 \<Longrightarrow> (t', i') \<noteq> (t, i) \<Longrightarrow> ent w t' i' = ent s t' i'"
    "\<And>x y z. x < 512 \<Longrightarrow> y < 512 \<Longrightarrow> z < 512 \<Longrightarrow> find_entry (ent w) root x y z = find_entry (ent s) root x y z"
    "free_pages w = free_pages s - 1"
proof -
  have tt: "t \<in> tabs root T1 T2" using t by auto
  obtain p u where u: "alloc_pages s 1 = Some (p, u)" "pt u root T1 T2" "extends s root T1 T2 u T1 T2"
    "agree (tabs root T1 T2) (ent s) (ent u)" "is_table u p" "\<not> is_table s p" "p \<notin> tabs root T1 T2"
    "\<And>i. i < 512 \<Longrightarrow> ent u p i = 0" "free_pages u = free_pages s - 1" "\<And>t. is_table s t \<Longrightarrow> is_table u t"
    "phys2safe u = phys2safe s" "\<And>b. pool_held s b \<Longrightarrow> \<not> in_rng p 4096 b"
    by (rule pt_alloc [OF pt free]) (rule that)
  note inv = ptD(1) [OF u(2)] and tab = ptD(6) [OF u(2)]
  define v where "v = mk_entry MMU_BIT_VALID p"
  define w where "w = st64 (slot u t i) v u"
  define T1' where "T1' = (if t = root then insert p T1 else T1)"
  define T2' where "T2' = (if t = root then T2 else insert p T2)"
  have v: "is_dir v" "taddr v = p" unfolding v_def by (rule dir_entry [OF inv u(5)])+
  have sl: "slot u t i = slot s t i" by (simp add: slot_def u(11))
  have "slot s t i \<noteq> 0" using slot_kaddr(3) [OF inv tab [OF tt] i(1)] sl by simp
  then have w: "mmu_entry_set_phys (slot s t i) p (mmu_entry_set_flags (slot s t i) MMU_BIT_VALID u) = w"
    by (simp add: set_flags_phys w_def v_def sl)
  have nv: "\<not> mmu_entry_valid (ent u t i)" using agreeD [OF u(4) tt i(1)] i(2) by simp
  have sh: "shape (upd (ent u) t i v) root T1' T2'"
    "x < 512 \<Longrightarrow> y < 512 \<Longrightarrow> z < 512 \<Longrightarrow> find_entry (upd (ent u) t i v) root x y z = find_entry (ent u) root x y z" for x y z
    using install0 [OF ptD(5) [OF u(2)] i(1) _ u(7,8) v] install1 [OF ptD(5) [OF u(2)] _ i(1) nv u(7,8) v] nv t
      shapeD(1) [OF ptD(5) [OF u(2)]] by (auto simp: T1'_def T2'_def split: if_splits)
  have T': "tabs root T1' T2' = insert p (tabs root T1 T2)" by (auto simp: T1'_def T2'_def)
  have ptu': "is_table u t'" if "t' \<in> tabs root T1' T2'" for t' using that u(5) tab unfolding T' by blast
  have ag: "agree (tabs root T1' T2') (upd (ent u) t i v) (ent w)"
    using ent_write [OF inv tab [OF tt] ptu' i(1)] by (auto simp: agree_def upd_def w_def)
  note sw = slot_write [OF inv tab [OF tt] i(1), of v, folded w_def]
  have ptw: "pt w root T1' T2'" unfolding pt_def using sw ptu' shape_agree [OF ag sh(1)] by simp
  have out: "mem w b = mem u b" if "\<not> in_rng t 4096 b" for b
  proof -
    have "\<not> in_rng (kaddr u (slot u t i)) 8 b" using slot_in_table [OF inv tab [OF tt] i(1)] that by blast
    then show ?thesis by (simp add: w_def st64_def write_le_other)
  qed
  have ext: "extends s root T1 T2 w T1' T2'"
    unfolding extends_def
  proof (intro conjI allI impI)
    show "same_regs s w" using u(3) same_regs_trans [of s u w] by (simp add: extends_def w_def)
    show "T1 \<subseteq> T1'" "T2 \<subseteq> T2'" by (auto simp: T1'_def T2'_def)
    show "is_table w t'" if "is_table s t'" for t' using u(10) [OF that] sw by simp
    show "pool_held w b" if "pool_held s b" for b using u(3) that sw by (simp add: extends_def)
    show "\<not> (\<exists>t\<in>tabs root T1' T2'. in_rng t 4096 b)" "mem w b = mem s b"
      if b: "pool_held s b" "\<not> (\<exists>t\<in>tabs root T1 T2. in_rng t 4096 b)" for b
    proof -
      show "\<not> (\<exists>t\<in>tabs root T1' T2'. in_rng t 4096 b)" unfolding T' using b u(12) by blast
      have "mem u b = mem s b" using u(3) b unfolding extends_def by blast
      then show "mem w b = mem s b" using out b(2) tt by metis
    qed
  qed (rule ptw)
  have wt: "ent w t i = v" unfolding w_def using ent_write [OF inv tab [OF tt] tab [OF tt] i(1) i(1)] by simp
  show thesis
  proof (rule that [OF u(1) w ext])
    show "is_dir (ent w t i)" using v wt by simp
    show "ent w (taddr (ent w t i)) j = 0" if "j < 512" for j
      using ent_write [OF inv tab [OF tt] u(5) i(1) that, of v] u(7,8) that tt wt v by (auto simp: w_def)
    show "ent w t' i' = ent s t' i'" if "t' \<in> tabs root T1 T2" "i' < 512" "(t', i') \<noteq> (t, i)" for t' i'
      using ent_write [OF inv tab [OF tt] tab [OF that(1)] i(1) that(2), of v] that agreeD [OF u(4)] by (auto simp: w_def)
    show "find_entry (ent w) root x y z = find_entry (ent s) root x y z" if "x < 512" "y < 512" "z < 512" for x y z
      using find_entry_agree [OF ag sh(1) that] sh(2) [OF that] find_entry_agree [OF u(4) ptD(5) [OF pt] that] by simp
    show "free_pages w = free_pages s - 1"
      using free_pages_write [OF inv tab [OF tt] i(1)] u(9) by (simp add: w_def)
  qed
qed

subsection \<open>Mapping a page\<close>

text \<open>Valid entries are not overwritten.\<close>

definition keeps :: "kstate \<Rightarrow> u64 set \<Rightarrow> kstate \<Rightarrow> bool" where
  "keeps s T w \<longleftrightarrow> (\<forall>t\<in>T. \<forall>i<512. mmu_entry_valid (ent s t i) \<longrightarrow> ent w t i = ent s t i)"

lemma keepsD: "keeps s T w \<Longrightarrow> t \<in> T \<Longrightarrow> i < 512 \<Longrightarrow> mmu_entry_valid (ent s t i) \<Longrightarrow> ent w t i = ent s t i"
  by (simp add: keeps_def)

lemma keeps_trans: "keeps s T u \<Longrightarrow> keeps u T' w \<Longrightarrow> T \<subseteq> T' \<Longrightarrow> keeps s T w"
  unfolding keeps_def by (metis subsetD)

text \<open>One round of the loop of \<^verbatim>\<open>mmu_map\<close>, on an entry that is free or points to a table.\<close>

lemma map_round:
  assumes pt: "pt s root T1 T2" and t: "t = root \<or> t \<in> T1" and i: "i < 512"
    and nf: "\<not> (mmu_entry_valid (ent s t i) \<and> mmu_entry_frame (ent s t i))"
    and free: "0 < free_pages s"
  obtains w T1' T2' where "\<And>v vs. map_loop s (slot s t i) (v # vs) = map_loop w (mmu_entry_get_any w (ent w t i) v) vs"
    "extends s root T1 T2 w T1' T2'" "is_dir (ent w t i)" "keeps s (tabs root T1 T2) w"
    "\<And>x y z. x < 512 \<Longrightarrow> y < 512 \<Longrightarrow> z < 512 \<Longrightarrow> find_entry (ent w) root x y z = find_entry (ent s) root x y z"
    "free_pages s - 1 \<le> free_pages w"
proof (cases "mmu_entry_valid (ent s t i)")
  case True
  have "slot s t i \<noteq> 0" using slot_kaddr(3) [OF ptD(1) [OF pt] ptD(6) [OF pt] i] t by blast
  then have "map_loop s (slot s t i) (v # vs) = map_loop s (mmu_entry_get_any s (ent s t i) v) vs" for v vs
    using True nf by (simp add: ent_def)
  then show thesis
    using that [of s T1 T2] True nf extends_refl [OF pt] by (simp add: is_dir_def keeps_def)
next
  case False
  have sl: "slot s t i \<noteq> 0" using slot_kaddr(3) [OF ptD(1) [OF pt] ptD(6) [OF pt] i] t by blast
  obtain p u w T1' T2' where w: "alloc_pages s 1 = Some (p, u)"
    "mmu_entry_set_phys (slot s t i) p (mmu_entry_set_flags (slot s t i) MMU_BIT_VALID u) = w"
    "extends s root T1 T2 w T1' T2'" "is_dir (ent w t i)" "\<And>j. j < 512 \<Longrightarrow> ent w (taddr (ent w t i)) j = 0"
    "\<And>t' i'. t' \<in> tabs root T1 T2 \<Longrightarrow> i' < 512 \<Longrightarrow> (t', i') \<noteq> (t, i) \<Longrightarrow> ent w t' i' = ent s t' i'"
    "\<And>x y z. x < 512 \<Longrightarrow> y < 512 \<Longrightarrow> z < 512 \<Longrightarrow> find_entry (ent w) root x y z = find_entry (ent s) root x y z"
    "free_pages w = free_pages s - 1"
    by (rule pt_install [OF pt t i False free]) (rule that)
  have "ld64 w (slot s t i) = ent w t i"
    using w(3) same_regs_layout(7) [of s w] by (simp add: extends_def ent_def slot_def)
  then have "map_loop s (slot s t i) (v # vs) = map_loop w (mmu_entry_get_any w (ent w t i) v) vs" for v vs
    using False sl w(1,2) by (simp add: ent_def)
  moreover have "keeps s (tabs root T1 T2) w" unfolding keeps_def using w(6) False by blast
  ultimately show thesis using that [of w T1' T2'] w by simp
qed

lemma leaf_entry:
  assumes "flags AND (MMU_BIT_READ OR MMU_BIT_WRITE OR MMU_BIT_EXEC) \<noteq> 0"
  shows "mmu_entry_valid (mk_entry (flags OR MMU_BIT_VALID OR MMU_BIT_ACCESSED OR MMU_BIT_DIRTY) pa)"
    and "mmu_entry_frame (mk_entry (flags OR MMU_BIT_VALID OR MMU_BIT_ACCESSED OR MMU_BIT_DIRTY) pa)"
proof -
  let ?f = "flags OR MMU_BIT_VALID OR MMU_BIT_ACCESSED OR MMU_BIT_DIRTY"
  have "bit ?f 0" by (simp add: bit_or_iff MMU_BIT_VALID_def)
  then show "mmu_entry_valid (mk_entry ?f pa)" by (simp add: flag_bits mk_entry_bit)
  obtain n where "bit (flags AND (MMU_BIT_READ OR MMU_BIT_WRITE OR MMU_BIT_EXEC)) n" using assms by (metis bit_eqI bit_0_eq bot_apply bot_bool_def)
  then have "bit flags n" "bit (0xe :: u64) n"
    by (auto simp: bit_and_iff MMU_BIT_READ_def MMU_BIT_WRITE_def MMU_BIT_EXEC_def)
  moreover have "(0xe :: u64) = push_bit 1 (mask 3)" by (simp add: mask_eq_exp_minus_1)
  ultimately have "bit flags n" "bit (push_bit 1 (mask 3) :: u64) n" by metis+
  then have "bit flags n" "n = 1 \<or> n = 2 \<or> n = 3"
    unfolding bit_push_bit_iff bit_mask_iff by auto
  then have "bit ?f 1 \<or> bit ?f 2 \<or> bit ?f 3" by (auto simp: bit_or_iff)
  then show "mmu_entry_frame (mk_entry ?f pa)" by (auto simp: mmu_entry_frame_def flag_bits mk_entry_bit)
qed

lemma map_new:
  assumes pt: "pt s root T1 T2" and none: "entry_of s root va = None" and free: "2 \<le> free_pages s"
    and flags: "flags AND (MMU_BIT_READ OR MMU_BIT_WRITE OR MMU_BIT_EXEC) \<noteq> 0"
  obtains w T1' T2' t2 where "mmu_map s root va pa flags = Some (0, w)" "extends s root T1 T2 w T1' T2'"
    "free_pages s - 2 \<le> free_pages w" "entry_of w root va = Some (2, t2, vpn2 va)"
    "ent w t2 (vpn2 va) = mk_entry (flags OR MMU_BIT_VALID OR MMU_BIT_ACCESSED OR MMU_BIT_DIRTY) pa"
    "\<And>va'. path va' \<noteq> path va \<Longrightarrow> entry_of w root va' = entry_of s root va'"
    "keeps s (tabs root T1 T2) w"
proof -
  define a b c where abc: "a = vpn0 va" "b = vpn1 va" "c = vpn2 va"
  have i: "a < 512" "b < 512" "c < 512" by (simp_all add: abc)
  have none': "find_entry (ent s) root a b c = None" using none by (simp add: abc)
  have nf0: "\<not> (mmu_entry_valid (ent s root a) \<and> mmu_entry_frame (ent s root a))"
    using none' by (auto simp: find_entry_def)
  have free1: "0 < free_pages s" using free by simp
  obtain u A1 A2 where u: "\<And>v vs. map_loop s (slot s root a) (v # vs) = map_loop u (mmu_entry_get_any u (ent u root a) v) vs"
    "extends s root T1 T2 u A1 A2" "is_dir (ent u root a)" "keeps s (tabs root T1 T2) u"
    "\<And>x y z. x < 512 \<Longrightarrow> y < 512 \<Longrightarrow> z < 512 \<Longrightarrow> find_entry (ent u) root x y z = find_entry (ent s) root x y z"
    "free_pages s - 1 \<le> free_pages u"
    by (rule map_round [OF pt disjI1 [OF refl] i(1) nf0 free1]) (rule that)
  define t1 where "t1 = taddr (ent u root a)"
  have ptu: "pt u root A1 A2" using u(2) by (simp add: extends_def)
  have t1: "t1 \<in> A1" using shapeD(4) [OF ptD(5) [OF ptu] i(1) u(3)] by (simp add: t1_def)
  have s1: "mmu_entry_get_any u (ent u root a) b = slot u t1 b"
    unfolding t1_def by (rule entry_slot [OF ptD(1) [OF ptu] u(3) _ i(2)]) (use ptD(3) [OF ptu t1] t1_def in simp)
  have nf1: "\<not> (mmu_entry_valid (ent u t1 b) \<and> mmu_entry_frame (ent u t1 b))"
    using none' u(5) [OF i] u(3) by (auto simp: find_entry_def is_dir_def t1_def Let_def)
  have free2: "0 < free_pages u" using free u(6) by simp
  obtain w B1 B2 where w: "\<And>v vs. map_loop u (slot u t1 b) (v # vs) = map_loop w (mmu_entry_get_any w (ent w t1 b) v) vs"
    "extends u root A1 A2 w B1 B2" "is_dir (ent w t1 b)" "keeps u (tabs root A1 A2) w"
    "\<And>x y z. x < 512 \<Longrightarrow> y < 512 \<Longrightarrow> z < 512 \<Longrightarrow> find_entry (ent w) root x y z = find_entry (ent u) root x y z"
    "free_pages u - 1 \<le> free_pages w"
    by (rule map_round [OF ptu disjI2 [OF t1] i(2) nf1 free2]) (rule that)
  define t2 where "t2 = taddr (ent w t1 b)"
  have ptw: "pt w root B1 B2" using w(2) by (simp add: extends_def)
  have e0: "ent w root a = ent u root a" using keepsD [OF w(4) _ i(1)] u(3) by (simp add: is_dir_def)
  have t1B: "t1 \<in> B1" using t1 w(2) by (auto simp: extends_def)
  have t2: "t2 \<in> B2" using shapeD(5) [OF ptD(5) [OF ptw] t1B i(2) w(3)] by (simp add: t2_def)
  have s2: "mmu_entry_get_any w (ent w t1 b) c = slot w t2 c"
    unfolding t2_def by (rule entry_slot [OF ptD(1) [OF ptw] w(3) _ i(3)]) (use ptD(4) [OF ptw t2] t2_def in simp)
  have inv2: "\<not> mmu_entry_valid (ent w t2 c)"
    using none' u(5) [OF i] w(5) [OF i] u(3) w(3) e0 unfolding find_entry_def is_dir_def t1_def t2_def Let_def
    by (auto split: if_splits)
  define v where "v = mk_entry (flags OR MMU_BIT_VALID OR MMU_BIT_ACCESSED OR MMU_BIT_DIRTY) pa"
  have vv: "mmu_entry_valid v" "\<not> is_dir v" using leaf_entry [OF flags] by (simp_all add: v_def is_dir_def)
  define x where "x = st64 (slot w t2 c) v w"
  have sl: "slot w t2 c \<noteq> 0" by (rule slot_kaddr(3) [OF ptD(1) [OF ptw] ptD(4) [OF ptw t2] i(3)])
  note leaf = write_leaf [OF ptD(5) [OF ptw] i _ _ w(3) t2_def vv(2)]
  have d0: "is_dir (ent w root a)" "t1 = taddr (ent w root a)" using e0 u(3) by (simp_all add: t1_def)
  have t2w: "t2 \<in> tabs root B1 B2" using t2 by simp
  note wr = pt_write [OF ptw t2w i(3) leaf(1) [OF d0], folded x_def]
  have ext: "extends s root T1 T2 x B1 B2" by (rule extends_trans [OF extends_trans [OF u(2) w(2)] wr(1)])
  have sub: "tabs root T1 T2 \<subseteq> tabs root A1 A2" "tabs root A1 A2 \<subseteq> tabs root B1 B2"
    using u(2) w(2) by (auto simp: extends_def)
  have "keeps w (tabs root B1 B2) x"
    unfolding keeps_def using agreeD [OF wr(2)] inv2 by (auto simp: upd_def)
  then have kp: "keeps s (tabs root T1 T2) x"
    using keeps_trans [OF keeps_trans [OF u(4) w(4) sub(1)]] sub by blast
  have fe: "find_entry (ent x) root p q r = (if (p, q, r) = (a, b, c) then Some (2, t2, c) else find_entry (ent s) root p q r)"
    if "p < 512" "q < 512" "r < 512" for p q r
    using find_entry_agree [OF wr(2) leaf(1) [OF d0] that] leaf(2) [OF d0 that] w(5) [OF that] u(5) [OF that] vv by simp
  have mm: "mmu_map s root va pa flags = Some (0, x)"
    using root_slot [OF ptD(1,2) [OF pt] i(1)] u(1) w(1) s1 s2 inv2 sl
    by (simp add: mmu_map_def get_vpns_def abc [symmetric] set_flags_phys x_def v_def ent_def)
  have xt: "ent x t2 c = v" using agreeD [OF wr(2) t2w i(3)] by simp
  show thesis
  proof (rule that [OF mm ext _ _ _ _ kp])
    show "free_pages s - 2 \<le> free_pages x" using u(6) w(6) wr(3) by simp
    show "entry_of x root va = Some (2, t2, vpn2 va)" using fe [OF i] by (simp add: abc)
    show "ent x t2 (vpn2 va) = mk_entry (flags OR MMU_BIT_VALID OR MMU_BIT_ACCESSED OR MMU_BIT_DIRTY) pa"
      using xt by (simp add: abc v_def)
    show "entry_of x root va' = entry_of s root va'" if "path va' \<noteq> path va" for va'
      using fe [of "vpn0 va'" "vpn1 va'" "vpn2 va'"] that by (auto simp: path_def abc)
  qed
qed

end
