(* ===== verification/Mmu_Spec.thy ===== *)
theory Mmu_Spec
  imports Mmu_Map
begin

text \<open>
  What the page-table operations of \<^verbatim>\<open>mmu.c\<close> promise, in terms of \<^verbatim>\<open>mmu_translate\<close>: \<^verbatim>\<open>mmu_map\<close> adds one page or
  refuses, \<^verbatim>\<open>mmu_change_flags\<close> and \<^verbatim>\<open>mmu_remove\<close> touch one mapping, and the table that
  \<^verbatim>\<open>create_mmu_table\<close> builds maps the kernel's window and image.
\<close>

subsection \<open>Mapping\<close>

lemma translate_keeps:
  assumes pt: "pt s root T1 T2" and ptw: "pt w root T1' T2'" and k: "keeps s (tabs root T1 T2) w" and r: "phys2safe w = phys2safe s"
    and e: "entry_of w root va = entry_of s root va"
  shows "mmu_translate w root va = mmu_translate s root va"
proof (cases "entry_of s root va")
  case (Some x)
  obtain l t i where x: "x = (l, t, i)" by (cases x)
  note f = find_entry_valid [OF ptD(5) [OF pt] vpn_less Some [unfolded x]]
  have "ent w t i = ent s t i" by (rule keepsD [OF k f(1,2,3)])
  then show ?thesis using e Some x by (simp add: walk_find [OF pt] walk_find [OF ptw] mmu_entry_phys_taddr r)
qed (use e in \<open>simp add: walk_find [OF pt] walk_find [OF ptw]\<close>)

lemma map_found:
  assumes pt: "pt s root T1 T2" and f: "entry_of s root va = Some (l, t, i)"
  shows "mmu_map s root va pa flags = Some (- 1, s)"
proof -
  note inv = ptD(1) [OF pt]
  define e0 where "e0 = ent s root (vpn0 va)"
  define e1 where "e1 = ent s (taddr e0) (vpn1 va)"
  define e2 where "e2 = ent s (taddr e1) (vpn2 va)"
  have r: "mmu_root_get_any s root (vpn0 va) = slot s root (vpn0 va)" "slot s root (vpn0 va) \<noteq> 0"
    "ld64 s (slot s root (vpn0 va)) = e0"
    using root_slot [OF inv ptD(2) [OF pt]] slot_kaddr(3) [OF inv ptD(2) [OF pt]] by (simp_all add: e0_def ent_def)
  have n1: "mmu_entry_get_any s e0 (vpn1 va) = slot s (taddr e0) (vpn1 va)" "slot s (taddr e0) (vpn1 va) \<noteq> 0"
    "ld64 s (slot s (taddr e0) (vpn1 va)) = e1" if d: "is_dir e0"
  proof -
    have t: "is_table s (taddr e0)" using ptD(3) [OF pt] pt_path(1) [OF pt] d by (simp add: e0_def)
    show "mmu_entry_get_any s e0 (vpn1 va) = slot s (taddr e0) (vpn1 va)" "slot s (taddr e0) (vpn1 va) \<noteq> 0"
      "ld64 s (slot s (taddr e0) (vpn1 va)) = e1"
      using entry_slot [OF inv d t] slot_kaddr(3) [OF inv t] by (simp_all add: e1_def ent_def)
  qed
  have n2: "mmu_entry_get_any s e1 (vpn2 va) = slot s (taddr e1) (vpn2 va)" "slot s (taddr e1) (vpn2 va) \<noteq> 0"
    "ld64 s (slot s (taddr e1) (vpn2 va)) = e2" if d: "is_dir e0" "is_dir e1"
  proof -
    have t: "is_table s (taddr e1)" using ptD(4) [OF pt] pt_path(2) [OF pt] d by (simp add: e0_def e1_def)
    show "mmu_entry_get_any s e1 (vpn2 va) = slot s (taddr e1) (vpn2 va)" "slot s (taddr e1) (vpn2 va) \<noteq> 0"
      "ld64 s (slot s (taddr e1) (vpn2 va)) = e2"
      using entry_slot [OF inv d(2) t] slot_kaddr(3) [OF inv t] by (simp_all add: e2_def ent_def)
  qed
  have "mmu_entry_valid e0 \<and> mmu_entry_frame e0 \<or> is_dir e0 \<and> mmu_entry_valid e1 \<and> mmu_entry_frame e1 \<or>
      is_dir e0 \<and> is_dir e1 \<and> mmu_entry_valid e2"
    using f by (auto simp: find_entry_def Let_def is_dir_def e0_def e1_def e2_def split: if_splits)
  then show ?thesis
    using r n1 n2 by (auto simp: mmu_map_def get_vpns_def is_dir_def)
qed

text \<open>C8. \<^verbatim>\<open>mmu_map\<close> on a well-formed table, with two free pages for the tables it may have to create: an
  address that has no translation gets the requested page, with its offset, and every other page of
  the address space translates as before; an address that has one is refused with -1 and nothing
  changes. The table stays well formed, and memory in use outside the table keeps its content.\<close>

theorem mmu_map_spec:
  assumes "pt s root T1 T2" "2 \<le> free_pages s" "flags AND (MMU_BIT_READ OR MMU_BIT_WRITE OR MMU_BIT_EXEC) \<noteq> 0"
  shows "case mmu_translate s root va of
      Some _ \<Rightarrow> mmu_map s root va pa flags = Some (- 1, s)
    | None \<Rightarrow> (\<exists>w T1' T2'. mmu_map s root va pa flags = Some (0, w) \<and> extends s root T1 T2 w T1' T2' \<and>
        (\<forall>va'. mmu_translate w root va' =
           (if fst (get_vpns va') = fst (get_vpns va) then Some (phys2safe s (pa AND NOT 0xfff) OR page_offset va')
            else mmu_translate s root va')))"
proof (cases "entry_of s root va")
  case None
  obtain w T1' T2' t2 where w: "mmu_map s root va pa flags = Some (0, w)" "extends s root T1 T2 w T1' T2'"
    "free_pages s - 2 \<le> free_pages w" "entry_of w root va = Some (2, t2, vpn2 va)"
    "ent w t2 (vpn2 va) = mk_entry (flags OR MMU_BIT_VALID OR MMU_BIT_ACCESSED OR MMU_BIT_DIRTY) pa"
    "\<And>va'. path va' \<noteq> path va \<Longrightarrow> entry_of w root va' = entry_of s root va'" "keeps s (tabs root T1 T2) w"
    by (rule map_new [OF assms(1) None assms(2,3)]) (rule that)
  have ptw: "pt w root T1' T2'" and "same_regs s w" using w(2) by (simp_all add: extends_def)
  then have ps: "phys2safe w = phys2safe s" using same_regs_layout by blast
  have "mmu_translate w root va' =
     (if fst (get_vpns va') = fst (get_vpns va) then Some (phys2safe s (pa AND NOT 0xfff) OR page_offset va')
      else mmu_translate s root va')" for va'
  proof (cases "path va' = path va")
    case True
    then have "entry_of w root va' = Some (2, t2, vpn2 va)" using w(4) by (simp add: path_def)
    then show ?thesis
      using True w(5) by (simp add: walk_find [OF ptw] mmu_entry_phys_taddr taddr_mk_entry ps low_part_def path_def get_vpns_def)
  next
    case False
    then show ?thesis using translate_keeps [OF assms(1) ptw w(7) ps w(6) [OF False]] by (auto simp: path_def get_vpns_def)
  qed
  then show ?thesis using None w(1,2) by (auto simp: walk_find [OF assms(1)])
next
  case (Some x)
  then show ?thesis using map_found [OF assms(1)] by (cases x) (auto simp: walk_find [OF assms(1)])
qed

subsection \<open>Changing and removing mappings\<close>

text \<open>What \<^verbatim>\<open>mmu_entry_set_flags\<close> stores.\<close>

definition reflag :: "u64 \<Rightarrow> u64 \<Rightarrow> u64" where
  "reflag e flags = e AND NOT MMU_ALL_BITS OR flags AND MMU_ALL_BITS"

lemma reflag_bits: "n < 10 \<Longrightarrow> bit (reflag e flags) n = bit flags n" "taddr (reflag e flags) = taddr e"
proof -
  show "n < 10 \<Longrightarrow> bit (reflag e flags) n = bit flags n"
    unfolding reflag_def ALL_BITS_mask by (auto simp: bit_simps)
  have "reflag e flags AND NOT MMU_ALL_BITS = e AND NOT MMU_ALL_BITS"
    unfolding reflag_def ALL_BITS_mask by (rule bit_eqI) (auto simp: bit_simps)
  then show "taddr (reflag e flags) = taddr e" by (simp add: taddr_def)
qed

text \<open>Two addresses that the same entry translates (one page, or one superpage).\<close>

definition same_entry :: "kstate \<Rightarrow> u64 \<Rightarrow> u64 \<Rightarrow> u64 \<Rightarrow> bool" where
  "same_entry s root va va' \<longleftrightarrow> mmu_walk_to_entry s root va = mmu_walk_to_entry s root va'"

lemma walk_zero: "pt s root T1 T2 \<Longrightarrow> mmu_walk_to_entry s root va = 0 \<longleftrightarrow> entry_of s root va = None"
proof (cases "entry_of s root va")
  case (Some x)
  assume pt: "pt s root T1 T2"
  obtain l t i where x: "x = (l, t, i)" by (cases x)
  note f = find_entry_valid [OF ptD(5) [OF pt] vpn_less Some [unfolded x]]
  show ?thesis using slot_kaddr(3) [OF ptD(1) [OF pt] ptD(6) [OF pt f(1)] f(2)] Some x by (simp add: walk_find [OF pt])
qed (simp add: walk_find)

lemma slot_inj:
  assumes "pool_inv s" "is_table s t" "is_table s t'" "i < 512" "i' < 512" "slot s t i = slot s t' i'"
  shows "t = t' \<and> i = i'"
proof (rule ccontr)
  assume "\<not> (t = t' \<and> i = i')"
  then have "sep (kaddr s (slot s t i)) 8 (kaddr s (slot s t' i')) 8" using slot_sep [OF assms(1-5)] by auto
  then show False using sep_not_in [of "kaddr s (slot s t' i')" 8 "kaddr s (slot s t' i')" 8 "kaddr s (slot s t' i')"] assms(6) by simp
qed

lemma reflag_entry:
  assumes pt: "pt s root T1 T2" and f: "entry_of s root va = Some (l, t, i)" and nd: "\<not> is_dir (reflag (ent s t i) flags)"
  defines "w \<equiv> mmu_entry_set_flags (mmu_walk_to_entry s root va) flags s"
  shows "extends s root T1 T2 w T1 T2"
    and "mmu_translate w root va' =
      (if same_entry s root va va' \<and> \<not> mmu_entry_valid (reflag (ent s t i) flags) then None else mmu_translate s root va')"
    and "ent w t i = reflag (ent s t i) flags"
proof -
  note fv = find_entry_valid [OF ptD(5) [OF pt] vpn_less f]
  note inv = ptD(1) [OF pt] and tab = ptD(6) [OF pt]
  let ?v = "reflag (ent s t i) flags"
  have wk: "mmu_walk_to_entry s root va = slot s t i" using f by (simp add: walk_find [OF pt])
  moreover have "slot s t i \<noteq> 0" by (rule slot_kaddr(3) [OF inv tab [OF fv(1)] fv(2)])
  ultimately have w: "w = st64 (slot s t i) ?v s" by (simp add: w_def mmu_entry_set_flags_def reflag_def ent_def)
  have nd': "\<not> is_dir (ent s t i)" using fv(4) by (simp add: is_dir_def)
  note rw = rewrite_frame [OF ptD(5) [OF pt] fv(3) nd' nd]
  note wr = pt_write [OF pt fv(1,2) rw(1), folded w]
  show "extends s root T1 T2 w T1 T2" by (rule wr)
  then have ptw: "pt w root T1 T2" by (simp add: extends_def)
  show wt: "ent w t i = ?v" using agreeD [OF wr(2) fv(1,2)] by simp
  have fe: "entry_of w root va' = (case entry_of s root va' of None \<Rightarrow> None
       | Some (l, t', i') \<Rightarrow> if (t', i') = (t, i) then if mmu_entry_valid ?v then Some (l, t, i) else None else Some (l, t', i'))"
    using find_entry_agree [OF wr(2) rw(1) vpn_less(1,2,3) [of va']] rw(2) [OF vpn_less(1,2,3) [of va']] by simp
  show "mmu_translate w root va' =
      (if same_entry s root va va' \<and> \<not> mmu_entry_valid ?v then None else mmu_translate s root va')"
  proof (cases "entry_of s root va'")
    case None
    then show ?thesis using fe by (simp add: walk_find [OF pt] walk_find [OF ptw])
  next
    case (Some x)
    obtain l' t' i' where x: "x = (l', t', i')" by (cases x)
    note fv' = find_entry_valid [OF ptD(5) [OF pt] vpn_less Some [unfolded x]]
    have se: "same_entry s root va va' \<longleftrightarrow> (t', i') = (t, i)"
      using slot_inj [OF inv tab [OF fv(1)] tab [OF fv'(1)] fv(2) fv'(2)] f Some x
      by (auto simp: same_entry_def walk_find [OF pt])
    have "ent w t' i' = ent s t' i'" if "(t', i') \<noteq> (t, i)"
      using agreeD [OF wr(2) fv'(1,2)] that by simp
    moreover have "mmu_entry_phys w (ent w t i) = mmu_entry_phys s (ent s t i)"
      by (simp add: mmu_entry_phys_taddr wr(5) wt reflag_bits(2))
    ultimately show ?thesis
      using fe Some x se by (auto simp: walk_find [OF pt] walk_find [OF ptw] mmu_entry_phys_taddr wr(5))
  qed
qed

text \<open>C10. \<^verbatim>\<open>mmu_remove\<close> takes away one mapping: it returns the page of the entry for the address (0 when
  there is none), the addresses of that entry have no translation afterwards, and all others
  translate as before.\<close>

theorem mmu_remove_spec:
  assumes "pt s root T1 T2" "mmu_remove root va s = (page, w)"
  shows "extends s root T1 T2 w T1 T2 \<and>
    mmu_translate w root va' = (if same_entry s root va va' then None else mmu_translate s root va') \<and>
    (mmu_translate s root va = None \<longrightarrow> page = 0 \<and> w = s) \<and>
    (mmu_translate s root va = Some x \<longrightarrow> (\<exists>l\<le>2. x = page OR low_part l va))"
proof (cases "entry_of s root va")
  case None
  then have "mmu_walk_to_entry s root va = 0" using walk_zero [OF assms(1)] by simp
  moreover from this have "page = 0" "w = s" using assms(2) by (simp_all add: mmu_remove_def)
  moreover have "mmu_translate s root va' = None" if "same_entry s root va va'"
    using that walk_zero [OF assms(1), of va'] \<open>mmu_walk_to_entry s root va = 0\<close>
    by (simp add: same_entry_def walk_find(2) [OF assms(1)])
  ultimately show ?thesis using extends_refl [OF assms(1)] None by (simp add: walk_find(2) [OF assms(1)])
next
  case (Some y)
  obtain l t i where y: "entry_of s root va = Some (l, t, i)" using Some by (cases y) auto
  have nv: "\<not> mmu_entry_valid (reflag (ent s t i) 0)" by (simp add: flag_bits reflag_bits)
  have nz: "mmu_walk_to_entry s root va \<noteq> 0" using walk_zero [OF assms(1)] Some by simp
  have w: "w = mmu_entry_set_flags (mmu_walk_to_entry s root va) 0 s"
    and pg: "page = mmu_entry_phys s (ent s t i)"
    using assms(2) nz y by (auto simp: mmu_remove_def Let_def walk_find(1) [OF assms(1)] ent_def)
  have nd: "\<not> is_dir (reflag (ent s t i) 0)" using nv by (simp add: is_dir_def)
  show ?thesis
    using reflag_entry(1,2) [OF assms(1) y nd, folded w] nv pg y find_entry_valid(5) [OF ptD(5) [OF assms(1)] vpn_less y]
    by (auto simp: walk_find(2) [OF assms(1)])
qed

text \<open>\<^verbatim>\<open>mmu_change_flags\<close> with read, write or execute among the flags changes no translation; the
  entry of the address, if there is one, has exactly the requested flags plus valid, accessed and
  dirty.\<close>

theorem mmu_change_flags_spec:
  assumes "pt s root T1 T2" "flags AND (MMU_BIT_READ OR MMU_BIT_WRITE OR MMU_BIT_EXEC) \<noteq> 0"
  shows "extends s root T1 T2 (mmu_change_flags root va flags s) T1 T2 \<and>
    mmu_translate (mmu_change_flags root va flags s) root va' = mmu_translate s root va' \<and>
    (mmu_walk_to_entry s root va \<noteq> 0 \<longrightarrow>
      mmu_entry_flags (ld64 (mmu_change_flags root va flags s) (mmu_walk_to_entry s root va)) MMU_ALL_BITS =
        (flags OR MMU_BIT_VALID OR MMU_BIT_ACCESSED OR MMU_BIT_DIRTY) AND MMU_ALL_BITS)"
proof -
  define fl where "fl = flags OR MMU_BIT_VALID OR MMU_BIT_ACCESSED OR MMU_BIT_DIRTY"
  define w where "w = mmu_change_flags root va flags s"
  have "extends s root T1 T2 w T1 T2 \<and> mmu_translate w root va' = mmu_translate s root va' \<and>
    (mmu_walk_to_entry s root va \<noteq> 0 \<longrightarrow>
      mmu_entry_flags (ld64 w (mmu_walk_to_entry s root va)) MMU_ALL_BITS = fl AND MMU_ALL_BITS)"
  proof (cases "entry_of s root va")
    case None
    then have "mmu_walk_to_entry s root va = 0" using walk_zero [OF assms(1)] by simp
    then show ?thesis using extends_refl [OF assms(1)] by (simp add: mmu_change_flags_def w_def)
  next
    case (Some y)
    obtain l t i where y: "entry_of s root va = Some (l, t, i)" using Some by (cases y) auto
    have fb: "bit (reflag (ent s t i) fl) n = bit (mk_entry fl 0) n" if "n < 10" for n
      using that by (simp add: reflag_bits mk_entry_bit)
    have v: "mmu_entry_valid (reflag (ent s t i) fl)" "\<not> is_dir (reflag (ent s t i) fl)"
      using leaf_entry [OF assms(2), of 0, folded fl_def] fb [of 0] fb [of 1] fb [of 2] fb [of 3]
      by (simp_all add: flag_bits mmu_entry_frame_def is_dir_def)
    have nz: "mmu_walk_to_entry s root va \<noteq> 0" using walk_zero [OF assms(1)] Some by simp
    have w: "w = mmu_entry_set_flags (mmu_walk_to_entry s root va) fl s"
      using nz by (simp add: w_def mmu_change_flags_def fl_def)
    note re = reflag_entry [OF assms(1) y v(2), folded w]
    have ps: "phys2safe w = phys2safe s" using re(1) same_regs_layout(7) [of s w] by (simp add: extends_def)
    have "ld64 w (mmu_walk_to_entry s root va) = reflag (ent s t i) fl"
      using re(3) y ps by (simp add: walk_find(1) [OF assms(1)] ent_def slot_def)
    moreover have "mmu_entry_flags (reflag (ent s t i) fl) MMU_ALL_BITS = fl AND MMU_ALL_BITS"
      unfolding mmu_entry_flags_def reflag_def ALL_BITS_mask by (rule bit_eqI) (auto simp: bit_simps)
    ultimately show ?thesis using re(1,2) v(1) by simp
  qed
  then show ?thesis unfolding w_def fl_def .
qed

end
