(* ===== verification/Mmu_Kernel.thy ===== *)
theory Mmu_Kernel
  imports Mmu_Spec
begin

text \<open>
  The table that \<^verbatim>\<open>create_mmu_table\<close> builds: the kernel's window onto physical memory, one gigabyte per
  entry of the upper half, and the identity map of the kernel image.
\<close>

subsection \<open>Window addresses as bits\<close>

lemma window_bits: "unat a < window_size \<Longrightarrow> 38 \<le> n \<Longrightarrow> \<not> bit (a :: u64) n"
proof -
  assume a: "unat a < window_size" and n: "38 \<le> n"
  have "(2 :: nat) ^ 38 \<le> 2 ^ n" using n by (rule power_increasing) simp
  then have "unat a < 2 ^ n" using a by (simp add: window_size_def)
  then have "\<not> bit (unat a) n" by (simp add: bit_iff_odd)
  then show ?thesis by (simp add: bit_unsigned_iff)
qed

lemma KSO_bit: "bit KERNEL_SPACE_OFFSET n \<longleftrightarrow> 38 \<le> n \<and> n < 64"
proof -
  have "KERNEL_SPACE_OFFSET = NOT (mask 38)" by (simp add: KERNEL_SPACE_OFFSET_def mask_eq_exp_minus_1)
  show ?thesis unfolding \<open>KERNEL_SPACE_OFFSET = NOT (mask 38)\<close> by (auto simp: bit_not_iff bit_mask_iff)
qed

lemma KSO_or: "unat a < window_size \<Longrightarrow> KERNEL_SPACE_OFFSET + a = KERNEL_SPACE_OFFSET OR a"
  by (rule disjunctive_add_eq_or) (auto simp: bit_eq_iff bit_and_iff KSO_bit window_bits)

lemma phys2safe_bits:
  "unat a < window_size \<Longrightarrow> phys2safe s a = (if mmu_enabled s then KERNEL_SPACE_OFFSET OR a else a)"
  by (simp add: phys2safe_window KSO_or [symmetric] add.commute)

lemma low_part_bits: "low_part 0 va = take_bit 30 va" "low_part 1 va = take_bit 21 va" "low_part 2 va = take_bit 12 va"
proof -
  have m: "(0x1ff :: u64) = mask 9" by (simp add: mask_eq_exp_minus_1)
  note d = low_part_def vpn0_def vpn1_def vpn2_def page_offset_def m page_mask
  show "low_part 0 va = take_bit 30 va" unfolding d
    apply (rule bit_word_eqI)
    subgoal for n by (cases "n < 21") (auto simp: bit_simps)
    done
  show "low_part 1 va = take_bit 21 va" unfolding d
    by (rule bit_word_eqI) (auto simp: bit_simps)
  show "low_part 2 va = take_bit 12 va" unfolding d
    by (rule bit_word_eqI) (auto simp: bit_simps)
qed

lemma phys2safe_split:
  assumes "unat a < window_size"
  shows "phys2safe s (a AND NOT (mask n)) OR take_bit n a = phys2safe s a"
proof -
  have le: "unat (a AND NOT (mask n)) < window_size"
    using assms word_and_le2 [of a "NOT (mask n)"] by (simp add: word_le_nat_alt)
  show ?thesis
    unfolding phys2safe_bits [OF assms] phys2safe_bits [OF le]
    by (auto intro!: bit_word_eqI simp: bit_simps)
qed

subsection \<open>The window\<close>

lemma window_entry_bits:
  assumes "256 \<le> i" "i < 512"
  shows "mmu_entry_valid (window_entry i)" "mmu_entry_frame (window_entry i)"
    "taddr (window_entry i) = push_bit 30 (of_nat (i - 256))"
proof -
  let ?f = "MMU_BIT_GLOBAL OR MMU_BIT_READ OR MMU_BIT_WRITE OR MMU_BIT_VALID"
  have f: "?f = 0x27" by (simp add: MMU_BIT_GLOBAL_def MMU_BIT_READ_def MMU_BIT_WRITE_def MMU_BIT_VALID_def)
  have w: "window_entry i = push_bit 28 (of_nat (i - 256)) OR 0x27"
    unfolding window_entry_def or.assoc f [unfolded or.assoc] ..
  have b: "bit (window_entry i) n \<longleftrightarrow> bit (0x27 :: u64) n" if "n < 28" for n
    using that unfolding w by (auto simp: bit_or_iff bit_push_bit_iff)
  show "mmu_entry_valid (window_entry i)" using b [of 0] by (simp add: flag_bits)
  show "mmu_entry_frame (window_entry i)" using b [of 1] by (simp add: flag_bits mmu_entry_frame_def bit_simps)
  have "\<not> bit (0x27 :: u64) n" if "10 \<le> n" for n
  proof -
    have "(0x27 :: u64) = take_bit 10 0x27" by (simp add: take_bit_eq_mod)
    then show ?thesis using that by (metis bit_take_bit_iff not_less)
  qed
  then have "window_entry i AND NOT (mask 10) = push_bit 28 (of_nat (i - 256))"
    unfolding w by (intro bit_word_eqI) (auto simp: bit_simps)
  then show "taddr (window_entry i) = push_bit 30 (of_nat (i - 256))"
    by (simp add: taddr_def ALL_BITS_mask)
qed

text \<open>Filling slots of one table.\<close>

lemma fill_slots:
  fixes f :: "nat \<Rightarrow> u64"
  assumes "pool_inv s" "is_table s t" "\<forall>i\<in>set xs. i < 512"
  defines "w \<equiv> fold (\<lambda>i. st64 (phys2safe s t + of_nat (8 * i)) (f i)) xs s"
  shows "pool_inv w \<and> is_table w = is_table s \<and> same_regs s w \<and> free_pages w = free_pages s \<and>
    (\<forall>t' i. is_table s t' \<longrightarrow> i < 512 \<longrightarrow> ent w t' i = (if t' = t \<and> unat i \<in> set xs then f (unat i) else ent s t' i))"
  using assms(1-3) unfolding w_def
proof (induction xs arbitrary: s)
  case (Cons j xs)
  have j: "of_nat j < (512 :: u64)" "unat (of_nat j :: u64) = j"
    using Cons.prems(3) by (simp_all add: word_less_nat_alt unat_of_nat)
  define u where "u = st64 (slot s t (of_nat j)) (f j) s"
  have u: "st64 (phys2safe s t + of_nat (8 * j)) (f j) s = u" by (simp add: u_def slot_def)
  note sw = slot_write [OF Cons.prems(1,2) j(1), of "f j", folded u_def]
  have regs: "same_regs s u" by (simp add: u_def)
  define w where "w = fold (\<lambda>i. st64 (phys2safe s t + of_nat (8 * i)) (f i)) xs u"
  have w: "fold (\<lambda>i. st64 (phys2safe s t + of_nat (8 * i)) (f i)) (j # xs) s = w"
    unfolding w_def fold.simps comp_apply u ..
  have IH: "pool_inv w \<and> is_table w = is_table s \<and> same_regs u w \<and> free_pages w = free_pages u \<and>
    (\<forall>t' i. is_table s t' \<longrightarrow> i < 512 \<longrightarrow> ent w t' i = (if t' = t \<and> unat i \<in> set xs then f (unat i) else ent u t' i))"
    using Cons.IH [of u] Cons.prems sw by (simp add: w_def)
  have eu: "ent u t' i = (if t' = t \<and> unat i = j then f j else ent s t' i)" if "is_table s t'" "i < 512" for t' i
    using ent_write [OF Cons.prems(1,2) that(1) j(1) that(2), of "f j"] j(2) by (auto simp: u_def)
  show ?case
    unfolding w
    using IH eu same_regs_trans [OF regs] free_pages_write [OF Cons.prems(1,2) j(1), of "f j", folded u_def] by auto
qed auto

lemma fill_window_pt:
  assumes "pool_inv s" "is_table s root" "\<And>i. i < 512 \<Longrightarrow> ent s root i = 0"
  defines "w \<equiv> fill_window (phys2safe s root) s"
  shows "pt w root {} {}" "same_regs s w" "free_pages w = free_pages s"
    "i < 512 \<Longrightarrow> ent w root i = (if 256 \<le> unat i then window_entry (unat i) else 0)"
proof -
  have f: "pool_inv w \<and> is_table w = is_table s \<and> same_regs s w \<and> free_pages w = free_pages s \<and>
    (\<forall>t' i. is_table s t' \<longrightarrow> i < 512 \<longrightarrow> ent w t' i = (if t' = root \<and> 256 \<le> unat i \<and> unat i < 512 then window_entry (unat i) else ent s t' i))"
    unfolding w_def fill_window_def
    by (rule fill_slots [OF assms(1,2), of "[256..<512]" window_entry, unfolded set_upt atLeastLessThan_iff]) simp
  show "same_regs s w" "free_pages w = free_pages s" using f by auto
  show e: "ent w root i = (if 256 \<le> unat i then window_entry (unat i) else 0)" if "i < 512" for i
  proof -
    have "unat i < 512" using that by (simp add: word_less_nat_alt)
    moreover have "ent w root i = (if 256 \<le> unat i \<and> unat i < 512 then window_entry (unat i) else ent s root i)"
      using f assms(2) that by simp
    ultimately show ?thesis using assms(3) [OF that] by simp
  qed
  have "\<not> is_dir (ent w root i)" if "i < 512" for i
    using e [OF that] window_entry_bits(2) [of "unat i"] that by (auto simp: is_dir_def word_less_nat_alt)
  then have "shape (ent w) root {} {}" by (auto simp: shape_def)
  then show "pt w root {} {}" using f assms(2) by (simp add: pt_def)
qed

text \<open>\<open>idmap s root\<close>: the window is in place, and low addresses are mapped to themselves or not at all.\<close>

definition idmap :: "kstate \<Rightarrow> u64 \<Rightarrow> bool" where
  "idmap s root \<longleftrightarrow>
     (\<forall>x. unat x < window_size \<longrightarrow> mmu_translate s root (KERNEL_SPACE_OFFSET + x) = Some (phys2safe s x)) \<and>
     (\<forall>x. unat x < window_size \<longrightarrow> mmu_translate s root x \<in> {None, Some (phys2safe s x)})"

lemma unat_vpn0: "unat (vpn0 va) = unat (drop_bit 30 va) mod 512"
proof -
  have m: "(0x1ff :: u64) = mask 9" by (simp add: mask_eq_exp_minus_1)
  have "vpn0 va = take_bit 9 (drop_bit 30 va)"
    unfolding vpn0_def m by (rule bit_word_eqI) (auto simp: bit_simps)
  then show ?thesis by (simp add: take_bit_eq_mod unat_mod)
qed

lemma unat_drop30: "unat (drop_bit 30 x :: u64) = unat x div 2 ^ 30"
  by (simp add: drop_bit_eq_div unat_div)

lemma vpn0_window:
  assumes "unat x < window_size"
  shows "unat (vpn0 x) = unat x div 2 ^ 30" "unat (vpn0 x) < 256"
    "unat (vpn0 (KERNEL_SPACE_OFFSET + x)) = 256 + unat x div 2 ^ 30"
proof -
  have d: "unat x div 2 ^ 30 < 256" using assms by (simp add: window_size_def div_less_iff_less_mult)
  then show v: "unat (vpn0 x) = unat x div 2 ^ 30" "unat (vpn0 x) < 256"
    by (simp_all add: unat_vpn0 unat_drop30)
  have "unat (KERNEL_SPACE_OFFSET + x) = unat KERNEL_SPACE_OFFSET + unat x"
    using assms window_no_wrap [of x] by (simp add: add.commute)
  moreover have "(unat KERNEL_SPACE_OFFSET + unat x) div 2 ^ 30 = 512 * 33554431 + (256 + unat x div 2 ^ 30)"
    by simp
  moreover have "(512 * 33554431 + (256 + q)) mod 512 = 256 + q" if "q < 256" for q :: nat
    using that mod_mult_self4 [of 512 33554431 "256 + q"] by simp
  ultimately show "unat (vpn0 (KERNEL_SPACE_OFFSET + x)) = 256 + unat x div 2 ^ 30"
    using d by (simp add: unat_vpn0 unat_drop30)
qed

lemma fill_window_idmap:
  assumes "pool_inv s" "is_table s root" "\<And>i. i < 512 \<Longrightarrow> ent s root i = 0"
  shows "idmap (fill_window (phys2safe s root) s) root"
proof -
  define w where "w = fill_window (phys2safe s root) s"
  note f = fill_window_pt [OF assms, folded w_def]
  have "mmu_translate w root (KERNEL_SPACE_OFFSET + x) = Some (phys2safe w x)" if x: "unat x < window_size" for x
  proof -
    let ?va = "KERNEL_SPACE_OFFSET + x"
    let ?k = "unat x div 2 ^ 30"
    have k: "256 \<le> unat (vpn0 ?va)" "unat (vpn0 ?va) < 512" "unat (vpn0 ?va) - 256 = ?k"
      using vpn0_window [OF x] by simp_all
    have e: "ent w root (vpn0 ?va) = window_entry (unat (vpn0 ?va))" using f(4) [of "vpn0 ?va"] k by simp
    note wb = window_entry_bits [OF k(1,2), unfolded k(3)]
    have "entry_of w root ?va = Some (0, root, vpn0 ?va)" using e wb by (simp add: find_entry_def)
    then have tr: "mmu_translate w root ?va = Some (phys2safe w (push_bit 30 (of_nat ?k)) OR take_bit 30 ?va)"
      using e wb(3) by (simp add: walk_find [OF f(1)] mmu_entry_phys_taddr low_part_bits)
    have "?k < 18446744073709551616" using unat_lt64 [of x] div_le_dividend [of "unat x" "2 ^ 30"] by linarith
    then have "(of_nat ?k :: u64) = drop_bit 30 x"
      by (intro word_unat_eq_iff [THEN iffD2]) (simp add: unat_drop30 unat_of_nat)
    then have p: "push_bit 30 (of_nat ?k) = x AND NOT (mask 30)"
      by (simp only:) (rule bit_word_eqI, auto simp: bit_simps)
    have t: "take_bit 30 ?va = take_bit 30 x"
      unfolding KSO_or [OF x] by (rule bit_word_eqI) (auto simp: bit_simps KSO_bit)
    show ?thesis unfolding tr p t phys2safe_split [OF x] ..
  qed
  moreover have "mmu_translate w root x = None" if x: "unat x < window_size" for x
    using f(4) [of "vpn0 x"] vpn0_window(2) [OF x] by (simp add: walk_find [OF f(1)] find_entry_def)
  ultimately show ?thesis by (simp add: idmap_def w_def)
qed

subsection \<open>Identity ranges\<close>

text \<open>A table that only gains translations.\<close>

definition gains :: "kstate \<Rightarrow> u64 \<Rightarrow> kstate \<Rightarrow> bool" where
  "gains s root w \<longleftrightarrow> same_regs s w \<and> (\<forall>va x. mmu_translate s root va = Some x \<longrightarrow> mmu_translate w root va = Some x)"

lemma gains_refl: "gains s root s" by (simp add: gains_def)

lemma gains_trans: "gains s root u \<Longrightarrow> gains u root w \<Longrightarrow> gains s root w"
  unfolding gains_def using same_regs_trans by blast

lemma gains_phys2safe: "gains s root w \<Longrightarrow> phys2safe w = phys2safe s"
  using same_regs_layout(7) by (simp add: gains_def)

lemma vpn_bits:
  "bit (vpn0 a) k \<longleftrightarrow> k < 9 \<and> bit a (30 + k)" "bit (vpn1 a) k \<longleftrightarrow> k < 9 \<and> bit a (21 + k)"
  "bit (vpn2 a) k \<longleftrightarrow> k < 9 \<and> bit a (12 + k)"
proof -
  have m: "(0x1ff :: u64) = mask 9" by (simp add: mask_eq_exp_minus_1)
  show "bit (vpn0 a) k \<longleftrightarrow> k < 9 \<and> bit a (30 + k)" "bit (vpn1 a) k \<longleftrightarrow> k < 9 \<and> bit a (21 + k)"
    "bit (vpn2 a) k \<longleftrightarrow> k < 9 \<and> bit a (12 + k)"
    unfolding vpn0_def vpn1_def vpn2_def m by (auto simp: bit_simps)
qed

lemma same_vpns_bits:
  "fst (get_vpns va) = fst (get_vpns p) \<longleftrightarrow> (\<forall>n. 12 \<le> n \<and> n < 39 \<longrightarrow> bit va n = bit p n)"
proof
  assume "fst (get_vpns va) = fst (get_vpns p)"
  then have e: "bit (vpn0 va) k = bit (vpn0 p) k" "bit (vpn1 va) k = bit (vpn1 p) k" "bit (vpn2 va) k = bit (vpn2 p) k" for k
    by (simp_all add: get_vpns_def)
  have k: "k < 9 \<Longrightarrow> bit va (12 + k) = bit p (12 + k)" "k < 9 \<Longrightarrow> bit va (21 + k) = bit p (21 + k)"
    "k < 9 \<Longrightarrow> bit va (30 + k) = bit p (30 + k)" for k
    using e [of k] by (simp_all add: vpn_bits)
  have "bit va n = bit p n" if "12 \<le> n" "n < 39" for n
    using k(1) [of "n - 12"] k(2) [of "n - 21"] k(3) [of "n - 30"] that
    by (cases "n < 21"; cases "n < 30") simp_all
  then show "\<forall>n. 12 \<le> n \<and> n < 39 \<longrightarrow> bit va n = bit p n" by blast
next
  assume b: "\<forall>n. 12 \<le> n \<and> n < 39 \<longrightarrow> bit va n = bit p n"
  show "fst (get_vpns va) = fst (get_vpns p)"
    unfolding get_vpns_def fst_conv list.inject
    by (intro conjI bit_word_eqI) (use b in \<open>auto simp: vpn_bits\<close>)
qed

lemma page_of:
  assumes "4096 dvd unat p" "fst (get_vpns va) = fst (get_vpns p)" "unat va < window_size" "unat p < window_size"
  shows "va AND NOT 0xfff = p"
proof -
  have "bit va n = bit p n" if "12 \<le> n" for n
  proof (cases "n < 39")
    case True
    then show ?thesis using assms(2) that by (simp add: same_vpns_bits)
  next
    case False
    then show ?thesis using window_bits assms(3,4) by simp
  qed
  then have "va AND NOT 0xfff = p AND NOT 0xfff"
    unfolding page_mask by (intro bit_word_eqI) (auto simp: bit_simps)
  then show ?thesis using page_aligned [OF assms(1)] by simp
qed

lemma same_page_vpns:
  assumes "va AND NOT 0xfff = p AND NOT 0xfff"
  shows "fst (get_vpns va) = fst (get_vpns p)"
  unfolding same_vpns_bits
proof (intro allI impI)
  fix n assume n: "12 \<le> n \<and> n < (39 :: nat)"
  have "bit (va AND NOT (mask 12)) n = bit (p AND NOT (mask 12)) n" using assms by (simp add: page_mask)
  then show "bit va n = bit p n" using n by (simp add: bit_simps)
qed

text \<open>One page.\<close>

lemma map_identity:
  assumes pt: "pt s root T1 T2" and id: "idmap s root" and free: "2 \<le> free_pages s"
    and flags: "flags AND (MMU_BIT_READ OR MMU_BIT_WRITE OR MMU_BIT_EXEC) \<noteq> 0"
    and p: "4096 dvd unat p" "unat p < window_size"
  obtains w r T1' T2' where "mmu_map s root p p flags = Some (r, w)" "pt w root T1' T2'" "idmap w root" "gains s root w"
    "free_pages s - 2 \<le> free_pages w"
    "\<And>va. va AND NOT 0xfff = p \<Longrightarrow> unat va < window_size \<Longrightarrow> mmu_translate w root va = Some (phys2safe s va)"
proof (cases "entry_of s root p")
  case (Some x)
  obtain l t i where x: "entry_of s root p = Some (l, t, i)" using Some by (cases x) auto
  have tr: "mmu_translate s root va = Some (phys2safe s va)" if va: "va AND NOT 0xfff = p" "unat va < window_size" for va
  proof -
    have "fst (get_vpns va) = fst (get_vpns p)" using same_page_vpns [of va p] va(1) page_aligned [OF p(1)] by simp
    then have "mmu_translate s root va \<noteq> None" using x by (simp add: walk_find [OF pt] get_vpns_def)
    then show ?thesis using id va(2) by (auto simp: idmap_def)
  qed
  show thesis
    by (rule that [OF map_found [OF pt x] pt id gains_refl]) (use tr in auto)
next
  case None
  obtain w T1' T2' t2 where w: "mmu_map s root p p flags = Some (0, w)" "extends s root T1 T2 w T1' T2'"
    "free_pages s - 2 \<le> free_pages w" "entry_of w root p = Some (2, t2, vpn2 p)"
    "ent w t2 (vpn2 p) = mk_entry (flags OR MMU_BIT_VALID OR MMU_BIT_ACCESSED OR MMU_BIT_DIRTY) p"
    "\<And>va'. path va' \<noteq> path p \<Longrightarrow> entry_of w root va' = entry_of s root va'" "keeps s (tabs root T1 T2) w"
    by (rule map_new [OF pt None free flags]) (rule that)
  have ptw: "pt w root T1' T2'" and regs: "same_regs s w" using w(2) by (simp_all add: extends_def)
  then have ps: "phys2safe w = phys2safe s" using same_regs_layout by blast
  have on: "mmu_translate w root va = Some (phys2safe s p OR take_bit 12 va)" if "path va = path p" for va
  proof -
    have "entry_of w root va = Some (2, t2, vpn2 p)" using w(4) that by (simp add: path_def)
    then show ?thesis using w(5) page_aligned [OF p(1)]
      by (simp add: walk_find [OF ptw] mmu_entry_phys_taddr taddr_mk_entry ps low_part_bits(3))
  qed
  have off: "mmu_translate w root va = mmu_translate s root va" if "path va \<noteq> path p" for va
    by (rule translate_keeps [OF pt ptw w(7) ps w(6) [OF that]])
  have pv: "path va = path p \<longleftrightarrow> fst (get_vpns va) = fst (get_vpns p)" for va
    by (auto simp: path_def get_vpns_def)
  have idp: "phys2safe s p OR take_bit 12 va = phys2safe s va" if "va AND NOT 0xfff = p" "unat va < window_size" for va
    using phys2safe_split [OF that(2), of s 12] that(1) by (simp add: page_mask)
  have "idmap w root"
    unfolding idmap_def ps
  proof (intro conjI allI impI)
    fix x :: u64 assume x: "unat x < window_size"
    have "path (KERNEL_SPACE_OFFSET + x) \<noteq> path p"
      using vpn0_window(3) [OF x] vpn0_window(2) [OF p(2)] by (auto simp: path_def)
    then show "mmu_translate w root (KERNEL_SPACE_OFFSET + x) = Some (phys2safe s x)"
      using off id x by (simp add: idmap_def)
    show "mmu_translate w root x \<in> {None, Some (phys2safe s x)}"
    proof (cases "path x = path p")
      case True
      then show ?thesis using on idp [OF page_of [OF p(1) _ x p(2)] x] by (simp add: pv)
    next
      case False
      then show ?thesis using off id x by (simp add: idmap_def)
    qed
  qed
  moreover have "gains s root w"
    unfolding gains_def
  proof (intro conjI allI impI)
    fix va x assume "mmu_translate s root va = Some x"
    moreover have "mmu_translate s root va = None" if "path va = path p"
      using None that by (simp add: walk_find [OF pt] path_def)
    ultimately show "mmu_translate w root va = Some x" using off by force
  qed (rule regs)
  moreover have "mmu_translate w root va = Some (phys2safe s va)" if va: "va AND NOT 0xfff = p" "unat va < window_size" for va
    using on [of va] same_page_vpns [of va p] va page_aligned [OF p(1)] idp [OF va] by (simp add: pv)
  ultimately show thesis using that [OF w(1) ptw _ _ w(3)] by blast
qed

text \<open>A range of pages.\<close>

definition range_pages :: "u64 \<Rightarrow> u64 \<Rightarrow> nat" where
  "range_pages a e = (unat e - unat a + 4095) div 4096"

definition identity_on :: "kstate \<Rightarrow> u64 \<Rightarrow> u64 \<Rightarrow> u64 \<Rightarrow> bool" where
  "identity_on s root a e \<longleftrightarrow> (\<forall>va. a \<le> va \<and> va < e \<longrightarrow> mmu_translate s root va = Some (phys2safe s va))"

definition identity_result :: "kstate \<Rightarrow> u64 \<Rightarrow> nat \<Rightarrow> kstate \<Rightarrow> bool" where
  "identity_result s root n w \<longleftrightarrow>
     (\<exists>T1 T2. pt w root T1 T2) \<and> idmap w root \<and> gains s root w \<and> free_pages s - 2 * n \<le> free_pages w"

lemma page_base_of:
  assumes "4096 dvd unat a" "unat a + 4096 \<le> 2 ^ 64" "unat a \<le> unat va" "unat va < unat a + 4096"
  shows "va AND NOT 0xfff = (a :: u64)"
proof -
  have "unat (va AND NOT (mask 12)) = unat va - unat va mod 4096"
  proof -
    have "(va AND NOT (mask 12)) + take_bit 12 va = (va AND NOT (mask 12)) OR take_bit 12 va"
      by (rule disjunctive_add_eq_or) (auto simp: bit_eq_iff bit_simps)
    also have "\<dots> = va" by (rule bit_word_eqI) (auto simp: bit_simps)
    finally have "va AND NOT (mask 12) = va - take_bit 12 va" by (simp add: eq_diff_eq)
    moreover have "unat (take_bit 12 va) = unat va mod 4096" by (simp add: take_bit_eq_mod unat_mod)
    moreover have "take_bit 12 va \<le> va" by (simp add: take_bit_eq_mask word_and_le2)
    ultimately show ?thesis by (simp add: unat_sub)
  qed
  moreover obtain k where k: "unat a = 4096 * k" using assms(1) by blast
  moreover have "unat va mod 4096 = unat va - unat a"
  proof -
    have "unat va = (unat va - unat a) + k * 4096" "unat va - unat a < 4096" using assms(3,4) k by simp_all
    then show ?thesis by (metis mod_less mod_mult_self1)
  qed
  ultimately have "unat (va AND NOT (mask 12)) = unat a" using assms(3) by simp
  then show ?thesis by (simp add: page_mask word_unat_eq_iff)
qed

lemma range_identity:
  assumes "pt s root T1 T2" "idmap s root" "2 * range_pages a e \<le> free_pages s"
    and flags: "flags AND (MMU_BIT_READ OR MMU_BIT_WRITE OR MMU_BIT_EXEC) \<noteq> 0"
    and "4096 dvd unat a" and e: "unat e \<le> window_size"
  shows "\<exists>w. mmu_map_range_identity root a e flags s = Some w \<and> identity_result s root (range_pages a e) w \<and>
    identity_on w root a e"
  using assms(1,2,3,5)
proof (induction "range_pages a e" arbitrary: s a T1 T2)
  case 0
  then have "\<not> a < e" by (auto simp: range_pages_def word_less_nat_alt)
  then show ?case
    using 0 gains_refl by (subst mmu_map_range_identity.simps)
      (auto simp: identity_result_def identity_on_def dest: order.strict_trans1)
next
  case (Suc n)
  have lt: "unat a < unat e"
  proof (rule ccontr)
    assume "\<not> unat a < unat e"
    then show False using Suc.hyps(2) by (simp add: range_pages_def)
  qed
  have aw: "unat a < window_size" using lt e by simp
  have aw4: "unat a + 4096 < 2 ^ 64" using aw by (simp add: window_size_def)
  have "2 \<le> free_pages s" using Suc by simp
  then obtain u r A1 A2 where u: "mmu_map s root a a flags = Some (r, u)" "pt u root A1 A2" "idmap u root" "gains s root u"
    "free_pages s - 2 \<le> free_pages u"
    "\<And>va. va AND NOT 0xfff = a \<Longrightarrow> unat va < window_size \<Longrightarrow> mmu_translate u root va = Some (phys2safe s va)"
    using map_identity [OF Suc.prems(1,2) _ flags Suc.prems(4) aw, of thesis] by blast
  have a4: "unat (a + PAGE_SIZE) = unat a + 4096"
    using unat_add_nowrap [of a 4096] aw4 by (simp add: PAGE_SIZE_def)
  have n: "n = range_pages (a + PAGE_SIZE) e"
    using Suc.hyps(2) lt unfolding range_pages_def a4 by linarith
  have "2 * range_pages (a + PAGE_SIZE) e \<le> free_pages u" using n Suc.hyps(2) Suc.prems(3) u(5) by simp
  moreover have "4096 dvd unat (a + PAGE_SIZE)" using a4 Suc.prems(4) by simp
  ultimately obtain w where w: "mmu_map_range_identity root (a + PAGE_SIZE) e flags u = Some w"
    "identity_result u root n w" "identity_on w root (a + PAGE_SIZE) e"
    using Suc.hyps(1) [OF n u(2,3)] n by metis
  have g: "gains u root w" using w(2) by (simp add: identity_result_def)
  have "mmu_map_range_identity root a e flags s = Some w"
    using u(1) w(1) lt by (subst mmu_map_range_identity.simps) (simp add: word_less_nat_alt)
  moreover have "identity_result s root (range_pages a e) w"
    using w(2) u(5) gains_trans [OF u(4)] Suc.hyps(2) unfolding identity_result_def by auto
  moreover have "identity_on w root a e"
    unfolding identity_on_def
  proof (intro allI impI)
    fix va assume va: "a \<le> va \<and> va < e"
    show "mmu_translate w root va = Some (phys2safe w va)"
    proof (cases "a + PAGE_SIZE \<le> va")
      case True
      then show ?thesis using w(3) va by (simp add: identity_on_def)
    next
      case False
      then have "unat va < unat a + 4096" using a4 by (simp add: word_le_nat_alt)
      then have "va AND NOT 0xfff = a"
        using page_base_of [OF Suc.prems(4)] aw4 va by (simp add: word_le_nat_alt)
      moreover have "unat va < window_size" using va e by (simp add: word_less_nat_alt)
      ultimately have "mmu_translate u root va = Some (phys2safe s va)" by (rule u(6))
      moreover have "phys2safe w = phys2safe s" using gains_phys2safe [OF gains_trans [OF u(4) g]] .
      ultimately show ?thesis using g by (simp add: gains_def)
    qed
  qed
  ultimately show ?case by blast
qed

lemma identity_on_gains: "identity_on s root a e \<Longrightarrow> gains s root w \<Longrightarrow> identity_on w root a e"
  unfolding identity_on_def by (metis gains_def gains_phys2safe)

text \<open>Several ranges, one after the other.\<close>

primrec map_ranges :: "u64 \<Rightarrow> (u64 \<times> u64 \<times> u64) list \<Rightarrow> kstate \<Rightarrow> kstate option" where
  "map_ranges root [] s = Some s"
| "map_ranges root (r # rs) s =
     (case r of (a, e, flags) \<Rightarrow> do { s \<leftarrow> mmu_map_range_identity root a e flags s; map_ranges root rs s })"

definition range_ok :: "u64 \<times> u64 \<Rightarrow> bool" where
  "range_ok r \<longleftrightarrow> 4096 dvd unat (fst r) \<and> unat (snd r) \<le> window_size"

lemma identity_result_trans:
  "identity_result s root m u \<Longrightarrow> identity_result u root n w \<Longrightarrow> identity_result s root (m + n) w"
  unfolding identity_result_def using gains_trans by fastforce

lemma ranges_identity:
  assumes "identity_result s0 root m s" "\<forall>(a, e, f)\<in>set rs. range_ok (a, e) \<and> f AND (MMU_BIT_READ OR MMU_BIT_WRITE OR MMU_BIT_EXEC) \<noteq> 0"
    and "2 * (\<Sum>(a, e, f)\<leftarrow>rs. range_pages a e) \<le> free_pages s"
  shows "\<exists>w. map_ranges root rs s = Some w \<and> identity_result s root (\<Sum>(a, e, f)\<leftarrow>rs. range_pages a e) w \<and>
    (\<forall>(a, e, f)\<in>set rs. identity_on w root a e)"
  using assms
proof (induction rs arbitrary: s0 s m)
  case Nil
  then show ?case using gains_refl by (auto simp: identity_result_def)
next
  case (Cons r rs)
  obtain a e f where r: "r = (a, e, f)" by (cases r)
  obtain T1 T2 where pt: "pt s root T1 T2" "idmap s root" using Cons.prems(1) by (auto simp: identity_result_def)
  let ?n = "\<Sum>(a, e, f)\<leftarrow>rs. range_pages a e"
  have ok: "range_ok (a, e)" "f AND (MMU_BIT_READ OR MMU_BIT_WRITE OR MMU_BIT_EXEC) \<noteq> 0" using Cons.prems(2) r by auto
  have fr: "2 * range_pages a e + 2 * ?n \<le> free_pages s" using Cons.prems(3) r by simp
  obtain u where u: "mmu_map_range_identity root a e f s = Some u" "identity_result s root (range_pages a e) u"
    "identity_on u root a e"
    using range_identity [OF pt _ ok(2), of a e] ok(1) fr by (auto simp: range_ok_def)
  have "free_pages s - 2 * range_pages a e \<le> free_pages u" using u(2) by (simp add: identity_result_def)
  then have "2 * ?n \<le> free_pages u" using fr by linarith
  moreover have "\<forall>(a, e, f)\<in>set rs. range_ok (a, e) \<and> f AND (MMU_BIT_READ OR MMU_BIT_WRITE OR MMU_BIT_EXEC) \<noteq> 0"
    using Cons.prems(2) by simp
  ultimately obtain w where w: "map_ranges root rs u = Some w" "identity_result u root ?n w"
    "\<forall>(a, e, f)\<in>set rs. identity_on w root a e" using Cons.IH [OF u(2)] by blast
  have "identity_on w root a e" using identity_on_gains [OF u(3)] w(2) by (simp add: identity_result_def)
  then show ?case using u(1) w(1,3) identity_result_trans [OF u(2) w(2)] r by auto
qed

lemma same_regs_bounds: "same_regs s w \<Longrightarrow> pages_bottom w = pages_bottom s" "same_regs s w \<Longrightarrow> heap_bottom w = heap_bottom s"
  by (cases s, cases w, simp add: same_regs_def)+

text \<open>The ranges of the kernel image.\<close>

definition image_ranges :: "kernel_image \<Rightarrow> (u64 \<times> u64 \<times> u64) list" where
  "image_ranges k =
    [(text_start k, data_start k, MMU_BIT_READ OR MMU_BIT_EXEC OR MMU_BIT_GLOBAL),
     (data_start k, ro_data_start k, MMU_BIT_READ OR MMU_BIT_WRITE OR MMU_BIT_GLOBAL),
     (ro_data_start k, sdata_start k, MMU_BIT_READ OR MMU_BIT_GLOBAL),
     (sdata_start k, sdata_end k, MMU_BIT_READ OR MMU_BIT_WRITE OR MMU_BIT_GLOBAL),
     (stack_start k, stack_top k, MMU_BIT_READ OR MMU_BIT_WRITE OR MMU_BIT_GLOBAL)]"

definition kernel_ranges :: "kernel_image \<Rightarrow> kstate \<Rightarrow> (u64 \<times> u64) list" where
  "kernel_ranges k s = map (\<lambda>(a, e, f). (a, e)) (image_ranges k) @ [(pages_bottom s, heap_bottom s)]"

lemma identity_map_ranges:
  "identity_map_kernel k root s = do {
     s \<leftarrow> map_ranges root (image_ranges k) s;
     mmu_map_range_identity root (pages_bottom s) (heap_bottom s) (MMU_BIT_READ OR MMU_BIT_WRITE OR MMU_BIT_GLOBAL) s }"
  by (simp add: identity_map_kernel_def image_ranges_def)

lemma image_flags: "(a, e, f) \<in> set (image_ranges k) \<Longrightarrow> f AND (MMU_BIT_READ OR MMU_BIT_WRITE OR MMU_BIT_EXEC) \<noteq> 0"
  by (auto simp: image_ranges_def MMU_BIT_READ_def MMU_BIT_WRITE_def MMU_BIT_EXEC_def MMU_BIT_GLOBAL_def)

text \<open>C9. \<^verbatim>\<open>create_mmu_table\<close>, with enough free pages for the tables: it returns a well-formed table in which
  every byte of physical memory below the size of the window is reached at \<open>KERNEL_SPACE_OFFSET\<close> plus its
  address, and every address of the kernel image and of the reference counts is mapped to itself. This
  is the map that the kernel's memory accesses (\<open>kaddr\<close>) rely on once \<^verbatim>\<open>set_mmu\<close> has installed the table.
  (\<^verbatim>\<open>mmu_translate\<close> reports a physical address as the kernel reaches it, through \<^verbatim>\<open>phys2safe\<close>.)\<close>

theorem create_mmu_table_spec:
  assumes "pool_inv s" "\<forall>r\<in>set (kernel_ranges k s). range_ok r"
    and "2 * (\<Sum>(a, e)\<leftarrow>kernel_ranges k s. range_pages a e) < free_pages s"
  shows "\<exists>root w. create_mmu_table k s = Some (root, w) \<and> (\<exists>T1 T2. pt w root T1 T2) \<and>
    (\<forall>x. unat x < window_size \<longrightarrow> mmu_translate w root (KERNEL_SPACE_OFFSET + x) = Some (phys2safe w x)) \<and>
    (\<forall>(a, e)\<in>set (kernel_ranges k s). \<forall>va. a \<le> va \<and> va < e \<longrightarrow> mmu_translate w root va = Some (phys2safe w va))"
proof -
  have free: "0 < free_pages s" using assms(3) by simp
  obtain p u where u: "alloc_pages s 1 = Some (p, u)" "pool_inv u" "same_regs s u" "is_table u p" "\<not> is_table s p"
    "\<And>t. is_table s t \<Longrightarrow> is_table u t" "\<And>i. i < 512 \<Longrightarrow> ent u p i = 0"
    "\<And>b. pool_held s b \<Longrightarrow> mem u b = mem s b" "free_pages u = free_pages s - 1"
    "\<And>b. pool_held u b \<longleftrightarrow> pool_held s b \<or> in_rng p 4096 b"
    by (rule alloc_table [OF assms(1) free]) (rule that)
  define v where "v = fill_window (phys2safe u p) u"
  note fw = fill_window_pt [OF u(2,4,7), folded v_def]
  have idv: "idmap v p" unfolding v_def by (rule fill_window_idmap [OF u(2,4,7)])
  have regs: "same_regs s v" using same_regs_trans [OF u(3) fw(2)] .
  have root: "safe2phys v (phys2safe u p) = p"
    using is_table_bounds(1) [OF u(2,4)] same_regs_layout(6,7) [OF fw(2)] by (simp add: safe2phys_kaddr)
  let ?m = "\<Sum>(a, e, f)\<leftarrow>image_ranges k. range_pages a e"
  have sum: "(\<Sum>(a, e)\<leftarrow>kernel_ranges k s. range_pages a e) = ?m + range_pages (pages_bottom s) (heap_bottom s)"
    by (simp add: kernel_ranges_def comp_def split_def)
  have ok: "\<forall>(a, e, f)\<in>set (image_ranges k). range_ok (a, e) \<and> f AND (MMU_BIT_READ OR MMU_BIT_WRITE OR MMU_BIT_EXEC) \<noteq> 0"
    "range_ok (pages_bottom s, heap_bottom s)"
    using assms(2) image_flags by (fastforce simp: kernel_ranges_def)+
  have "identity_result v p 0 v" using fw(1) idv gains_refl by (auto simp: identity_result_def)
  moreover have "2 * ?m \<le> free_pages v" using assms(3) sum u(9) fw(3) by simp
  ultimately obtain x where x: "map_ranges p (image_ranges k) v = Some x" "identity_result v p ?m x"
    "\<forall>(a, e, f)\<in>set (image_ranges k). identity_on x p a e"
    using ranges_identity [OF _ ok(1)] by blast
  obtain A1 A2 where ptx: "pt x p A1 A2" "idmap x p" "gains v p x" using x(2) by (auto simp: identity_result_def)
  have xb: "pages_bottom x = pages_bottom s" "heap_bottom x = heap_bottom s"
    using same_regs_bounds [OF same_regs_trans [OF regs]] ptx(3) by (simp_all add: gains_def)
  have "2 * range_pages (pages_bottom s) (heap_bottom s) \<le> free_pages x"
  proof -
    have "free_pages v - 2 * ?m \<le> free_pages x" using x(2) by (simp add: identity_result_def)
    then show ?thesis using assms(3) sum u(9) fw(3) by linarith
  qed
  moreover have "(MMU_BIT_READ OR MMU_BIT_WRITE OR MMU_BIT_GLOBAL) AND (MMU_BIT_READ OR MMU_BIT_WRITE OR MMU_BIT_EXEC) \<noteq> 0"
    by (simp add: MMU_BIT_READ_def MMU_BIT_WRITE_def MMU_BIT_EXEC_def MMU_BIT_GLOBAL_def)
  moreover have ok2: "4096 dvd unat (pages_bottom s)" "unat (heap_bottom s) \<le> window_size"
    using ok(2) by (simp_all add: range_ok_def)
  ultimately obtain w where w: "mmu_map_range_identity p (pages_bottom s) (heap_bottom s) (MMU_BIT_READ OR MMU_BIT_WRITE OR MMU_BIT_GLOBAL) x = Some w"
    "identity_result x p (range_pages (pages_bottom s) (heap_bottom s)) w" "identity_on w p (pages_bottom s) (heap_bottom s)"
    using range_identity [OF ptx(1,2) _ _ ok2] by blast
  have g: "gains x p w" using w(2) by (simp add: identity_result_def)
  have "create_mmu_table k s = Some (p, w)"
    using u(1) root x(1) w(1) xb by (simp add: create_mmu_table_def identity_map_ranges Let_def v_def [symmetric])
  moreover have "identity_on w p a e" if "(a, e) \<in> set (kernel_ranges k s)" for a e
    using that w(3) x(3) identity_on_gains [OF _ g] by (auto simp: kernel_ranges_def)
  ultimately show ?thesis
    using w(2) by (auto simp: identity_result_def idmap_def identity_on_def)
qed

subsection \<open>Installing a table\<close>

text \<open>\<^verbatim>\<open>set_mmu\<close> installs a page-aligned table below \<open>2 ^ 56\<close>: \<^verbatim>\<open>get_mmu\<close> reads the same table back,
  paging is on, and no other part of the state changes. An invalid root changes nothing.\<close>

theorem set_mmu_get_mmu:
  assumes "4096 dvd unat root" "unat root < 2 ^ 56"
  shows "if root = 0 then set_mmu root s = s
    else get_mmu (set_mmu root s) = root \<and> mmu_enabled (set_mmu root s) \<and> (\<exists>v. set_mmu root s = s\<lparr>satp := v\<rparr>)"
proof (cases "root = 0")
  case False
  let ?v = "0x8000000000000000 OR signed_drop_bit 12 root"
  have hi: "\<not> bit root n" if "56 \<le> n" for n
  proof -
    have "(2 :: nat) ^ 56 \<le> 2 ^ n" using that by (rule power_increasing) simp
    then have "unat root < 2 ^ n" using assms(2) by simp
    then have "\<not> bit (unat root) n" by (simp add: bit_iff_odd)
    then show ?thesis by (simp add: bit_unsigned_iff)
  qed
  have m: "(0x00000fffffffffff :: u64) = mask 44" by (simp add: mask_eq_exp_minus_1)
  have tb: "bit (0x8000000000000000 :: u64) n \<longleftrightarrow> n = 63" for n
    using bit_exp_iff [where 'a = "64 word", of 63 n] by auto
  have "bit ?v 63" by (simp add: bit_or_iff tb)
  then have en: "?v AND 0x8000000000000000 \<noteq> 0" using and_exp_eq_0_iff_not_bit [of ?v 63] by simp
  have "push_bit 12 (?v AND mask 44) = root AND NOT (mask 12)"
  proof (rule bit_word_eqI)
    fix n assume n: "n < LENGTH(64)"
    show "bit (push_bit 12 (?v AND mask 44)) n = bit (root AND NOT (mask 12)) n"
      using n hi [of n]
      unfolding bit_push_bit_iff bit_and_iff bit_or_iff bit_mask_iff bit_signed_drop_bit_iff bit_not_iff tb
      by (cases "n < 56") auto
  qed
  then have "push_bit 12 (?v AND 0x00000fffffffffff) = root AND NOT 0xfff" by (simp only: m page_mask)
  then have g: "get_mmu (s\<lparr>satp := ?v\<rparr>) = root" using en page_aligned [OF assms(1)] by (simp add: get_mmu_def)
  show ?thesis
  proof (cases "root = get_mmu s")
    case True
    then have "mmu_enabled s" using False by (auto simp: get_mmu_def mmu_enabled_def split: if_splits)
    moreover have "\<exists>v. s = s\<lparr>satp := v\<rparr>" by (rule exI [of _ "satp s"]) simp
    ultimately show ?thesis using True False by (auto simp: set_mmu_def mmu_root_valid_def)
  next
    case False2: False
    have "set_mmu root s = s\<lparr>satp := ?v\<rparr>" using False False2 by (simp add: set_mmu_def mmu_root_valid_def)
    then show ?thesis using False g en by (auto simp: mmu_enabled_def)
  qed
qed (simp add: set_mmu_def mmu_root_valid_def)

theorem set_mmu_get_mmu_witness: "get_mmu (set_mmu 0x80421000 kstate0) = 0x80421000"
  using set_mmu_get_mmu [of "0x80421000" kstate0] by simp

subsection \<open>Examples\<close>

text \<open>A fresh root table in the pool of \<open>demo_state\<close>, empty and with the window.\<close>

definition demo_mmu :: kstate where "demo_mmu = snd (the (alloc_pages demo_state 1))"
definition demo_root :: u64 where "demo_root = fst (the (alloc_pages demo_state 1))"
definition demo_window :: kstate where "demo_window = fill_window (phys2safe demo_mmu demo_root) demo_mmu"

lemma demo_pool: "pool_inv demo_state" "free_pages demo_state = 2047" "npages demo_state = 2048"
proof -
  show n: "npages demo_state = 2048" by (rule page_layout_npages [OF demo_layout])
  show "pool_inv demo_state" using demo_layout n by (simp add: pool_inv_def)
  show "free_pages demo_state = 2047" by (simp add: free_pages_def n)
qed

lemma demo_mmu_facts:
  "pool_inv demo_mmu" "is_table demo_mmu demo_root" "i < 512 \<Longrightarrow> ent demo_mmu demo_root i = 0"
  "free_pages demo_mmu = 2046" "pt demo_mmu demo_root {} {}" "phys2safe demo_mmu = phys2safe demo_state"
proof -
  have "0 < free_pages demo_state" by (simp add: demo_pool)
  then obtain p u where u: "alloc_pages demo_state 1 = Some (p, u)" "pool_inv u" "same_regs demo_state u" "is_table u p"
    "\<And>i. i < 512 \<Longrightarrow> ent u p i = 0" "free_pages u = free_pages demo_state - 1"
    using alloc_table [OF demo_pool(1)] by metis
  have e: "demo_mmu = u" "demo_root = p" using u(1) by (simp_all add: demo_mmu_def demo_root_def)
  show "pool_inv demo_mmu" "is_table demo_mmu demo_root" "i < 512 \<Longrightarrow> ent demo_mmu demo_root i = 0"
    "free_pages demo_mmu = 2046" "phys2safe demo_mmu = phys2safe demo_state"
    using u same_regs_layout(7) [OF u(3)] by (simp_all add: e demo_pool)
  show "pt demo_mmu demo_root {} {}"
    using u by (simp add: pt_def shape_def e is_dir_def)
qed

lemma demo_window_facts:
  "pt demo_window demo_root {} {}" "idmap demo_window demo_root" "free_pages demo_window = 2046"
  "i < 512 \<Longrightarrow> ent demo_window demo_root i = (if 256 \<le> unat i then window_entry (unat i) else 0)"
  using fill_window_pt [OF demo_mmu_facts(1-3)] fill_window_idmap [OF demo_mmu_facts(1-3)] demo_mmu_facts(4)
  by (simp_all add: demo_window_def)

theorem mmu_map_spec_witness:
  "\<exists>w. mmu_map demo_mmu demo_root 0x1000 0x80500000 MMU_BIT_READ = Some (0, w) \<and>
       mmu_translate w demo_root 0x1234 = Some 0x80500234"
proof -
  have fl: "MMU_BIT_READ AND (MMU_BIT_READ OR MMU_BIT_WRITE OR MMU_BIT_EXEC) \<noteq> 0"
    by (simp add: MMU_BIT_READ_def MMU_BIT_WRITE_def MMU_BIT_EXEC_def)
  have none: "mmu_translate demo_mmu demo_root 0x1000 = None"
    using demo_mmu_facts(3) [of "vpn0 0x1000"] by (simp add: walk_find [OF demo_mmu_facts(5)] find_entry_def)
  have pg: "fst (get_vpns 0x1234) = fst (get_vpns 0x1000)" by (rule same_page_vpns) simp
  have "\<not> mmu_enabled demo_state" by (simp add: mmu_enabled_def demo_state_def kstate0_def)
  then have ps: "phys2safe demo_mmu a = a" for a by (simp add: demo_mmu_facts(6) phys2safe_def)
  show ?thesis
    using mmu_map_spec [OF demo_mmu_facts(5), of MMU_BIT_READ "0x1000" "0x80500000"] fl none demo_mmu_facts(4)
    by (auto simp: ps pg page_offset_def)
qed

theorem mmu_remove_spec_witness:
  "\<exists>page w. mmu_remove demo_root KERNEL_SPACE_OFFSET demo_window = (page, w) \<and>
     mmu_translate demo_window demo_root (KERNEL_SPACE_OFFSET + 0x1000) = Some (phys2safe demo_window 0x1000) \<and>
     mmu_translate w demo_root (KERNEL_SPACE_OFFSET + 0x1000) = None"
proof -
  obtain page w where r: "mmu_remove demo_root KERNEL_SPACE_OFFSET demo_window = (page, w)" by fastforce
  have "unat (vpn0 (KERNEL_SPACE_OFFSET + 0x1000)) = 256" "unat (vpn0 (KERNEL_SPACE_OFFSET + 0)) = 256"
    using vpn0_window(3) [of "0x1000"] vpn0_window(3) [of 0] by (simp_all add: window_size_def)
  then have v: "vpn0 (KERNEL_SPACE_OFFSET + 0x1000) = vpn0 KERNEL_SPACE_OFFSET" "unat (vpn0 KERNEL_SPACE_OFFSET) = 256"
    by (simp_all add: word_unat_eq_iff)
  have "ent demo_window demo_root (vpn0 KERNEL_SPACE_OFFSET) = window_entry 256"
    using demo_window_facts(4) [of "vpn0 KERNEL_SPACE_OFFSET"] v by simp
  then have "same_entry demo_window demo_root KERNEL_SPACE_OFFSET (KERNEL_SPACE_OFFSET + 0x1000)"
    using window_entry_bits [of 256] by (simp add: same_entry_def walk_find [OF demo_window_facts(1)] find_entry_def v(1))
  then have "mmu_translate w demo_root (KERNEL_SPACE_OFFSET + 0x1000) = None"
    using mmu_remove_spec [OF demo_window_facts(1) r, of "KERNEL_SPACE_OFFSET + 0x1000"] by simp
  moreover have "mmu_translate demo_window demo_root (KERNEL_SPACE_OFFSET + 0x1000) = Some (phys2safe demo_window 0x1000)"
    using demo_window_facts(2) by (simp add: idmap_def window_size_def)
  ultimately show ?thesis using r by blast
qed

theorem mmu_change_flags_spec_witness:
  "mmu_translate (mmu_change_flags demo_root KERNEL_SPACE_OFFSET MMU_BIT_READ demo_window) demo_root
     (KERNEL_SPACE_OFFSET + 0x1000) = Some (phys2safe demo_window 0x1000)"
  using mmu_change_flags_spec [OF demo_window_facts(1), of MMU_BIT_READ KERNEL_SPACE_OFFSET "KERNEL_SPACE_OFFSET + 0x1000"]
    demo_window_facts(2)
  by (simp add: MMU_BIT_READ_def MMU_BIT_WRITE_def MMU_BIT_EXEC_def idmap_def window_size_def)

definition demo_image :: kernel_image where
  "demo_image = \<lparr>text_start = 0x80200000, data_start = 0x80204000, ro_data_start = 0x80206000,
     sdata_start = 0x80207000, sdata_end = 0x80208000, stack_start = 0x80300000, stack_top = 0x80308000\<rparr>"

theorem create_mmu_table_spec_witness:
  "\<exists>root w. create_mmu_table demo_image demo_state = Some (root, w) \<and>
     mmu_translate w root (KERNEL_SPACE_OFFSET + 0x80000000) = Some (phys2safe w 0x80000000) \<and>
     mmu_translate w root 0x80200123 = Some (phys2safe w 0x80200123)"
proof -
  have r: "kernel_ranges demo_image demo_state =
    [(0x80200000, 0x80204000), (0x80204000, 0x80206000), (0x80206000, 0x80207000), (0x80207000, 0x80208000),
     (0x80300000, 0x80308000), (0x80420000, 0x80421000)]"
    by (simp add: kernel_ranges_def image_ranges_def demo_image_def demo_state_def)
  obtain root w where w: "create_mmu_table demo_image demo_state = Some (root, w)"
    "\<forall>x. unat x < window_size \<longrightarrow> mmu_translate w root (KERNEL_SPACE_OFFSET + x) = Some (phys2safe w x)"
    "\<forall>(a, e)\<in>set (kernel_ranges demo_image demo_state). \<forall>va. a \<le> va \<and> va < e \<longrightarrow> mmu_translate w root va = Some (phys2safe w va)"
    using create_mmu_table_spec [OF demo_pool(1), of demo_image] unfolding r
    by (auto simp: range_ok_def range_pages_def window_size_def demo_pool(2))
  have "mmu_translate w root 0x80200123 = Some (phys2safe w 0x80200123)" using w(3) unfolding r by simp
  then show ?thesis using w(1,2) by (auto simp: window_size_def)
qed

end
