(* ===== verification/Scheduler.thy ===== *)
theory Scheduler
  imports Prelude
begin

text \<open>
  \<^verbatim>\<open>kernel/src/schedulers/\<close>: the interface of \<^verbatim>\<open>scheduler.h\<close> as a locale, with what its clients may
  conclude from it, and the round-robin scheduler of \<^verbatim>\<open>roundrobin.c\<close> as its instance. A \<^verbatim>\<open>pid_t\<close> (a signed
  64-bit integer) and the two counters (C \<^verbatim>\<open>int\<close>) are integers; the conversion from one to the other is
  written out.
\<close>

subsection \<open>The interface\<close>

text \<open>
  \<open>pool s\<close> are the tasks the scheduler may return. A task of the pool is returned after at most
  \<open>card (pool s)\<close> calls, and nothing else is ever returned.
\<close>

locale scheduler =
  fixes inv :: "'s \<Rightarrow> bool"
    and pool :: "'s \<Rightarrow> int set"
    and pick :: "'s \<Rightarrow> int \<times> 's"
  assumes pick_inv: "inv s \<Longrightarrow> inv (snd (pick s))"
    and pick_pool: "inv s \<Longrightarrow> pool (snd (pick s)) = pool s"
    and pick_in: "inv s \<Longrightarrow> fst (pick s) \<in> pool s"
    and pick_round: "inv s \<Longrightarrow> p \<in> pool s \<Longrightarrow> \<exists>k<card (pool s). fst (pick (((snd \<circ> pick) ^^ k) s)) = p"
begin

abbreviation after :: "nat \<Rightarrow> 's \<Rightarrow> 's" where "after n s \<equiv> ((snd \<circ> pick) ^^ n) s"

lemma after_inv: "inv s \<Longrightarrow> inv (after n s) \<and> pool (after n s) = pool s"
  by (induction n) (simp_all add: pick_inv pick_pool)

lemma picks_in_pool: "inv s \<Longrightarrow> fst (pick (after n s)) \<in> pool s"
  using after_inv [of s n] pick_in [of "after n s"] by simp

text \<open>Whenever one looks, a task of the pool runs again within one round.\<close>

lemma no_starvation:
  assumes "inv s" "p \<in> pool s"
  shows "\<exists>m. n \<le> m \<and> m < n + card (pool s) \<and> fst (pick (after m s)) = p"
proof -
  obtain k where k: "k < card (pool s)" "fst (pick (after k (after n s))) = p"
    using pick_round [of "after n s" p] after_inv [OF assms(1), of n] assms(2) by auto
  then have "fst (pick (after (k + n) s)) = p" by (simp add: funpow_add)
  then show ?thesis using k(1) by (intro exI [of _ "k + n"]) simp
qed

end

subsection \<open>The round-robin scheduler\<close>

datatype task_state_t = TASK_STATE_DEAD | TASK_STATE_RUNNING | TASK_STATE_BLOCK | TASK_STATE_READY

text \<open>Conversion of an integer to a C \<^verbatim>\<open>int\<close>.\<close>

definition to_int :: "int \<Rightarrow> int" where "to_int x = signed_take_bit 31 x"

record sched_t =
  sched_next :: int
  sched_up_to :: int

definition sched0 :: sched_t where "sched0 = \<lparr>sched_next = 0, sched_up_to = 0\<rparr>"

definition init_scheduler :: "int \<Rightarrow> sched_t \<Rightarrow> sched_t" where
  "init_scheduler max_pid sc = sc"

definition schedule_task :: "int \<Rightarrow> task_state_t \<Rightarrow> int \<Rightarrow> sched_t \<Rightarrow> sched_t" where
  "schedule_task pid state priority sc =
     (if pid > sched_up_to sc then sc\<lparr>sched_up_to := to_int pid\<rparr> else sc)"

definition should_switch_now :: "int \<Rightarrow> int \<Rightarrow> bool" where
  "should_switch_now pid priority \<longleftrightarrow> False"

definition next_scheduled_task :: "sched_t \<Rightarrow> int \<times> sched_t" where
  "next_scheduled_task sc =
     (let n = sched_next sc;
          sc = sc\<lparr>sched_next := to_int (sched_next sc + 1)\<rparr>;
          sc = (if sched_next sc > sched_up_to sc then sc\<lparr>sched_next := 0\<rparr> else sc)
      in (n, sc))"

definition unschedule_task :: "int \<Rightarrow> sched_t \<Rightarrow> sched_t" where
  "unschedule_task pid sc = sc"

definition sched_ok :: "sched_t \<Rightarrow> bool" where
  "sched_ok sc \<longleftrightarrow> 0 \<le> sched_next sc \<and> sched_next sc \<le> sched_up_to sc \<and> sched_up_to sc < 2 ^ 31 - 1"

definition sched_pool :: "sched_t \<Rightarrow> int set" where "sched_pool sc = {0..sched_up_to sc}"

lemma to_int_id: "0 \<le> x \<Longrightarrow> x < 2 ^ 31 \<Longrightarrow> to_int x = x"
  unfolding to_int_def by (rule signed_take_bit_int_eq_self) simp_all

lemma next_scheduled_task_eq:
  "sched_ok sc \<Longrightarrow> next_scheduled_task sc =
     (sched_next sc, sc\<lparr>sched_next := (sched_next sc + 1) mod (sched_up_to sc + 1)\<rparr>)"
  by (cases "sched_next sc = sched_up_to sc")
    (auto simp: next_scheduled_task_def sched_ok_def to_int_id Let_def)

lemma next_scheduled_ok: "sched_ok sc \<Longrightarrow> sched_ok (snd (next_scheduled_task sc))"
  using pos_mod_bound [of "sched_up_to sc + 1" "sched_next sc + 1"]
  by (simp add: next_scheduled_task_eq) (auto simp: sched_ok_def)

lemma schedule_task_ok:
  "sched_ok sc \<Longrightarrow> 0 \<le> pid \<Longrightarrow> pid < 2 ^ 31 - 1 \<Longrightarrow>
     sched_ok (schedule_task pid st pr sc) \<and> sched_up_to (schedule_task pid st pr sc) = max pid (sched_up_to sc) \<and>
     sched_next (schedule_task pid st pr sc) = sched_next sc"
  by (auto simp: schedule_task_def sched_ok_def to_int_id)

lemma picks_eq:
  "sched_ok sc \<Longrightarrow> ((snd \<circ> next_scheduled_task) ^^ n) sc =
     sc\<lparr>sched_next := (sched_next sc + int n) mod (sched_up_to sc + 1)\<rparr>"
proof (induction n)
  case 0
  then show ?case by (simp add: sched_ok_def)
next
  case (Suc n)
  let ?d = "((snd \<circ> next_scheduled_task) ^^ n) sc"
  have d: "?d = sc\<lparr>sched_next := (sched_next sc + int n) mod (sched_up_to sc + 1)\<rparr>" by (rule Suc.IH [OF Suc.prems])
  have "sched_ok ?d"
    using Suc.prems pos_mod_bound [of "sched_up_to sc + 1" "sched_next sc + int n"] unfolding d
    by (auto simp: sched_ok_def)
  then have "snd (next_scheduled_task ?d) = ?d\<lparr>sched_next := (sched_next ?d + 1) mod (sched_up_to ?d + 1)\<rparr>"
    by (simp only: next_scheduled_task_eq snd_conv)
  also have "\<dots> = sc\<lparr>sched_next := (sched_next sc + int (Suc n)) mod (sched_up_to sc + 1)\<rparr>"
    unfolding d by (simp add: mod_add_left_eq add.assoc) (simp add: add.commute)
  finally show ?case by (metis comp_apply funpow.simps(2))
qed

interpretation rr: scheduler sched_ok sched_pool next_scheduled_task
proof unfold_locales
  fix s p
  assume ok: "sched_ok s"
  show "sched_ok (snd (next_scheduled_task s))" by (rule next_scheduled_ok [OF ok])
  show "sched_pool (snd (next_scheduled_task s)) = sched_pool s"
    "fst (next_scheduled_task s) \<in> sched_pool s"
    using ok by (simp_all add: next_scheduled_task_eq sched_pool_def sched_ok_def)
  let ?n = "sched_up_to s + 1"
  assume p: "p \<in> sched_pool s"
  let ?k = "nat ((p - sched_next s) mod ?n)"
  have n: "0 < ?n" using ok by (simp add: sched_ok_def)
  have "(sched_next s + int ?k) mod ?n = p mod ?n" using n by (simp add: mod_add_right_eq)
  also have "\<dots> = p" using p by (simp add: sched_pool_def)
  finally have q: "(sched_next s + int ?k) mod ?n = p" .
  have "sched_ok (((snd \<circ> next_scheduled_task) ^^ ?k) s)"
    using ok p unfolding picks_eq [OF ok] q by (simp add: sched_ok_def sched_pool_def)
  then have "fst (next_scheduled_task (((snd \<circ> next_scheduled_task) ^^ ?k) s)) = p"
    unfolding picks_eq [OF ok] q by (simp add: next_scheduled_task_eq)
  moreover have "?k < card (sched_pool s)" using n pos_mod_bound [OF n, of "p - sched_next s"] by (simp add: sched_pool_def nat_less_iff)
  ultimately show "\<exists>k<card (sched_pool s). fst (next_scheduled_task (((snd \<circ> next_scheduled_task) ^^ k) s)) = p"
    by blast
qed



end
