(* ===== verification/Tasks.thy ===== *)
theory Tasks
  imports Mmu Scheduler Bucket_Alloc
begin

text \<open>
  The task table of \<^verbatim>\<open>kernel/src/process.c\<close> and the structures of \<^verbatim>\<open>process.h\<close> and \<^verbatim>\<open>interrupt.h\<close>. A pointer to a
  task is its index in the table; a pointer to a trap frame (\<open>trap_ref\<close>) names the frame of a task or the
  frame of a hart. Floating-point registers are kept as their bits.
\<close>

subsection \<open>Trap frames and tasks\<close>

record trap_t =
  trap_xs :: "u64 list"
  trap_pc :: u64
  trap_interrupt_stack :: u64
  trap_fs :: "u64 list"
  trap_hartid :: u64
  trap_pid :: int

definition REGISTER_RA :: nat where "REGISTER_RA = 1"
definition REGISTER_SP :: nat where "REGISTER_SP = 2"
definition REGISTER_FP :: nat where "REGISTER_FP = 8"
definition REGISTER_A0 :: nat where "REGISTER_A0 = 10"
definition REGISTER_A1 :: nat where "REGISTER_A1 = 11"

record s_task =
  task_name :: string
  task_pid :: int
  task_ppid :: int
  task_gid :: int
  task_tid :: int
  task_state :: task_state_t
  task_mmu_data :: u64
  task_priority :: int
  task_trap :: trap_t

datatype trap_ref = Hart_Trap nat | Task_Trap nat

text \<open>The kernel: the machine, the task table, the scheduler, the trap frames of the harts and the device
  registers that the trap handler uses.\<close>

record os =
  ks :: kstate
  tasks :: "s_task list"
  max_pid :: int
  sched :: sched_t
  traps :: "trap_t list"
  sstatus :: u64
  clock :: u64
  timer :: u64
  interrupt_subscribers_lock :: bool
  plic_completed :: "u32 list"
  plic_base :: u64
  plic_len :: u64
  sie :: u64
  sscratch :: "trap_ref option"
  cpu_count :: u64
  harts_started :: "(u64 \<times> u64) list"

subsection \<open>The task table\<close>

text \<open>The records of the table are kept beside the byte memory; \<open>fresh\<close> is what the allocated memory holds.\<close>

definition sizeof_task :: u64 where "sizeof_task = 856"

definition init_processes :: "u64 \<Rightarrow> int \<Rightarrow> (nat \<Rightarrow> s_task) \<Rightarrow> os \<Rightarrow> os option" where
  "init_processes ra mx fresh s = do {
     (p, k) \<leftarrow> malloc (ks s) ra (word_of_int mx * sizeof_task);
     Some (s\<lparr>ks := k, tasks := map fresh [0..<nat mx], max_pid := mx\<rparr>) }"

definition get_task :: "os \<Rightarrow> int \<Rightarrow> nat option" where
  "get_task s pid = (if pid \<ge> max_pid s \<or> pid < 0 then None else Some (nat pid))"

definition upd_task :: "nat \<Rightarrow> (s_task \<Rightarrow> s_task) \<Rightarrow> os \<Rightarrow> os" where
  "upd_task p f s = s\<lparr>tasks := (tasks s)[p := f (tasks s ! p)]\<rparr>"

text \<open>The first dead slot, as the loop at the start of \<^verbatim>\<open>spawn_task_from_elf\<close> finds it.\<close>

function free_slot :: "s_task list \<Rightarrow> nat \<Rightarrow> nat" where
  "free_slot ts pid =
     (if pid < length ts \<and> task_state (ts ! pid) \<noteq> TASK_STATE_DEAD then free_slot ts (pid + 1) else pid)"
  by pat_completeness auto
termination by (relation "measure (\<lambda>(ts, pid). length ts - pid)") auto

declare free_slot.simps [simp del]

definition spawn_task_from_func :: "int \<Rightarrow> u64 \<Rightarrow> u64 \<Rightarrow> u64 \<Rightarrow> os \<Rightarrow> nat option" where
  "spawn_task_from_func ppid func stack_size arg s = None"

fun read_trap :: "os \<Rightarrow> trap_ref \<Rightarrow> trap_t option" where
  "read_trap s (Hart_Trap h) = (if h < length (traps s) then Some (traps s ! h) else None)"
| "read_trap s (Task_Trap p) = (if p < length (tasks s) then Some (task_trap (tasks s ! p)) else None)"

fun write_trap :: "trap_ref \<Rightarrow> trap_t \<Rightarrow> os \<Rightarrow> os" where
  "write_trap (Hart_Trap h) t s = s\<lparr>traps := (traps s)[h := t]\<rparr>"
| "write_trap (Task_Trap p) t s = upd_task p (\<lambda>k. k\<lparr>task_trap := t\<rparr>) s"

subsection \<open>Well-formed task tables\<close>

text \<open>
  The tasks up to the largest pid that was ever scheduled are alive, and each one and its trap frame
  carry their own pid.
\<close>

definition task_ok :: "nat \<Rightarrow> s_task \<Rightarrow> bool" where
  "task_ok p t \<longleftrightarrow> task_state t \<noteq> TASK_STATE_DEAD \<and> task_pid t = int p \<and> trap_pid (task_trap t) = int p"

definition os_ok :: "os \<Rightarrow> bool" where
  "os_ok s \<longleftrightarrow> sched_ok (sched s) \<and> int (length (tasks s)) = max_pid s \<and> sched_up_to (sched s) < max_pid s \<and>
     (\<forall>p. int p \<le> sched_up_to (sched s) \<longrightarrow> task_ok p (tasks s ! p))"

lemma os_okD:
  assumes "os_ok s"
  shows "sched_ok (sched s)" "int (length (tasks s)) = max_pid s" "sched_up_to (sched s) < int (length (tasks s))"
    "int p \<le> sched_up_to (sched s) \<Longrightarrow> task_ok p (tasks s ! p)"
  using assms by (auto simp: os_ok_def)

lemma free_slot_spec:
  "k \<le> length ts \<Longrightarrow> k \<le> free_slot ts k \<and> free_slot ts k \<le> length ts \<and>
     (\<forall>p. k \<le> p \<and> p < free_slot ts k \<longrightarrow> task_state (ts ! p) \<noteq> TASK_STATE_DEAD) \<and>
     (free_slot ts k < length ts \<longrightarrow> task_state (ts ! free_slot ts k) = TASK_STATE_DEAD)"
proof (induction ts k rule: free_slot.induct)
  case (1 ts k)
  show ?case
  proof (cases "k < length ts \<and> task_state (ts ! k) \<noteq> TASK_STATE_DEAD")
    case True
    then have e: "free_slot ts k = free_slot ts (Suc k)" by (subst free_slot.simps) simp
    have "Suc k \<le> length ts" using True by simp
    then have IH: "Suc k \<le> free_slot ts (Suc k)" "free_slot ts (Suc k) \<le> length ts"
      "\<forall>p. Suc k \<le> p \<and> p < free_slot ts (Suc k) \<longrightarrow> task_state (ts ! p) \<noteq> TASK_STATE_DEAD"
      "free_slot ts (Suc k) < length ts \<longrightarrow> task_state (ts ! free_slot ts (Suc k)) = TASK_STATE_DEAD"
      using 1(1) [OF True] by auto
    have "task_state (ts ! p) \<noteq> TASK_STATE_DEAD" if "k \<le> p" "p < free_slot ts (Suc k)" for p
      using IH(3) True that by (cases "p = k") auto
    then show ?thesis using IH e by auto
  next
    case False
    then have "free_slot ts k = k" by (subst free_slot.simps) auto
    then show ?thesis using 1(2) False by auto
  qed
qed

end
