(* ===== verification/Interrupt.thy ===== *)
theory Interrupt
  imports Tasks
begin

text \<open>
  \<^verbatim>\<open>kernel/src/interrupt.c\<close>: the context switch, the lock tests and the trap handler. A NULL pointer that is
  dereferenced is the result \<open>None\<close>. \<open>firmware\<close> holds what comes from outside: the address of the
  assembly routine \<^verbatim>\<open>do_nothing\<close>, whether \<^verbatim>\<open>sbi_hart_suspend\<close> comes back, and the interrupt the PLIC reports.
  Writes to the CSRs are modelled as writes of the given value.
\<close>

record firmware =
  do_nothing :: u64
  suspend_returns :: bool
  plic_claim :: u32

text \<open>How a trap ends: the handler returns a frame, \<^verbatim>\<open>jump_out_of_trap\<close> leaves with one, the hart is suspended,
  or the kernel has reported an error and loops forever.\<close>

datatype trap_exit = Return trap_ref | Jump_Out trap_ref | Suspended trap_ref | Panic

definition PROCESS_QUANTUM :: u64 where "PROCESS_QUANTUM = 100000"

definition sbi_set_timer :: "u64 \<Rightarrow> os \<Rightarrow> os" where "sbi_set_timer t s = s\<lparr>timer := t\<rparr>"
definition get_time :: "os \<Rightarrow> u64" where "get_time s = clock s"

definition timer_switch :: "firmware \<Rightarrow> trap_ref \<Rightarrow> os \<Rightarrow> (trap_exit \<times> os) option" where
  "timer_switch fw trap s = do {
     t \<leftarrow> read_trap s trap;
     (task, s) \<leftarrow>
       (if trap_pid t \<ge> 0 then do {
          p \<leftarrow> get_task s (trap_pid t);
          let s = (if task_state (tasks s ! p) = TASK_STATE_RUNNING
                   then upd_task p (\<lambda>k. k\<lparr>task_state := TASK_STATE_READY\<rparr>) s else s);
          let k = tasks s ! p;
          Some (Some p, s\<lparr>sched := schedule_task (task_pid k) (task_state k) (task_priority k) (sched s)\<rparr>) }
        else Some (None, s));
     let (next_pid, sc) = next_scheduled_task (sched s);
     let s = s\<lparr>sched := sc\<rparr>;
     if next_pid < 0 then
       if \<not> suspend_returns fw then Some (Suspended trap, s)
       else
         let s = s\<lparr>sstatus := sstatus s OR (push_bit 8 1 OR push_bit 5 1)\<rparr>;
             s = write_trap trap (t\<lparr>trap_pc := do_nothing fw\<rparr>) s;
             s = sbi_set_timer (get_time s + PROCESS_QUANTUM) s
         in Some (Jump_Out trap, s)
     else
       let s = s\<lparr>sstatus := sstatus s AND NOT (push_bit 8 1 OR push_bit 5 1)\<rparr>
       in if trap_pid t = next_pid then do {
            p \<leftarrow> task;
            let s = upd_task p (\<lambda>k. k\<lparr>task_state := TASK_STATE_RUNNING\<rparr>) s;
            let s = sbi_set_timer (get_time s + PROCESS_QUANTUM) s;
            Some (Return trap, s) }
          else do {
            q \<leftarrow> get_task s next_pid;
            let s = upd_task q (\<lambda>k. k\<lparr>task_trap := (task_trap k)\<lparr>trap_hartid := trap_hartid t,
                 trap_interrupt_stack := trap_interrupt_stack t\<rparr>, task_state := TASK_STATE_RUNNING\<rparr>) s;
            let s = s\<lparr>ks := set_mmu (task_mmu_data (tasks s ! q)) (ks s)\<rparr>;
            let s = sbi_set_timer (get_time s + PROCESS_QUANTUM) s;
            Some (Return (Task_Trap q), s) } }"

subsection \<open>Locks on memory\<close>

definition lock_equals :: "kstate \<Rightarrow> u64 \<Rightarrow> u32 \<Rightarrow> u64 \<Rightarrow> bool" where
  "lock_equals s ref ty v =
     (let w = ty AND 0x06
      in if w = 0 then v = ucast (ld8 s ref)
         else if w = 2 then v = ucast (ld16 s ref)
         else if w = 4 then v = ucast (ld32 s ref)
         else if w = 6 then v = ld64 s ref
         else False)"

definition lock_stop :: "kstate \<Rightarrow> u64 \<Rightarrow> u32 \<Rightarrow> u64 \<Rightarrow> bool" where
  "lock_stop s ref ty v \<longleftrightarrow>
     ty AND 1 = 0 \<and> \<not> lock_equals s ref ty v \<or> ty AND 1 = 1 \<and> lock_equals s ref ty v"

subsection \<open>The trap handler\<close>

text \<open>
  A string in user memory, read through the installed page table up to its NUL; an address that is not
  mapped faults.
\<close>

partial_function (option) user_string :: "kstate \<Rightarrow> u64 \<Rightarrow> string option" where
  "user_string s va = do {
     a \<leftarrow> mmu_translate s (get_mmu s) va;
     if ld8 s a = 0 then Some []
     else do { t \<leftarrow> user_string s (va + 1); Some (to_char (ucast (ld8 s a)) # t) } }"

definition name_of :: "os \<Rightarrow> int \<Rightarrow> string" where
  "name_of s pid = (case get_task s pid of Some p \<Rightarrow> task_name (tasks s ! p) | None \<Rightarrow> ''<none>'')"

definition os_printf :: "string \<Rightarrow> va list \<Rightarrow> os \<Rightarrow> os option" where
  "os_printf fmt args s = map_option (\<lambda>k. s\<lparr>ks := k\<rparr>) (console_printf fmt args (ks s))"

definition handle_syscall :: "trap_ref \<Rightarrow> os \<Rightarrow> os option" where
  "handle_syscall trap s = do {
     t \<leftarrow> read_trap s trap;
     let t = t\<lparr>trap_pc := trap_pc t + 4\<rparr>;
     let s = write_trap trap t s;
     if trap_xs t ! REGISTER_A0 = 0 then do {
       p \<leftarrow> get_task s (trap_pid t);
       msg \<leftarrow> user_string (ks s) (trap_xs t ! REGISTER_A1);
       os_printf (''[PID 0x%lx (%s) @ hartid 0x%lx] %s'' @ [NL])
         [VWord (word_of_int (trap_pid t)), VStr (task_name (tasks s ! p)), VWord (trap_hartid t), VStr msg] s }
     else os_printf (''unknown syscall 0x%lx'' @ [NL]) [VWord (trap_xs t ! REGISTER_A0)] s }"

definition MAX_INTERRUPT :: u32 where "MAX_INTERRUPT = 64"

text \<open>The subscriber lists are empty; the loop over them does nothing.\<close>

definition handle_external :: "firmware \<Rightarrow> os \<Rightarrow> os option" where
  "handle_external fw s = do {
     s \<leftarrow> (if plic_claim fw \<noteq> 0 \<and> plic_claim fw \<le> MAX_INTERRUPT then do {
             l \<leftarrow> spin_lock (interrupt_subscribers_lock s);
             Some (s\<lparr>interrupt_subscribers_lock := False\<rparr>) }
           else Some s);
     Some (s\<lparr>plic_completed := plic_completed s @ [plic_claim fw]\<rparr>) }"

text \<open>The reports before the kernel stops.\<close>

definition async_panic :: "u64 \<Rightarrow> trap_t \<Rightarrow> os \<Rightarrow> (trap_exit \<times> os) option" where
  "async_panic cause t s = map_option (Pair Panic)
     (os_printf (''async cause: %lx'' @ NL # ''trap location: %lx'' @ NL # ''trap caller: %lx'' @ [NL])
       [VWord cause, VWord (trap_pc t), VWord (trap_xs t ! REGISTER_RA)] s)"

definition sync_panic :: "string \<Rightarrow> u64 \<Rightarrow> trap_t \<Rightarrow> os \<Rightarrow> os option" where
  "sync_panic who cause t s =
     os_printf (''cause: %lx'' @ NL # ''trap location: %lx'' @ NL # ''trap caller: %lx'' @ NL # ''trap '' @ who @ '': %lx (%s)'' @ [NL])
       [VWord cause, VWord (trap_pc t), VWord (trap_xs t ! REGISTER_RA), VWord (word_of_int (trap_pid t)),
        VStr (name_of s (trap_pid t))] s"

definition is_fault :: "u64 \<Rightarrow> bool" where
  "is_fault cause \<longleftrightarrow> cause \<in> {0, 1, 2, 4, 5, 6, 7, 12, 13, 15}"

text \<open>The end of the handler, reached by the cases that break out of the switch.\<close>

definition finish_trap :: "firmware \<Rightarrow> trap_ref \<Rightarrow> os \<Rightarrow> (trap_exit \<times> os) option" where
  "finish_trap fw trap s = do {
     t \<leftarrow> read_trap s trap;
     p \<leftarrow> get_task s (trap_pid t);
     if should_switch_now (trap_pid t) (task_priority (tasks s ! p)) then timer_switch fw trap s
     else Some (Return trap, s) }"

definition interrupt_handler :: "firmware \<Rightarrow> u64 \<Rightarrow> trap_ref \<Rightarrow> os \<Rightarrow> (trap_exit \<times> os) option" where
  "interrupt_handler fw cause trap s = do {
     t \<leftarrow> read_trap s trap;
     if cause AND 0x8000000000000000 \<noteq> 0 then
       let cause = cause AND 0x7fffffffffffffff
       in if cause = 1 then
            if get_task s (trap_pid t) = None then do {
              (e, s) \<leftarrow> timer_switch fw trap s;
              case e of Return _ \<Rightarrow> finish_trap fw trap s | _ \<Rightarrow> Some (e, s) }
            else finish_trap fw trap s
          else if cause = 5 then timer_switch fw trap s
          else if cause = 9 then do { s \<leftarrow> handle_external fw s; finish_trap fw trap s }
          else async_panic cause t s
     else if cause = 3 then do { s \<leftarrow> os_printf (''breakpoint'' @ [NL]) [] s; finish_trap fw trap s }
     else if cause = 8 then do { s \<leftarrow> handle_syscall trap s; finish_trap fw trap s }
     else if is_fault cause then do {
       s \<leftarrow> sync_panic ''process'' cause t s;
       s \<leftarrow> os_printf (''KERNEL PANIC! INITD FAULTED!'' @ [NL]) [] s;
       Some (Panic, s) }
     else do { s \<leftarrow> sync_panic ''task'' cause t s; Some (Panic, s) } }"

subsection \<open>The context switch\<close>

text \<open>The frame a hart runs on: its own idle frame, or the frame of a scheduled task.\<close>

definition current_ok :: "os \<Rightarrow> trap_ref \<Rightarrow> bool" where
  "current_ok s r \<longleftrightarrow> (case r of
       Hart_Trap h \<Rightarrow> h < length (traps s) \<and> trap_pid (traps s ! h) < 0
     | Task_Trap p \<Rightarrow> int p \<le> sched_up_to (sched s))"

text \<open>What a switch does to the table: the running task steps back, the next one runs.\<close>

definition stepped_back :: "s_task \<Rightarrow> s_task" where
  "stepped_back k = (if task_state k = TASK_STATE_RUNNING then k\<lparr>task_state := TASK_STATE_READY\<rparr> else k)"

definition taken_over :: "trap_t \<Rightarrow> s_task \<Rightarrow> s_task" where
  "taken_over t k = k\<lparr>task_trap := (task_trap k)\<lparr>trap_hartid := trap_hartid t,
     trap_interrupt_stack := trap_interrupt_stack t\<rparr>, task_state := TASK_STATE_RUNNING\<rparr>"

lemma schedule_known: "pid \<le> sched_up_to sc \<Longrightarrow> schedule_task pid st pr sc = sc"
  by (simp add: schedule_task_def)

lemma get_task_ok: "os_ok s \<Longrightarrow> int p \<le> sched_up_to (sched s) \<Longrightarrow> get_task s (int p) = Some p"
  by (auto simp: get_task_def os_ok_def)

lemma timer_switch_idle:
  assumes ok: "os_ok s" and h: "h < length (traps s)" "trap_pid (traps s ! h) < 0"
  defines "t \<equiv> traps s ! h"
  defines "n \<equiv> nat (sched_next (sched s))"
  shows "timer_switch fw (Hart_Trap h) s = Some (Return (Task_Trap n),
    s\<lparr>ks := set_mmu (task_mmu_data (tasks s ! n)) (ks s), tasks := (tasks s)[n := taken_over t (tasks s ! n)],
      sched := snd (next_scheduled_task (sched s)),
      sstatus := sstatus s AND NOT (push_bit 8 1 OR push_bit 5 1), timer := clock s + PROCESS_QUANTUM\<rparr>)"
proof -
  have so: "sched_ok (sched s)" by (rule os_okD [OF ok])
  have n: "sched_next (sched s) = int n" "n < length (tasks s)" "\<not> max_pid s \<le> int n"
    using so os_okD(2,3) [OF ok] by (auto simp: n_def sched_ok_def)
  have neg: "\<not> 0 \<le> trap_pid t" "trap_pid t \<noteq> int n" using h(2) by (auto simp: t_def)
  show ?thesis
    using h(1) n neg
    by (simp add: timer_switch_def t_def [symmetric] next_scheduled_task_eq [OF so] get_task_def upd_task_def taken_over_def
        sbi_set_timer_def get_time_def Let_def)
qed

lemma timer_switch_task:
  assumes ok: "os_ok s" and p: "int p \<le> sched_up_to (sched s)"
  defines "t \<equiv> task_trap (tasks s ! p)"
  defines "n \<equiv> nat (sched_next (sched s))"
  defines "ts \<equiv> (tasks s)[p := stepped_back (tasks s ! p)]"
  shows "timer_switch fw (Task_Trap p) s = Some (Return (Task_Trap n),
    s\<lparr>ks := (if n = p then ks s else set_mmu (task_mmu_data (tasks s ! n)) (ks s)),
      tasks := ts[n := (if n = p then (ts ! p)\<lparr>task_state := TASK_STATE_RUNNING\<rparr> else taken_over t (ts ! n))],
      sched := snd (next_scheduled_task (sched s)),
      sstatus := sstatus s AND NOT (push_bit 8 1 OR push_bit 5 1), timer := clock s + PROCESS_QUANTUM\<rparr>)"
proof -
  have so: "sched_ok (sched s)" by (rule os_okD [OF ok])
  have n: "sched_next (sched s) = int n" "n < length (tasks s)" "\<not> max_pid s \<le> int n"
    using so os_okD(2,3) [OF ok] by (auto simp: n_def sched_ok_def)
  have pl: "p < length (tasks s)" "\<not> max_pid s \<le> int p" using p os_okD(2,3) [OF ok] by auto
  have tp: "trap_pid t = int p" "task_pid (tasks s ! p) = int p"
    using os_okD(4) [OF ok p] by (simp_all add: task_ok_def t_def)
  define s1 where "s1 = s\<lparr>tasks := ts\<rparr>"
  have s1: "(if task_state (tasks s ! p) = TASK_STATE_RUNNING
      then upd_task p (\<lambda>k. k\<lparr>task_state := TASK_STATE_READY\<rparr>) s else s) = s1"
    using pl by (simp add: s1_def ts_def stepped_back_def upd_task_def)
  have k: "task_pid (ts ! p) = int p" using tp pl by (simp add: ts_def stepped_back_def)
  have first: "timer_switch fw (Task_Trap p) s = do {
      (task, s) \<leftarrow> Some (Some p, s1);
      let (next_pid, sc) = (int n, snd (next_scheduled_task (sched s)));
      let s = s\<lparr>sched := sc, sstatus := sstatus s AND NOT (push_bit 8 1 OR push_bit 5 1)\<rparr>;
      if trap_pid t = next_pid then do {
        p \<leftarrow> task;
        let s = upd_task p (\<lambda>k. k\<lparr>task_state := TASK_STATE_RUNNING\<rparr>) s;
        let s = sbi_set_timer (get_time s + PROCESS_QUANTUM) s;
        Some (Return (Task_Trap p), s) }
      else do {
        q \<leftarrow> get_task s next_pid;
        let s = upd_task q (taken_over t) s;
        let s = s\<lparr>ks := set_mmu (task_mmu_data (tasks s ! q)) (ks s)\<rparr>;
        let s = sbi_set_timer (get_time s + PROCESS_QUANTUM) s;
        Some (Return (Task_Trap q), s) } }"
    using pl p tp k so n s1
    by (simp add: timer_switch_def t_def [symmetric] next_scheduled_task_eq get_task_def schedule_known taken_over_def [abs_def]
        s1_def Let_def)
  have len: "length ts = length (tasks s)" by (simp add: ts_def)
  have mmu: "n \<noteq> p \<Longrightarrow> ts ! n = tasks s ! n" by (simp add: ts_def)
  show ?thesis
  proof (cases "n = p")
    case True
    then show ?thesis using tp pl len
      by (simp add: first s1_def upd_task_def sbi_set_timer_def get_time_def)
  next
    case False
    then show ?thesis using tp n mmu len
      by (simp add: first s1_def upd_task_def sbi_set_timer_def get_time_def get_task_def taken_over_def)
  qed
qed

end
