(* ===== verification/Interrupt_Spec.thy ===== *)
theory Interrupt_Spec
  imports Interrupt
begin

text \<open>
  What the context switch and the trap handler do to well-formed task tables, the runs of one hart, and
  two cases the handler does not cover.
\<close>

subsection \<open>One switch\<close>

text \<open>The parts of a task that belong to its program.\<close>

definition program_state :: "s_task \<Rightarrow> string \<times> u64 list \<times> u64 \<times> u64 list \<times> u64" where
  "program_state k = (task_name k, trap_xs (task_trap k), trap_pc (task_trap k), trap_fs (task_trap k), task_mmu_data k)"

lemma taken_over_simps [simp]:
  "program_state (taken_over t k) = program_state k" "program_state (stepped_back k) = program_state k"
  "task_state (taken_over t k) = TASK_STATE_RUNNING" "task_pid (taken_over t k) = task_pid k"
  "trap_pid (task_trap (taken_over t k)) = trap_pid (task_trap k)" "task_pid (stepped_back k) = task_pid k"
  "task_trap (stepped_back k) = task_trap k" "task_mmu_data (taken_over t k) = task_mmu_data k"
  "trap_hartid (task_trap (taken_over t k)) = trap_hartid t"
  "trap_interrupt_stack (task_trap (taken_over t k)) = trap_interrupt_stack t"
  "program_state (k\<lparr>task_state := st\<rparr>) = program_state k"
  by (simp_all add: taken_over_def stepped_back_def program_state_def)

lemma stepped_back_state:
  "task_state (stepped_back k) = (if task_state k = TASK_STATE_RUNNING then TASK_STATE_READY else task_state k)"
  by (simp add: stepped_back_def)

lemma task_ok_steps:
  "task_ok p k \<Longrightarrow> task_ok p (stepped_back k)" "task_ok p k \<Longrightarrow> task_ok p (taken_over t k)"
  "task_ok p k \<Longrightarrow> task_ok p (k\<lparr>task_state := TASK_STATE_RUNNING\<rparr>)"
  by (auto simp: task_ok_def stepped_back_state)

lemma os_ok_tasks:
  assumes "os_ok s" "length ts = length (tasks s)" "\<And>p. int p \<le> sched_up_to (sched s) \<Longrightarrow> task_ok p (ts ! p)"
    and "tasks s' = ts" "max_pid s' = max_pid s" "sched s' = snd (next_scheduled_task (sched s))"
  shows "os_ok s'"
proof -
  have so: "sched_ok (sched s)" by (rule os_okD [OF assms(1)])
  have "sched_up_to (snd (next_scheduled_task (sched s))) = sched_up_to (sched s)"
    using so by (simp add: next_scheduled_task_eq)
  then show ?thesis using assms next_scheduled_ok [OF so] by (simp add: os_ok_def)
qed

text \<open>The table after a switch, in one formula for both kinds of frames.\<close>

definition switched :: "os \<Rightarrow> trap_ref \<Rightarrow> nat \<Rightarrow> nat \<Rightarrow> s_task" where
  "switched s r n q =
     (let k = (case r of Task_Trap p \<Rightarrow> if q = p then stepped_back (tasks s ! q) else tasks s ! q | Hart_Trap _ \<Rightarrow> tasks s ! q)
      in if q \<noteq> n then k
         else if r = Task_Trap n then k\<lparr>task_state := TASK_STATE_RUNNING\<rparr>
         else taken_over (the (read_trap s r)) k)"

lemma switched_ok: "task_ok q (tasks s ! q) \<Longrightarrow> task_ok q (switched s r n q)"
  by (cases r) (auto simp: switched_def Let_def task_ok_steps)

lemma switched_program: "program_state (switched s r n q) = program_state (tasks s ! q)"
  by (cases r) (auto simp: switched_def Let_def)

lemma timer_switch_switched:
  assumes ok: "os_ok s" and cur: "current_ok s r"
  defines "n \<equiv> nat (sched_next (sched s))"
  obtains s' where "timer_switch fw r s = Some (Return (Task_Trap n), s')" "length (tasks s') = length (tasks s)"
    "\<And>q. q < length (tasks s) \<Longrightarrow> tasks s' ! q = switched s r n q"
    "ks s' = (if r = Task_Trap n then ks s else set_mmu (task_mmu_data (tasks s ! n)) (ks s))"
    "sched s' = snd (next_scheduled_task (sched s))" "max_pid s' = max_pid s" "traps s' = traps s"
    "timer s' = clock s + PROCESS_QUANTUM" "clock s' = clock s"
proof -
  have n: "n < length (tasks s)" using os_okD(1,3) [OF ok] by (auto simp: n_def sched_ok_def)
  show thesis
  proof (cases r)
    case (Hart_Trap h)
    then have h: "h < length (traps s)" "trap_pid (traps s ! h) < 0" using cur by (simp_all add: current_ok_def)
    show thesis
      by (rule that, unfold Hart_Trap n_def, rule timer_switch_idle [OF ok h])
        (use n in \<open>auto simp: n_def nth_list_update switched_def h Let_def\<close>)
  next
    case (Task_Trap p)
    then have p: "int p \<le> sched_up_to (sched s)" using cur by (simp add: current_ok_def)
    then have pl: "p < length (tasks s)" using os_okD(3) [OF ok] by simp
    show thesis
      by (rule that, unfold Task_Trap n_def, rule timer_switch_task [OF ok p])
        (use n pl in \<open>auto simp: n_def nth_list_update switched_def Let_def\<close>)
  qed
qed

text \<open>C14. The context switch on a well-formed table: the task whose turn it is runs next and its frame is
  returned; a running task that has to wait becomes ready; no task loses a register, its name or its
  page table; the next task's page table is installed unless it was running already; the timer is set.
  The table stays well formed.\<close>

theorem timer_switch_spec:
  assumes "os_ok s" "current_ok s r"
  shows "\<exists>s'. timer_switch fw r s = Some (Return (Task_Trap (nat (sched_next (sched s)))), s') \<and>
    os_ok s' \<and> current_ok s' (Task_Trap (nat (sched_next (sched s)))) \<and>
    task_state (tasks s' ! nat (sched_next (sched s))) = TASK_STATE_RUNNING \<and>
    (\<forall>p<length (tasks s). p \<noteq> nat (sched_next (sched s)) \<longrightarrow>
       tasks s' ! p = (if r = Task_Trap p then stepped_back (tasks s ! p) else tasks s ! p)) \<and>
    (\<forall>p<length (tasks s). program_state (tasks s' ! p) = program_state (tasks s ! p)) \<and>
    ks s' = (if r = Task_Trap (nat (sched_next (sched s))) then ks s
             else set_mmu (task_mmu_data (tasks s ! nat (sched_next (sched s)))) (ks s)) \<and>
    timer s' = clock s + PROCESS_QUANTUM"
proof -
  define n where "n = nat (sched_next (sched s))"
  have so: "sched_ok (sched s)" by (rule os_okD [OF assms(1)])
  have n: "n < length (tasks s)" "int n \<le> sched_up_to (sched s)"
    using so os_okD(3) [OF assms(1)] by (auto simp: n_def sched_ok_def)
  obtain s' where s': "timer_switch fw r s = Some (Return (Task_Trap n), s')" "length (tasks s') = length (tasks s)"
    "\<And>q. q < length (tasks s) \<Longrightarrow> tasks s' ! q = switched s r n q"
    "ks s' = (if r = Task_Trap n then ks s else set_mmu (task_mmu_data (tasks s ! n)) (ks s))"
    "sched s' = snd (next_scheduled_task (sched s))" "max_pid s' = max_pid s" "traps s' = traps s"
    "timer s' = clock s + PROCESS_QUANTUM" "clock s' = clock s"
    by (rule timer_switch_switched [OF assms, where fw = fw, folded n_def]) (rule that)
  have tok: "task_ok q (tasks s' ! q)" if "int q \<le> sched_up_to (sched s)" for q
    using switched_ok [OF os_okD(4) [OF assms(1) that]] s'(3) [of q] that os_okD(3) [OF assms(1)] by simp
  have "os_ok s'" by (rule os_ok_tasks [OF assms(1) s'(2) tok refl s'(6,5)])
  moreover have "current_ok s' (Task_Trap n)" using n s'(5) so by (simp add: current_ok_def next_scheduled_task_eq)
  moreover have "task_state (tasks s' ! n) = TASK_STATE_RUNNING" using s'(3) n by (simp add: switched_def Let_def)
  moreover have "tasks s' ! p = (if r = Task_Trap p then stepped_back (tasks s ! p) else tasks s ! p)"
    if "p < length (tasks s)" "p \<noteq> n" for p
    using s'(3) [OF that(1)] that(2) by (auto simp: switched_def Let_def split: trap_ref.splits)
  moreover have "program_state (tasks s' ! p) = program_state (tasks s ! p)" if "p < length (tasks s)" for p
    using s'(3) [OF that] by (simp add: switched_program)
  ultimately show ?thesis unfolding n_def [symmetric] using s'(1,4,8) by blast
qed

subsection \<open>The runs of one hart\<close>

text \<open>
  Between two timer interrupts the current program changes its own registers and time passes.
\<close>

inductive hart_step :: "firmware \<Rightarrow> os \<times> trap_ref \<Rightarrow> os \<times> trap_ref \<Rightarrow> bool" for fw where
  run_program: "read_trap s r = Some t \<Longrightarrow>
     hart_step fw (s, r) (write_trap r (t\<lparr>trap_xs := rs, trap_pc := pc, trap_fs := fs\<rparr>) s, r)"
| pass_time: "hart_step fw (s, r) (s\<lparr>clock := c\<rparr>, r)"
| timer_interrupt: "timer_switch fw r s = Some (Return r', s') \<Longrightarrow> hart_step fw (s, r) (s', r')"

definition hart_run :: "firmware \<Rightarrow> os \<times> trap_ref \<Rightarrow> os \<times> trap_ref \<Rightarrow> bool" where
  "hart_run fw = (hart_step fw)\<^sup>*\<^sup>*"

inductive_cases hart_stepE: "hart_step fw (s, r) (s', r')"

text \<open>Exactly the task whose frame the hart uses is marked as running.\<close>

definition one_running :: "os \<Rightarrow> trap_ref \<Rightarrow> bool" where
  "one_running s r \<longleftrightarrow> os_ok s \<and> current_ok s r \<and>
     (\<forall>q<length (tasks s). task_state (tasks s ! q) = TASK_STATE_RUNNING \<longleftrightarrow> r = Task_Trap q)"

lemma one_running_switch:
  assumes "one_running s r" "timer_switch fw r s = Some (Return r', s')"
  shows "one_running s' r' \<and> length (tasks s') = length (tasks s)"
proof -
  have ok: "os_ok s" "current_ok s r" using assms(1) by (simp_all add: one_running_def)
  define n where "n = nat (sched_next (sched s))"
  have so: "sched_ok (sched s)" by (rule os_okD [OF ok(1)])
  have n: "n < length (tasks s)" "int n \<le> sched_up_to (sched s)"
    using so os_okD(3) [OF ok(1)] by (auto simp: n_def sched_ok_def)
  obtain s1 where s1: "timer_switch fw r s = Some (Return (Task_Trap n), s1)" "length (tasks s1) = length (tasks s)"
    "\<And>q. q < length (tasks s) \<Longrightarrow> tasks s1 ! q = switched s r n q"
    "sched s1 = snd (next_scheduled_task (sched s))" "max_pid s1 = max_pid s"
    by (rule timer_switch_switched [OF ok, where fw = fw, folded n_def]) (rule that)
  have eq: "s' = s1" "r' = Task_Trap n" using assms(2) s1(1) by simp_all
  have tok: "task_ok q (tasks s1 ! q)" if "int q \<le> sched_up_to (sched s)" for q
    using switched_ok [OF os_okD(4) [OF ok(1) that]] s1(3) [of q] that os_okD(3) [OF ok(1)] by simp
  have "os_ok s1" by (rule os_ok_tasks [OF ok(1) s1(2) tok refl s1(5,4)])
  moreover have "current_ok s1 (Task_Trap n)" using n s1(4) so by (simp add: current_ok_def next_scheduled_task_eq)
  moreover have "task_state (tasks s1 ! q) = TASK_STATE_RUNNING \<longleftrightarrow> Task_Trap n = Task_Trap q" if q: "q < length (tasks s)" for q
  proof -
    have "task_state (tasks s ! q) = TASK_STATE_RUNNING \<longleftrightarrow> r = Task_Trap q" using assms(1) q by (simp add: one_running_def)
    then show ?thesis using s1(3) [OF q] by (auto simp: switched_def Let_def stepped_back_state split: trap_ref.splits)
  qed
  ultimately show ?thesis using eq s1(2) by (simp add: one_running_def)
qed

lemma one_running_program:
  assumes "one_running s r" "read_trap s r = Some t"
  shows "one_running (write_trap r (t\<lparr>trap_xs := rs, trap_pc := pc, trap_fs := fs\<rparr>) s) r"
proof (cases r)
  case (Hart_Trap h)
  then show ?thesis using assms by (auto simp: one_running_def os_ok_def current_ok_def split: if_splits)
next
  case (Task_Trap p)
  then have t: "p < length (tasks s)" "t = task_trap (tasks s ! p)" using assms(2) by (auto split: if_splits)
  then show ?thesis using assms(1) Task_Trap
    by (auto simp: one_running_def os_ok_def current_ok_def upd_task_def nth_list_update task_ok_def)
qed

lemma one_running_step: "hart_step fw (s, r) (s', r') \<Longrightarrow> one_running s r \<Longrightarrow> one_running s' r'"
proof (erule hart_stepE)
  fix c assume "s' = s\<lparr>clock := c\<rparr>" "r' = r" "one_running s r"
  then show "one_running s' r'" by (simp add: one_running_def os_ok_def current_ok_def split: trap_ref.splits)
qed (auto simp: one_running_program dest: one_running_switch)

lemma hart_run_inv:
  assumes "hart_run fw (s, r) (s', r')" "one_running s r"
  shows "one_running s' r'"
  using assms(1) unfolding hart_run_def
proof (induction rule: rtranclp_induct2)
  case refl
  then show ?case by (rule assms(2))
next
  case (step s1 r1 s2 r2)
  then show ?case using one_running_step by blast
qed


subsection \<open>Two tasks and three harts, as an example\<close>

definition demo_firmware :: firmware where
  "demo_firmware = \<lparr>do_nothing = 0x80200000, suspend_returns = True, plic_claim = 10\<rparr>"

definition demo_trap :: "int \<Rightarrow> trap_t" where
  "demo_trap p = \<lparr>trap_xs = replicate 32 7, trap_pc = 0x1000, trap_interrupt_stack = 0, trap_fs = replicate 32 0,
     trap_hartid = 0, trap_pid = p\<rparr>"

definition demo_task :: "nat \<Rightarrow> s_task" where
  "demo_task p = \<lparr>task_name = ''initd'', task_pid = int p, task_ppid = 0, task_gid = int p, task_tid = int p,
     task_state = TASK_STATE_READY, task_mmu_data = 0, task_priority = 0, task_trap = demo_trap (int p)\<rparr>"

definition demo_os :: "int \<Rightarrow> os" where
  "demo_os u = \<lparr>ks = kstate0, tasks = map demo_task [0..<4], max_pid = 4, sched = \<lparr>sched_next = 0, sched_up_to = u\<rparr>,
     traps = map (\<lambda>h. (demo_trap (-1))\<lparr>trap_hartid := of_nat h\<rparr>) [0..<3], sstatus = 0, clock = 0, timer = 0,
     interrupt_subscribers_lock = False, plic_completed = [], plic_base = 0, plic_len = 0, sie = 0,
     sscratch = None, cpu_count = 0, harts_started = []\<rparr>"

lemma demo_os_ok: "0 \<le> u \<Longrightarrow> u < 4 \<Longrightarrow> os_ok (demo_os u)"
proof -
  assume u: "0 \<le> u" "u < 4"
  have "task_ok p (map demo_task [0..<4] ! p)" if "int p \<le> u" for p
    using that u by (subst nth_map) (auto simp: task_ok_def demo_task_def demo_trap_def)
  then show ?thesis using u by (simp add: os_ok_def demo_os_def sched_ok_def)
qed

lemma demo_current: "h < 3 \<Longrightarrow> current_ok (demo_os u) (Hart_Trap h)"
  by (auto simp: current_ok_def demo_os_def demo_trap_def less_Suc_eq numeral_3_eq_3)

lemma demo_one_running: "0 \<le> u \<Longrightarrow> u < 4 \<Longrightarrow> h < 3 \<Longrightarrow> one_running (demo_os u) (Hart_Trap h)"
  using demo_os_ok [of u] demo_current [of h u] by (auto simp: one_running_def demo_os_def demo_task_def less_Suc_eq numeral_eq_Suc)

theorem timer_switch_spec_witness:
  "\<exists>s'. timer_switch demo_firmware (Hart_Trap 2) (demo_os 1) = Some (Return (Task_Trap 0), s') \<and>
     task_state (tasks s' ! 0) = TASK_STATE_RUNNING \<and> timer s' = 100000"
  using timer_switch_spec [of "demo_os 1" "Hart_Trap 2" demo_firmware] demo_os_ok [of 1] demo_current [of 2 1]
  by (auto simp: demo_os_def PROCESS_QUANTUM_def)


subsection \<open>Several harts\<close>

text \<open>C35. The table is shared by the harts, and the scheduler does not look at the state of a task: with a
  single task, two harts whose timers fire one after the other both get that task. Both then save
  their registers into one frame; the frame names the second hart only.\<close>

theorem same_task_on_two_harts:
  assumes "os_ok s" "sched_up_to (sched s) = 0" "current_ok s (Hart_Trap h)" "current_ok s (Hart_Trap k)"
  shows "\<exists>s1 s2. timer_switch fw (Hart_Trap h) s = Some (Return (Task_Trap 0), s1) \<and>
    timer_switch fw (Hart_Trap k) s1 = Some (Return (Task_Trap 0), s2) \<and>
    task_state (tasks s1 ! 0) = TASK_STATE_RUNNING \<and>
    trap_hartid (task_trap (tasks s2 ! 0)) = trap_hartid (traps s ! k)"
proof -
  have z: "nat (sched_next (sched s)) = 0" using os_okD(1) [OF assms(1)] assms(2) by (simp add: sched_ok_def)
  have l: "0 < length (tasks s)" using os_okD(3) [OF assms(1)] assms(2) by simp
  obtain s1 where s1: "timer_switch fw (Hart_Trap h) s = Some (Return (Task_Trap 0), s1)" "length (tasks s1) = length (tasks s)"
    "\<And>q. q < length (tasks s) \<Longrightarrow> tasks s1 ! q = switched s (Hart_Trap h) 0 q"
    "sched s1 = snd (next_scheduled_task (sched s))" "max_pid s1 = max_pid s" "traps s1 = traps s"
    by (rule timer_switch_switched [OF assms(1,3), where fw = fw, unfolded z]) (rule that)
  have tok: "task_ok q (tasks s1 ! q)" if "int q \<le> sched_up_to (sched s)" for q
    using switched_ok [OF os_okD(4) [OF assms(1) that]] s1(3) [of q] that os_okD(3) [OF assms(1)] by simp
  have ok1: "os_ok s1" by (rule os_ok_tasks [OF assms(1) s1(2) tok refl s1(5,4)])
  have z1: "nat (sched_next (sched s1)) = 0" "sched_up_to (sched s1) = 0"
    using s1(4) next_scheduled_task_eq [OF os_okD(1) [OF assms(1)]] assms(2) by simp_all
  have cur: "current_ok s1 (Hart_Trap k)" using assms(4) s1(6) by (simp add: current_ok_def)
  obtain s2 where s2: "timer_switch fw (Hart_Trap k) s1 = Some (Return (Task_Trap 0), s2)"
    "\<And>q. q < length (tasks s1) \<Longrightarrow> tasks s2 ! q = switched s1 (Hart_Trap k) 0 q"
    by (rule timer_switch_switched [OF ok1 cur, where fw = fw, unfolded z1]) (rule that)
  have "k < length (traps s)" using assms(4) by (simp add: current_ok_def)
  then have "trap_hartid (task_trap (tasks s2 ! 0)) = trap_hartid (traps s ! k)"
    using s2(2) [of 0] l s1(2,6) by (simp add: switched_def Let_def)
  moreover have "task_state (tasks s1 ! 0) = TASK_STATE_RUNNING" using s1(3) [OF l] by (simp add: switched_def Let_def)
  ultimately show ?thesis using s1(1) s2(1) by blast
qed

theorem same_task_on_two_harts_witness:
  "\<exists>s1 s2. timer_switch demo_firmware (Hart_Trap 1) (demo_os 0) = Some (Return (Task_Trap 0), s1) \<and>
    timer_switch demo_firmware (Hart_Trap 2) s1 = Some (Return (Task_Trap 0), s2) \<and> trap_hartid (task_trap (tasks s2 ! 0)) = 2"
  using same_task_on_two_harts [of "demo_os 0" 1 2 demo_firmware] demo_os_ok [of 0] demo_current [of 1 0] demo_current [of 2 0]
  by (auto simp: demo_os_def)

subsection \<open>System calls and interrupts\<close>

lemma get_task_cong: "max_pid s' = max_pid s \<Longrightarrow> get_task s' = get_task s"
  by (simp add: get_task_def fun_eq_iff)

lemma finish_task:
  assumes "os_ok s" "int p \<le> sched_up_to (sched s)" "max_pid s' = max_pid s" "p < length (tasks s')"
    "trap_pid (task_trap (tasks s' ! p)) = int p"
  shows "finish_trap fw (Task_Trap p) s' = Some (Return (Task_Trap p), s')"
  using assms get_task_ok [OF assms(1,2)] by (simp add: finish_trap_def get_task_cong [of s' s] should_switch_now_def)

lemma print_uart:
  "console_vprintf (''[PID 0x%lx (%s) @ hartid 0x%lx] %s'' @ [NL]) [VWord p, VStr n, VWord h, VStr m] =
     Some (''[PID 0x'' @ put_hex p @ '' ('' @ n @ '') @ hartid 0x'' @ put_hex h @ ''] '' @ m @ [NL])"
  by (simp add: long_size_def va_arg_word_def va_arg_str_def)

lemma print_unknown:
  "console_vprintf (''unknown syscall 0x%lx'' @ [NL]) [VWord a] = Some (''unknown syscall 0x'' @ put_hex a @ [NL])"
  by (simp add: long_size_def va_arg_word_def)

lemma syscall_result:
  assumes "os_ok s" "int p \<le> sched_up_to (sched s)"
    and "trap_xs (task_trap (tasks s ! p)) ! REGISTER_A0 = 0 \<longrightarrow>
      user_string (ks s) (trap_xs (task_trap (tasks s ! p)) ! REGISTER_A1) = Some msg"
  shows "interrupt_handler fw 8 (Task_Trap p) s = Some (Return (Task_Trap p),
    s\<lparr>tasks := (tasks s)[p := (tasks s ! p)\<lparr>task_trap := (task_trap (tasks s ! p))\<lparr>trap_pc := trap_pc (task_trap (tasks s ! p)) + 4\<rparr>\<rparr>],
      ks := (ks s)\<lparr>console_out := console_out (ks s) @
        (if trap_xs (task_trap (tasks s ! p)) ! REGISTER_A0 = 0
         then ''[PID 0x'' @ put_hex (of_nat p) @ '' ('' @ task_name (tasks s ! p) @ '') @ hartid 0x'' @
              put_hex (trap_hartid (task_trap (tasks s ! p))) @ ''] '' @ msg @ [NL]
         else ''unknown syscall 0x'' @ put_hex (trap_xs (task_trap (tasks s ! p)) ! REGISTER_A0) @ [NL])\<rparr>\<rparr>)"
proof -
  have pl: "p < length (tasks s)" using assms(2) os_okD(3) [OF assms(1)] by simp
  have tp: "trap_pid (task_trap (tasks s ! p)) = int p" using os_okD(4) [OF assms(1,2)] by (simp add: task_ok_def)
  define t where "t = task_trap (tasks s ! p)"
  define s1 where "s1 = s\<lparr>tasks := (tasks s)[p := (tasks s ! p)\<lparr>task_trap := t\<lparr>trap_pc := trap_pc t + 4\<rparr>\<rparr>]\<rparr>"
  define out where "out = (if trap_xs t ! REGISTER_A0 = 0
         then ''[PID 0x'' @ put_hex (of_nat p) @ '' ('' @ task_name (tasks s ! p) @ '') @ hartid 0x'' @
              put_hex (trap_hartid t) @ ''] '' @ msg @ [NL]
         else ''unknown syscall 0x'' @ put_hex (trap_xs t ! REGISTER_A0) @ [NL])"
  define s2 where "s2 = s1\<lparr>ks := (ks s)\<lparr>console_out := console_out (ks s) @ out\<rparr>\<rparr>"
  have w: "write_trap (Task_Trap p) (t\<lparr>trap_pc := trap_pc t + 4\<rparr>) s = s1" by (simp add: s1_def upd_task_def)
  have g: "get_task s1 (int p) = Some p" using get_task_ok [OF assms(1,2)] by (simp add: get_task_def s1_def)
  have "handle_syscall (Task_Trap p) s = Some s2"
  proof (cases "trap_xs t ! REGISTER_A0 = 0")
    case True
    then show ?thesis
      using pl tp w g assms(3) print_uart [of "word_of_int (int p)" "task_name (tasks s ! p)" "trap_hartid t" msg]
      by (simp add: handle_syscall_def t_def [symmetric] os_printf_def console_printf_def console_puts_def out_def s2_def s1_def)
  next
    case False
    then show ?thesis
      using pl w print_unknown [of "trap_xs t ! REGISTER_A0"]
      by (simp add: handle_syscall_def t_def [symmetric] os_printf_def console_printf_def console_puts_def out_def s2_def s1_def)
  qed
  moreover have "finish_trap fw (Task_Trap p) s2 = Some (Return (Task_Trap p), s2)"
    by (rule finish_task [OF assms(1,2)]) (use pl tp in \<open>simp_all add: s2_def s1_def t_def\<close>)
  ultimately have "interrupt_handler fw 8 (Task_Trap p) s = Some (Return (Task_Trap p), s2)"
    using pl by (simp add: interrupt_handler_def)
  then show ?thesis by (simp add: s2_def s1_def out_def t_def)
qed

text \<open>C32. A system call of a task returns to the instruction after the call, in the same task and without a
  switch. Call 0 prints the message with the task's pid, name and hart; every other number is
  reported as unknown. Nothing else changes.\<close>

theorem syscall_spec:
  assumes "os_ok s" "int p \<le> sched_up_to (sched s)"
    and "trap_xs (task_trap (tasks s ! p)) ! REGISTER_A0 = 0 \<longrightarrow>
      user_string (ks s) (trap_xs (task_trap (tasks s ! p)) ! REGISTER_A1) = Some msg"
  shows "interrupt_handler fw 8 (Task_Trap p) s = Some (Return (Task_Trap p),
    s\<lparr>tasks := (tasks s)[p := (tasks s ! p)\<lparr>task_trap := (task_trap (tasks s ! p))\<lparr>trap_pc := trap_pc (task_trap (tasks s ! p)) + 4\<rparr>\<rparr>],
      ks := (ks s)\<lparr>console_out := console_out (ks s) @
        (if trap_xs (task_trap (tasks s ! p)) ! REGISTER_A0 = 0
         then ''[PID 0x'' @ put_hex (of_nat p) @ '' ('' @ task_name (tasks s ! p) @ '') @ hartid 0x'' @
              put_hex (trap_hartid (task_trap (tasks s ! p))) @ ''] '' @ msg @ [NL]
         else ''unknown syscall 0x'' @ put_hex (trap_xs (task_trap (tasks s ! p)) ! REGISTER_A0) @ [NL])\<rparr>\<rparr>)"
  by (rule syscall_result [OF assms])

text \<open>The trap handler ends with a read of the priority of the current task. A hart that idles has
  none, so an external or a software interrupt on an idle hart dereferences NULL in the kernel.\<close>

theorem idle_hart_interrupt_faults:
  assumes "os_ok s" "current_ok s (Hart_Trap h)"
  shows "interrupt_handler fw 0x8000000000000009 (Hart_Trap h) s = None \<and>
    interrupt_handler fw 0x8000000000000001 (Hart_Trap h) s = None"
proof -
  have h: "h < length (traps s)" "trap_pid (traps s ! h) < 0" using assms(2) by (simp_all add: current_ok_def)
  have fin: "finish_trap fw (Hart_Trap h) s' = None" if "traps s' = traps s" for s'
    using h that by (simp add: finish_trap_def get_task_def)
  have ext: "traps s' = traps s" if "handle_external fw s = Some s'" for s'
    using that by (auto simp: handle_external_def split: if_splits bind_splits)
  obtain s' where s': "timer_switch fw (Hart_Trap h) s = Some (Return (Task_Trap (nat (sched_next (sched s)))), s')" "traps s' = traps s"
    by (rule timer_switch_switched [OF assms, where fw = fw]) (rule that)
  have none: "get_task s (trap_pid (traps s ! h)) = None" using h by (simp add: get_task_def)
  have "interrupt_handler fw 0x8000000000000009 (Hart_Trap h) s = None"
    using h fin ext by (cases "handle_external fw s") (simp_all add: interrupt_handler_def)
  moreover have "interrupt_handler fw 0x8000000000000001 (Hart_Trap h) s = None"
    using h fin [OF s'(2)] s'(1) none by (simp add: interrupt_handler_def)
  ultimately show ?thesis by blast
qed

theorem idle_hart_interrupt_faults_witness:
  "interrupt_handler demo_firmware 0x8000000000000009 (Hart_Trap 1) (demo_os 1) = None"
  using idle_hart_interrupt_faults [of "demo_os 1" 1 demo_firmware] demo_os_ok [of 1] demo_current [of 1 1] by simp

theorem syscall_spec_witness:
  "\<exists>s'. interrupt_handler demo_firmware 8 (Task_Trap 1) (demo_os 1) = Some (Return (Task_Trap 1), s') \<and>
     console_out (ks s') = ''unknown syscall 0x'' @ put_hex 7 @ [NL] \<and> trap_pc (task_trap (tasks s' ! 1)) = 0x1004"
  using syscall_spec [of "demo_os 1" 1 "[]" demo_firmware] demo_os_ok [of 1]
  by (simp add: demo_os_def demo_task_def demo_trap_def kstate0_def REGISTER_A0_def)

end
