(* ===== verification/Trap_Entry.thy ===== *)
theory Trap_Entry
  imports Interrupt_Spec
begin

text \<open>
  \<^verbatim>\<open>kernel/src/interrupt.s\<close>: the way from a running program into \<^verbatim>\<open>interrupt_handler\<close> and back. \<open>cpu\<close> are the registers of
  a hart; \<^verbatim>\<open>sscratch\<close> holds the frame of what it runs. The hardware has put the program counter of the
  program into \<^verbatim>\<open>sepc\<close> when the code starts, so \<open>cpu_pc\<close> is that one.
\<close>

record cpu =
  cpu_xs :: "u64 list"
  cpu_fs :: "u64 list"
  cpu_pc :: u64

definition save_registers :: "cpu \<Rightarrow> trap_t \<Rightarrow> trap_t" where
  "save_registers c t =
     (fold (\<lambda>i t. t\<lparr>trap_xs := (trap_xs t)[i := cpu_xs c ! i]\<rparr>) [0..<32] t)\<lparr>trap_pc := cpu_pc c\<rparr>"

text \<open>The load into \<^verbatim>\<open>x0\<close> has no effect.\<close>

definition jump_out_of_trap :: "trap_ref \<Rightarrow> os \<Rightarrow> cpu \<Rightarrow> cpu option" where
  "jump_out_of_trap r s c = do {
     t \<leftarrow> read_trap s r;
     Some (c\<lparr>cpu_xs := fold (\<lambda>i xs. xs[i := trap_xs t ! i]) [1..<32] (cpu_xs c), cpu_pc := trap_pc t\<rparr>) }"

text \<open>\<^verbatim>\<open>timer_switch\<close> leaves by \<^verbatim>\<open>jump_out_of_trap\<close> itself when there is no task (\<open>Jump_Out\<close>); then \<^verbatim>\<open>sscratch\<close> stays as it is.\<close>

definition handle_interrupt :: "firmware \<Rightarrow> u64 \<Rightarrow> cpu \<times> os \<Rightarrow> (trap_exit \<times> cpu \<times> os) option" where
  "handle_interrupt fw scause = (\<lambda>(c, s). do {
     r \<leftarrow> sscratch s;
     t \<leftarrow> read_trap s r;
     (e, s) \<leftarrow> interrupt_handler fw scause r (write_trap r (save_registers c t) s);
     case e of
       Return r' \<Rightarrow> do { c \<leftarrow> jump_out_of_trap r' s c; Some (e, c, s\<lparr>sscratch := Some r'\<rparr>) }
     | Jump_Out r' \<Rightarrow> do { c \<leftarrow> jump_out_of_trap r' s c; Some (e, c, s) }
     | _ \<Rightarrow> Some (e, c, s) })"

text \<open>A hart that was suspended comes back here, with the frame in \<^verbatim>\<open>a1\<close>; nothing is saved and \<^verbatim>\<open>sscratch\<close> is not written.\<close>

definition hart_suspend_resume :: "firmware \<Rightarrow> u64 \<Rightarrow> trap_ref \<Rightarrow> cpu \<times> os \<Rightarrow> (trap_exit \<times> cpu \<times> os) option" where
  "hart_suspend_resume fw scause r = (\<lambda>(c, s). do {
     (e, s) \<leftarrow> interrupt_handler fw scause r (s\<lparr>sie := 0x222\<rparr>);
     case e of
       Return r' \<Rightarrow> do { c \<leftarrow> jump_out_of_trap r' s c; Some (e, c, s) }
     | Jump_Out r' \<Rightarrow> do { c \<leftarrow> jump_out_of_trap r' s c; Some (e, c, s) }
     | _ \<Rightarrow> Some (e, c, s) })"

subsection \<open>Saving and restoring\<close>

lemma fold_list_update:
  "distinct is \<Longrightarrow> length (fold (\<lambda>i xs. xs[i := f i]) is xs) = length xs \<and>
     (\<forall>j<length xs. fold (\<lambda>i xs. xs[i := f i]) is xs ! j = (if j \<in> set is then f j else xs ! j))"
  by (induction "is" arbitrary: xs) (auto simp: nth_list_update)

lemma save_registers_eq:
  assumes "length (trap_xs t) = 32" "length (cpu_xs c) = 32"
  shows "save_registers c t = t\<lparr>trap_xs := cpu_xs c, trap_pc := cpu_pc c\<rparr>"
proof -
  have f: "fold (\<lambda>i t. t\<lparr>trap_xs := (trap_xs t)[i := x i]\<rparr>) is t = t\<lparr>trap_xs := fold (\<lambda>i xs. xs[i := x i]) is (trap_xs t)\<rparr>"
    for x :: "nat \<Rightarrow> u64" and "is" t by (induction "is" arbitrary: t) simp_all
  have "fold (\<lambda>i xs. xs[i := cpu_xs c ! i]) [0..<32] (trap_xs t) = cpu_xs c"
    using fold_list_update [of "[0..<32]" "\<lambda>i. cpu_xs c ! i" "trap_xs t"] assms by (intro nth_equalityI) auto
  then show ?thesis by (simp add: save_registers_def f)
qed

text \<open>Registers of a hart: \<^verbatim>\<open>x0\<close> is zero.\<close>

definition xs_ok :: "u64 list \<Rightarrow> bool" where "xs_ok xs \<longleftrightarrow> length xs = 32 \<and> xs ! 0 = 0"

lemma jump_out_of_trap_eq:
  assumes "read_trap s r = Some t" "xs_ok (trap_xs t)" "xs_ok (cpu_xs c)"
  shows "jump_out_of_trap r s c = Some (c\<lparr>cpu_xs := trap_xs t, cpu_pc := trap_pc t\<rparr>)"
proof -
  have "fold (\<lambda>i xs. xs[i := trap_xs t ! i]) [1..<32] (cpu_xs c) = trap_xs t"
    using fold_list_update [of "[1..<32]" "\<lambda>i. trap_xs t ! i" "cpu_xs c"] assms(2,3)
    by (intro nth_equalityI) (auto simp: xs_ok_def Suc_le_eq)
  then show ?thesis using assms(1) by (simp add: jump_out_of_trap_def)
qed


subsection \<open>A timer interrupt\<close>

text \<open>A hart that runs task \<open>p\<close>: its registers are in the processor, those of the other tasks in their frames.\<close>

definition hart_ok :: "nat \<Rightarrow> cpu \<Rightarrow> os \<Rightarrow> bool" where
  "hart_ok p c s \<longleftrightarrow> os_ok s \<and> sscratch s = Some (Task_Trap p) \<and> int p \<le> sched_up_to (sched s) \<and> xs_ok (cpu_xs c) \<and>
     (\<forall>q. int q \<le> sched_up_to (sched s) \<longrightarrow> xs_ok (trap_xs (task_trap (tasks s ! q))))"

definition saved :: "os \<Rightarrow> nat \<Rightarrow> u64 list \<times> u64" where
  "saved s q = (trap_xs (task_trap (tasks s ! q)), trap_pc (task_trap (tasks s ! q)))"

text \<open>The registers of task \<open>q\<close>, wherever they are.\<close>

definition registers :: "nat \<Rightarrow> cpu \<Rightarrow> os \<Rightarrow> nat \<Rightarrow> u64 list \<times> u64" where
  "registers p c s q = (if q = p then (cpu_xs c, cpu_pc c) else saved s q)"

definition saved_task :: "cpu \<Rightarrow> s_task \<Rightarrow> s_task" where
  "saved_task c k = k\<lparr>task_trap := (task_trap k)\<lparr>trap_xs := cpu_xs c, trap_pc := cpu_pc c\<rparr>\<rparr>"

definition saved_os :: "nat \<Rightarrow> cpu \<Rightarrow> os \<Rightarrow> os" where
  "saved_os p c s = s\<lparr>tasks := (tasks s)[p := saved_task c (tasks s ! p)]\<rparr>"

lemma hart_okD:
  assumes "hart_ok p c s"
  shows "os_ok s" "sscratch s = Some (Task_Trap p)" "int p \<le> sched_up_to (sched s)" "xs_ok (cpu_xs c)" "p < length (tasks s)"
    "int q \<le> sched_up_to (sched s) \<Longrightarrow> xs_ok (trap_xs (task_trap (tasks s ! q)))"
  using assms os_okD(3) [of s] by (auto simp: hart_ok_def)

lemma handle_interrupt_saved:
  assumes "hart_ok p c s"
  shows "handle_interrupt fw cause (c, s) = do {
     (e, s) \<leftarrow> interrupt_handler fw cause (Task_Trap p) (saved_os p c s);
     case e of
       Return r' \<Rightarrow> do { c \<leftarrow> jump_out_of_trap r' s c; Some (e, c, s\<lparr>sscratch := Some r'\<rparr>) }
     | Jump_Out r' \<Rightarrow> do { c \<leftarrow> jump_out_of_trap r' s c; Some (e, c, s) }
     | _ \<Rightarrow> Some (e, c, s) }"
proof -
  note h = hart_okD [OF assms]
  have "save_registers c (task_trap (tasks s ! p)) = (task_trap (tasks s ! p))\<lparr>trap_xs := cpu_xs c, trap_pc := cpu_pc c\<rparr>"
    using h(4) h(6) [OF h(3)] by (intro save_registers_eq) (simp_all add: xs_ok_def)
  then show ?thesis using h(2,5) by (simp add: handle_interrupt_def saved_os_def saved_task_def upd_task_def)
qed

lemma saved_os_ok:
  assumes "hart_ok p c s"
  shows "os_ok (saved_os p c s)" "current_ok (saved_os p c s) (Task_Trap p)"
  using hart_okD [OF assms] by (auto simp: os_ok_def saved_os_def saved_task_def current_ok_def nth_list_update task_ok_def)

lemma timer_cause: "(0x8000000000000005 :: u64) AND 0x8000000000000000 \<noteq> 0" "(0x8000000000000005 :: u64) AND 0x7fffffffffffffff = 5"
  by code_simp+

lemma handler_timer:
  "p < length (tasks s) \<Longrightarrow> interrupt_handler fw 0x8000000000000005 (Task_Trap p) s = timer_switch fw (Task_Trap p) s"
  unfolding interrupt_handler_def timer_cause(2) using timer_cause(1) by simp

lemma timer_trap:
  assumes h: "hart_ok p c s"
  defines "n \<equiv> nat (sched_next (sched s))"
  obtains c' s' where "handle_interrupt fw 0x8000000000000005 (c, s) = Some (Return (Task_Trap n), c', s')"
    "hart_ok n c' s'" "\<And>q. int q \<le> sched_up_to (sched s) \<Longrightarrow> registers n c' s' q = registers p c s q"
    "saved s' p = (cpu_xs c, cpu_pc c)" "cpu_fs c' = cpu_fs c"
    "\<And>q. q < length (tasks s) \<Longrightarrow> task_name (tasks s' ! q) = task_name (tasks s ! q) \<and> task_mmu_data (tasks s' ! q) = task_mmu_data (tasks s ! q)"
    "trap_hartid (task_trap (tasks s' ! n)) = trap_hartid (task_trap (tasks s ! p))"
    "ks s' = (if n = p then ks s else set_mmu (task_mmu_data (tasks s ! n)) (ks s))"
    "sched s' = snd (next_scheduled_task (sched s))" "length (tasks s') = length (tasks s)"
proof -
  note hd = hart_okD [OF h]
  let ?s = "saved_os p c s"
  have sc: "sched ?s = sched s" "length (tasks ?s) = length (tasks s)" "max_pid ?s = max_pid s" "ks ?s = ks s"
    by (simp_all add: saved_os_def)
  have so: "sched_ok (sched s)" by (rule os_okD [OF hd(1)])
  have n: "int n \<le> sched_up_to (sched s)" "n < length (tasks s)"
    using so os_okD(3) [OF hd(1)] by (auto simp: n_def sched_ok_def)
  have up: "sched_up_to (snd (next_scheduled_task (sched s))) = sched_up_to (sched s)"
    using so by (simp add: next_scheduled_task_eq)
  obtain s2 where s2: "timer_switch fw (Task_Trap p) ?s = Some (Return (Task_Trap n), s2)" "length (tasks s2) = length (tasks s)"
    "\<And>q. q < length (tasks s) \<Longrightarrow> tasks s2 ! q = switched ?s (Task_Trap p) n q"
    "ks s2 = (if Task_Trap p = Task_Trap n then ks s else set_mmu (task_mmu_data (tasks ?s ! n)) (ks s))"
    "sched s2 = snd (next_scheduled_task (sched s))" "max_pid s2 = max_pid s"
    by (rule timer_switch_switched [OF saved_os_ok [OF h], where fw = fw, unfolded sc, folded n_def]) (rule that)
  have prog: "program_state (tasks s2 ! q) = program_state (tasks ?s ! q)" if "q < length (tasks s)" for q
    using s2(3) [OF that] by (simp add: switched_program)
  have frame: "tasks ?s ! q = (if q = p then saved_task c (tasks s ! p) else tasks s ! q)" for q
    using hd(5) by (simp add: saved_os_def)
  have regs: "saved s2 q = registers p c s q" if "q < length (tasks s)" for q
    using prog [OF that] by (auto simp: frame saved_def registers_def program_state_def saved_task_def split: if_splits)
  have len: "q < length (tasks s)" if "int q \<le> sched_up_to (sched s)" for q using that os_okD(3) [OF hd(1)] by simp
  have xs: "xs_ok (trap_xs (task_trap (tasks s2 ! q)))" if "int q \<le> sched_up_to (sched s)" for q
    using regs [OF len [OF that]] hd(4) hd(6) [OF that] by (auto simp: saved_def registers_def split: if_splits)
  let ?c = "c\<lparr>cpu_xs := trap_xs (task_trap (tasks s2 ! n)), cpu_pc := trap_pc (task_trap (tasks s2 ! n))\<rparr>"
  have j: "jump_out_of_trap (Task_Trap n) s2 c = Some ?c"
    using n s2(2) xs [OF n(1)] hd(4) by (intro jump_out_of_trap_eq) simp_all
  have run: "handle_interrupt fw 0x8000000000000005 (c, s) = Some (Return (Task_Trap n), ?c, s2\<lparr>sscratch := Some (Task_Trap n)\<rparr>)"
    unfolding handle_interrupt_saved [OF h] using hd(5) sc(2) s2(1) j by (simp add: handler_timer)
  have "task_ok q (tasks s2 ! q)" if "int q \<le> sched_up_to (sched s)" for q
    using s2(3) [OF len [OF that]] switched_ok [OF os_okD(4) [OF saved_os_ok(1) [OF h]]] that sc(1) by simp
  then have ok2: "os_ok s2" using s2(2,5,6) up os_okD [OF hd(1)] next_scheduled_ok [OF so] by (simp add: os_ok_def)
  have hart: "trap_hartid (task_trap (tasks s2 ! n)) = trap_hartid (task_trap (tasks s ! p))"
    using s2(3) [OF n(2)] hd(5) by (cases "n = p") (auto simp: switched_def Let_def saved_os_def saved_task_def)
  show thesis
  proof (rule that [OF run])
    show "hart_ok n ?c (s2\<lparr>sscratch := Some (Task_Trap n)\<rparr>)"
      using ok2 n(1) up xs s2(5) by (simp add: hart_ok_def os_ok_def)
    show "registers n ?c (s2\<lparr>sscratch := Some (Task_Trap n)\<rparr>) q = registers p c s q" if "int q \<le> sched_up_to (sched s)" for q
      using regs [OF len [OF that]] regs [OF n(2)] by (auto simp: registers_def saved_def)
    show "saved (s2\<lparr>sscratch := Some (Task_Trap n)\<rparr>) p = (cpu_xs c, cpu_pc c)"
      using regs [OF hd(5)] by (simp add: registers_def saved_def)
    show "task_name (tasks (s2\<lparr>sscratch := Some (Task_Trap n)\<rparr>) ! q) = task_name (tasks s ! q) \<and>
        task_mmu_data (tasks (s2\<lparr>sscratch := Some (Task_Trap n)\<rparr>) ! q) = task_mmu_data (tasks s ! q)" if "q < length (tasks s)" for q
      using prog [OF that] by (auto simp: frame program_state_def saved_task_def split: if_splits)
    show "ks (s2\<lparr>sscratch := Some (Task_Trap n)\<rparr>) = (if n = p then ks s else set_mmu (task_mmu_data (tasks s ! n)) (ks s))"
      using s2(4) by (auto simp: frame)
  qed (use hart s2 in simp_all)
qed


text \<open>C15. A timer interrupt from the program's point of view, through the assembly code and the handler: the registers and the program counter of the
  running task go to its frame, those of the task in turn come from its frame, and no task, running or waiting, has lost or
  gained a register value; the frame that \<^verbatim>\<open>sscratch\<close> names is the one of the task that now runs. The floating-point
  registers of the hart are not switched: the next task runs with those of the previous one.\<close>

theorem context_switch_exact:
  assumes "hart_ok p c s"
  shows "\<exists>c' s'. handle_interrupt fw 0x8000000000000005 (c, s) = Some (Return (Task_Trap (nat (sched_next (sched s)))), c', s') \<and>
    hart_ok (nat (sched_next (sched s))) c' s' \<and> saved s' p = (cpu_xs c, cpu_pc c) \<and>
    (\<forall>q. int q \<le> sched_up_to (sched s) \<longrightarrow> registers (nat (sched_next (sched s))) c' s' q = registers p c s q) \<and>
    cpu_fs c' = cpu_fs c"
  by (rule timer_trap [OF assms, where fw = fw]) blast

subsection \<open>An example\<close>

definition demo_cpu :: cpu where
  "demo_cpu = \<lparr>cpu_xs = map of_nat [0..<32], cpu_fs = replicate 32 1, cpu_pc = 0x2000\<rparr>"

definition clear_x0 :: "s_task \<Rightarrow> s_task" where
  "clear_x0 k = k\<lparr>task_trap := (task_trap k)\<lparr>trap_xs := (trap_xs (task_trap k))[0 := 0]\<rparr>\<rparr>"

definition demo_hart :: os where
  "demo_hart = (demo_os 1)\<lparr>tasks := map clear_x0 (tasks (demo_os 1)), sscratch := Some (Task_Trap 1)\<rparr>"

lemma demo_hart_ok: "hart_ok 1 demo_cpu demo_hart"
  using demo_os_ok [of 1]
  by (auto simp: hart_ok_def demo_hart_def os_ok_def demo_os_def task_ok_def clear_x0_def demo_task_def demo_trap_def demo_cpu_def xs_ok_def
      nth_append less_Suc_eq)

theorem context_switch_exact_witness:
  "\<exists>c' s'. handle_interrupt demo_firmware 0x8000000000000005 (demo_cpu, demo_hart) = Some (Return (Task_Trap 0), c', s') \<and>
     cpu_xs c' = 0 # replicate 31 7 \<and> cpu_pc c' = 0x1000 \<and> saved s' 1 = (map of_nat [0..<32], 0x2000)"
proof -
  have n: "nat (sched_next (sched demo_hart)) = 0" "sched_up_to (sched demo_hart) = 1" by (simp_all add: demo_hart_def demo_os_def)
  have r: "registers 1 demo_cpu demo_hart 0 = (0 # replicate 31 7, 0x1000)"
    by (simp add: registers_def saved_def demo_hart_def demo_os_def clear_x0_def demo_task_def demo_trap_def) (simp add: numeral_eq_Suc)
  obtain c' s' where "handle_interrupt demo_firmware 0x8000000000000005 (demo_cpu, demo_hart) = Some (Return (Task_Trap 0), c', s')"
    "saved s' 1 = (cpu_xs demo_cpu, cpu_pc demo_cpu)" "registers 0 c' s' 0 = registers 1 demo_cpu demo_hart 0"
    using context_switch_exact [OF demo_hart_ok, of demo_firmware] unfolding n by force
  then show ?thesis unfolding r by (auto simp: registers_def demo_cpu_def)
qed

end
