(* ===== verification/User.thy ===== *)
theory User
  imports Trap_Entry Mmu_Kernel
begin

text \<open>
  The programs that \<^verbatim>\<open>kinit\<close> starts: \<^verbatim>\<open>boot/initd/src/main.c\<close> and \<^verbatim>\<open>boot/uwu/src/main.c\<close> on the library \<^verbatim>\<open>lib/c\<close>. What the compiler
  and the linker decide is the record \<open>user_image\<close>: the address of \<^verbatim>\<open>syscall\<close> (an \<^verbatim>\<open>ecall\<close> and a \<^verbatim>\<open>ret\<close>), the return
  address into the loop, and the addresses of the string literals. A program is followed from one system call to the
  next; it can be interrupted before and after it has loaded the arguments of the call.
\<close>

datatype user_prog = Initd | Uwu

record user_image =
  user_prog :: user_prog
  syscall_addr :: u64
  loop_addr :: u64
  user_lit :: "string \<Rightarrow> u64"

text \<open>A call of \<^verbatim>\<open>syscall\<close>: seven arguments in \<^verbatim>\<open>a0\<close> to \<^verbatim>\<open>a6\<close>.\<close>

definition syscall :: "user_image \<Rightarrow> u64 list \<Rightarrow> cpu \<Rightarrow> cpu" where
  "syscall im args c = c\<lparr>cpu_xs := fold (\<lambda>i xs. xs[REGISTER_A0 + i := args ! i]) [0..<7] ((cpu_xs c)[REGISTER_RA := loop_addr im]),
     cpu_pc := syscall_addr im\<rparr>"

definition uart_puts :: "user_image \<Rightarrow> u64 \<Rightarrow> cpu \<Rightarrow> cpu" where
  "uart_puts im msg c = syscall im [0, msg, 0, 0, 0, 0, 0] c"

text \<open>The bodies of the loops of the two \<^verbatim>\<open>_start\<close> functions.\<close>

definition initd_start :: "user_image \<Rightarrow> cpu \<Rightarrow> cpu" where "initd_start im c = uart_puts im (user_lit im ''from initd'') c"
definition uwu_start :: "user_image \<Rightarrow> cpu \<Rightarrow> cpu" where "uwu_start im c = uart_puts im (user_lit im ''from uwu'') c"

definition user_start :: "user_image \<Rightarrow> cpu \<Rightarrow> cpu" where
  "user_start im c = (case user_prog im of Initd \<Rightarrow> initd_start im c | Uwu \<Rightarrow> uwu_start im c)"

definition user_text :: "user_prog \<Rightarrow> string" where
  "user_text u = (case u of Initd \<Rightarrow> ''from initd'' | Uwu \<Rightarrow> ''from uwu'')"

subsection \<open>One hart\<close>

text \<open>What can happen on a hart: the timer fires, or the program goes on: up to the \<^verbatim>\<open>ecall\<close>, or through it.\<close>

datatype event = Timer | Step

definition hart_event :: "firmware \<Rightarrow> (nat \<Rightarrow> user_image) \<Rightarrow> event \<Rightarrow> cpu \<times> os \<Rightarrow> (cpu \<times> os) option" where
  "hart_event fw im ev = (\<lambda>(c, s). case ev of
       Timer \<Rightarrow> map_option snd (handle_interrupt fw 0x8000000000000005 (c, s))
     | Step \<Rightarrow> (case sscratch s of
         Some (Task_Trap p) \<Rightarrow>
           if cpu_pc c = syscall_addr (im p) then map_option snd (handle_interrupt fw 8 (c, s))
           else Some (user_start (im p) c, s)
       | _ \<Rightarrow> None))"

primrec hart_events :: "firmware \<Rightarrow> (nat \<Rightarrow> user_image) \<Rightarrow> event list \<Rightarrow> cpu \<times> os \<Rightarrow> (cpu \<times> os) option" where
  "hart_events fw im [] x = Some x"
| "hart_events fw im (ev # evs) x = do { x \<leftarrow> hart_event fw im ev x; hart_events fw im evs x }"

subsection \<open>What is to be seen\<close>

text \<open>
  The abstract machine: whose turn it is now and next, which tasks have loaded the arguments of their call, and the
  text on the console. \<open>u\<close> is the largest pid.
\<close>

record view =
  v_cur :: nat
  v_next :: nat
  v_loaded :: "nat \<Rightarrow> bool"
  v_out :: string

definition line_of :: "(nat \<Rightarrow> user_image) \<Rightarrow> (nat \<Rightarrow> string) \<Rightarrow> u64 \<Rightarrow> nat \<Rightarrow> string" where
  "line_of im nm h p = ''[PID 0x'' @ put_hex (of_nat p) @ '' ('' @ nm p @ '') @ hartid 0x'' @ put_hex h @ ''] '' @ user_text (user_prog (im p)) @ [NL]"

primrec view_event :: "nat \<Rightarrow> (nat \<Rightarrow> string) \<Rightarrow> event \<Rightarrow> view \<Rightarrow> view" where
  "view_event u line Timer v = v\<lparr>v_cur := v_next v, v_next := (if v_next v < u then v_next v + 1 else 0)\<rparr>"
| "view_event u line Step v =
     (if v_loaded v (v_cur v) then v\<lparr>v_loaded := (v_loaded v)(v_cur v := False), v_out := v_out v @ line (v_cur v)\<rparr>
      else v\<lparr>v_loaded := (v_loaded v)(v_cur v := True)\<rparr>)"

primrec view_events :: "nat \<Rightarrow> (nat \<Rightarrow> string) \<Rightarrow> event list \<Rightarrow> view \<Rightarrow> view" where
  "view_events u line [] v = v"
| "view_events u line (ev # evs) v = view_events u line evs (view_event u line ev v)"

subsection \<open>The relation\<close>

text \<open>Registers of a program before and after it has loaded its arguments.\<close>

definition phase_ok :: "user_image \<Rightarrow> bool \<Rightarrow> u64 list \<times> u64 \<Rightarrow> bool" where
  "phase_ok im loaded = (\<lambda>(xs, pc). if loaded then pc = syscall_addr im \<and> xs ! REGISTER_A0 = 0 \<and>
       xs ! REGISTER_A1 = user_lit im (user_text (user_prog im)) else pc \<noteq> syscall_addr im)"

definition satp_of :: "u64 \<Rightarrow> u64" where "satp_of root = 0x8000000000000000 OR signed_drop_bit 12 root"

text \<open>With the table of task \<open>p\<close> installed, the string of its program is where the program expects it. The tables are
  page-aligned, as \<^verbatim>\<open>alloc_pages\<close> returns them.\<close>

definition programs_ok :: "(nat \<Rightarrow> user_image) \<Rightarrow> nat \<Rightarrow> (nat \<Rightarrow> u64) \<Rightarrow> kstate \<Rightarrow> bool" where
  "programs_ok im u root k \<longleftrightarrow> (\<forall>p\<le>u. root p \<noteq> 0 \<and> 4096 dvd unat (root p) \<and> unat (root p) < 2 ^ 56 \<and>
     user_string (k\<lparr>satp := satp_of (root p)\<rparr>) (user_lit (im p) (user_text (user_prog (im p)))) = Some (user_text (user_prog (im p))))"

definition observed :: "(nat \<Rightarrow> user_image) \<Rightarrow> nat \<Rightarrow> (nat \<Rightarrow> u64) \<Rightarrow> (nat \<Rightarrow> string) \<Rightarrow> u64 \<Rightarrow> view \<Rightarrow> cpu \<times> os \<Rightarrow> bool" where
  "observed im u root nm h v = (\<lambda>(c, s). hart_ok (v_cur v) c s \<and> programs_ok im u root (ks s) \<and>
     sched_up_to (sched s) = int u \<and> sched_next (sched s) = int (v_next v) \<and>
     (\<forall>p\<le>u. task_name (tasks s ! p) = nm p \<and> task_mmu_data (tasks s ! p) = root p \<and>
        phase_ok (im p) (v_loaded v p) (registers (v_cur v) c s p)) \<and>
     trap_hartid (task_trap (tasks s ! v_cur v)) = h \<and> satp (ks s) = satp_of (root (v_cur v)) \<and> console_out (ks s) = v_out v)"


lemma console_frame [frame_simps]:
  "ld64 (k\<lparr>console_out := x\<rparr>) = ld64 k" "ld8 (k\<lparr>console_out := x\<rparr>) = ld8 k" "phys2safe (k\<lparr>console_out := x\<rparr>) = phys2safe k"
  "get_mmu (k\<lparr>console_out := x\<rparr>) = get_mmu k"
  by (simp_all add: fun_eq_iff ld64_def ld8_def kaddr_def mmu_enabled_def phys2safe_def get_mmu_def)

lemma console_entries [frame_simps]:
  "mmu_entry_phys (k\<lparr>console_out := x\<rparr>) = mmu_entry_phys k" "mmu_entry_get (k\<lparr>console_out := x\<rparr>) = mmu_entry_get k"
  "mmu_root_get (k\<lparr>console_out := x\<rparr>) = mmu_root_get k"
  by (simp_all add: fun_eq_iff mmu_entry_phys_def mmu_entry_get_def mmu_entry_get_any_def mmu_root_get_def mmu_root_get_any_def console_frame)

lemma translate_loop_console: "translate_loop (k\<lparr>console_out := x\<rparr>) e vs off = translate_loop k e vs off"
proof (induction vs arbitrary: e)
  case (Cons v vs)
  then show ?case by (simp only: translate_loop.simps console_frame console_entries Let_def)
qed (simp only: translate_loop.simps console_frame console_entries)

lemma mmu_translate_console: "mmu_translate (k\<lparr>console_out := x\<rparr>) root va = mmu_translate k root va"
  by (simp only: mmu_translate_def translate_loop_console console_entries)

lemma user_string_console: "user_string k a = Some t \<Longrightarrow> user_string (k\<lparr>console_out := x\<rparr>) a = Some t"
proof (induction t arbitrary: a)
  case Nil
  then obtain b where "mmu_translate k (get_mmu k) a = Some b" "ld8 k b = 0"
    by (subst (asm) user_string.simps) (auto simp: bind_eq_Some_conv split: if_splits)
  then show ?case by (subst user_string.simps) (simp add: mmu_translate_console console_frame)
next
  case (Cons d t)
  then obtain b where b: "mmu_translate k (get_mmu k) a = Some b" "ld8 k b \<noteq> 0" "user_string k (a + 1) = Some t" "d = to_char (ucast (ld8 k b))"
    by (subst (asm) user_string.simps) (auto simp: bind_eq_Some_conv split: if_splits)
  then show ?case using Cons.IH [OF b(3)] by (subst user_string.simps) (simp add: mmu_translate_console console_frame)
qed

lemma programs_ok_console:
  assumes "programs_ok im u root k"
  shows "programs_ok im u root (k\<lparr>console_out := x\<rparr>)"
proof -
  have "user_string (k\<lparr>console_out := x, satp := w\<rparr>) a = Some t" if "user_string (k\<lparr>satp := w\<rparr>) a = Some t" for w a t
  proof -
    have "k\<lparr>console_out := x, satp := w\<rparr> = k\<lparr>satp := w, console_out := x\<rparr>" by simp
    then show ?thesis using user_string_console [OF that, of x] by (simp only:)
  qed
  then show ?thesis using assms by (simp add: programs_ok_def)
qed

lemma set_mmu_satp:
  assumes "satp k = satp_of r" "r \<noteq> 0" "4096 dvd unat r" "unat r < 2 ^ 56" "r' \<noteq> 0"
  shows "set_mmu r' k = k\<lparr>satp := satp_of r'\<rparr>"
proof -
  have "set_mmu r (k\<lparr>satp := 0\<rparr>) = k"
    using assms(1,2) by (simp add: set_mmu_def mmu_root_valid_def get_mmu_def satp_of_def [symmetric])
  then have "get_mmu k = r" using set_mmu_get_mmu [OF assms(3,4), of "k\<lparr>satp := 0\<rparr>"] assms(2) by simp
  then show ?thesis using assms(1,5) by (simp add: set_mmu_def mmu_root_valid_def satp_of_def)
qed

subsection \<open>The steps\<close>

lemma observed_timer:
  assumes "observed im u root nm h v (c, s)"
  shows "\<exists>x. hart_event fw im Timer (c, s) = Some x \<and> observed im u root nm h (view_event u line Timer v) x"
proof -
  let ?p = "v_cur v" and ?n = "v_next v"
  have o: "hart_ok ?p c s" "programs_ok im u root (ks s)" "sched_up_to (sched s) = int u" "sched_next (sched s) = int ?n"
    "\<And>p. p \<le> u \<Longrightarrow> task_name (tasks s ! p) = nm p \<and> task_mmu_data (tasks s ! p) = root p \<and> phase_ok (im p) (v_loaded v p) (registers ?p c s p)"
    "trap_hartid (task_trap (tasks s ! ?p)) = h" "satp (ks s) = satp_of (root ?p)" "console_out (ks s) = v_out v"
    using assms by (auto simp: observed_def)
  note hd = hart_okD [OF o(1)]
  have so: "sched_ok (sched s)" by (rule os_okD [OF hd(1)])
  have n: "nat (sched_next (sched s)) = ?n" "?n \<le> u" "?p \<le> u" using o(3,4) so hd(3) by (simp_all add: sched_ok_def)
  have len: "q < length (tasks s)" if "q \<le> u" for q using that os_okD(3) [OF hd(1)] o(3) by simp
  obtain c' s' where t: "handle_interrupt fw 0x8000000000000005 (c, s) = Some (Return (Task_Trap ?n), c', s')" "hart_ok ?n c' s'"
    "\<And>q. int q \<le> sched_up_to (sched s) \<Longrightarrow> registers ?n c' s' q = registers ?p c s q"
    "\<And>q. q < length (tasks s) \<Longrightarrow> task_name (tasks s' ! q) = task_name (tasks s ! q) \<and> task_mmu_data (tasks s' ! q) = task_mmu_data (tasks s ! q)"
    "trap_hartid (task_trap (tasks s' ! ?n)) = trap_hartid (task_trap (tasks s ! ?p))"
    "ks s' = (if ?n = ?p then ks s else set_mmu (task_mmu_data (tasks s ! ?n)) (ks s))"
    "sched s' = snd (next_scheduled_task (sched s))"
    by (rule timer_trap [OF o(1), where fw = fw, unfolded n(1)]) (rule that)
  have r: "root q \<noteq> 0" "4096 dvd unat (root q)" "unat (root q) < 2 ^ 56" if "q \<le> u" for q
    using o(2) that by (simp_all add: programs_ok_def)
  have ks': "ks s' = (ks s)\<lparr>satp := satp_of (root ?n)\<rparr>"
    using t(6) o(5) [OF n(2)] set_mmu_satp [OF o(7) r [OF n(3)] r(1) [OF n(2)]] o(7) by (cases "?n = ?p") simp_all
  have sc: "sched_up_to (sched s') = int u" "sched_next (sched s') = int (if ?n < u then ?n + 1 else 0)"
    using t(7) next_scheduled_task_eq [OF so] o(3,4) n(2) by auto
  have "observed im u root nm h (view_event u line Timer v) (c', s')"
    using t(2-5) o(2,3,5,6,8) ks' sc len by (simp add: observed_def programs_ok_def)
  then show ?thesis using t(1) by (simp add: hart_event_def)
qed


lemma user_start_regs:
  assumes "xs_ok (cpu_xs c)"
  shows "xs_ok (cpu_xs (user_start im c))" "phase_ok im True (cpu_xs (user_start im c), cpu_pc (user_start im c))"
proof -
  have w: "user_start im c = uart_puts im (user_lit im (user_text (user_prog im))) c"
    by (cases "user_prog im") (simp_all add: user_start_def initd_start_def uwu_start_def user_text_def)
  have r: "[0..<7] = [0, 1, 2, 3, 4, 5, 6 :: nat]" by (simp add: upt_rec)
  show "xs_ok (cpu_xs (user_start im c))" "phase_ok im True (cpu_xs (user_start im c), cpu_pc (user_start im c))"
    using assms unfolding w uart_puts_def syscall_def r
    by (simp_all add: xs_ok_def phase_ok_def REGISTER_A0_def REGISTER_A1_def REGISTER_RA_def nth_list_update)
qed

lemma syscall_trap:
  assumes h: "hart_ok p c s" and a: "cpu_xs c ! REGISTER_A0 = 0" "user_string (ks s) (cpu_xs c ! REGISTER_A1) = Some msg"
  obtains s' where "handle_interrupt fw 8 (c, s) = Some (Return (Task_Trap p), c\<lparr>cpu_pc := cpu_pc c + 4\<rparr>, s')"
    "hart_ok p (c\<lparr>cpu_pc := cpu_pc c + 4\<rparr>) s'" "\<And>q. q \<noteq> p \<Longrightarrow> tasks s' ! q = tasks s ! q" "sched s' = sched s"
    "task_name (tasks s' ! p) = task_name (tasks s ! p)" "task_mmu_data (tasks s' ! p) = task_mmu_data (tasks s ! p)"
    "trap_hartid (task_trap (tasks s' ! p)) = trap_hartid (task_trap (tasks s ! p))"
    "ks s' = (ks s)\<lparr>console_out := console_out (ks s) @ ''[PID 0x'' @ put_hex (of_nat p) @ '' ('' @ task_name (tasks s ! p) @ '') @ hartid 0x'' @
        put_hex (trap_hartid (task_trap (tasks s ! p))) @ ''] '' @ msg @ [NL]\<rparr>"
proof -
  note hd = hart_okD [OF h]
  let ?s = "saved_os p c s" and ?k = "saved_task c (tasks s ! p)"
  have k: "tasks ?s ! p = ?k" using hd(5) by (simp add: saved_os_def)
  define out where "out = ''[PID 0x'' @ put_hex (of_nat p) @ '' ('' @ task_name (tasks s ! p) @ '') @ hartid 0x'' @
        put_hex (trap_hartid (task_trap (tasks s ! p))) @ ''] '' @ msg @ [NL]"
  define s' where "s' = ?s\<lparr>tasks := (tasks ?s)[p := ?k\<lparr>task_trap := (task_trap ?k)\<lparr>trap_pc := cpu_pc c + 4\<rparr>\<rparr>],
      ks := (ks s)\<lparr>console_out := console_out (ks s) @ out\<rparr>\<rparr>"
  have "interrupt_handler fw 8 (Task_Trap p) ?s = Some (Return (Task_Trap p), s')"
    using syscall_result [OF saved_os_ok(1) [OF h], of p msg fw] hd(3) a
    by (simp add: k saved_task_def s'_def out_def) (simp add: saved_os_def)
  moreover have "jump_out_of_trap (Task_Trap p) s' c = Some (c\<lparr>cpu_pc := cpu_pc c + 4\<rparr>)"
  proof -
    have "read_trap s' (Task_Trap p) = Some ((task_trap ?k)\<lparr>trap_pc := cpu_pc c + 4\<rparr>)" using hd(5) by (simp add: s'_def saved_os_def)
    from jump_out_of_trap_eq [OF this, of c] show ?thesis using hd(4) by (simp add: saved_task_def)
  qed
  ultimately have run: "handle_interrupt fw 8 (c, s) = Some (Return (Task_Trap p), c\<lparr>cpu_pc := cpu_pc c + 4\<rparr>, s'\<lparr>sscratch := Some (Task_Trap p)\<rparr>)"
    unfolding handle_interrupt_saved [OF h] by simp
  show thesis
  proof (rule that [OF run])
    show "hart_ok p (c\<lparr>cpu_pc := cpu_pc c + 4\<rparr>) (s'\<lparr>sscratch := Some (Task_Trap p)\<rparr>)"
      using h hd(4,5) by (auto simp: hart_ok_def os_ok_def s'_def saved_os_def saved_task_def nth_list_update task_ok_def)
  qed (use hd(5) in \<open>simp_all add: s'_def saved_os_def saved_task_def out_def\<close>)
qed

lemma observed_step:
  assumes "observed im u root nm h v (c, s)"
  shows "\<exists>x. hart_event fw im Step (c, s) = Some x \<and> observed im u root nm h (view_event u (line_of im nm h) Step v) x"
proof -
  let ?p = "v_cur v"
  have o: "hart_ok ?p c s" "programs_ok im u root (ks s)" "sched_up_to (sched s) = int u" "sched_next (sched s) = int (v_next v)"
    "\<And>p. p \<le> u \<Longrightarrow> task_name (tasks s ! p) = nm p \<and> task_mmu_data (tasks s ! p) = root p \<and> phase_ok (im p) (v_loaded v p) (registers ?p c s p)"
    "trap_hartid (task_trap (tasks s ! ?p)) = h" "satp (ks s) = satp_of (root ?p)" "console_out (ks s) = v_out v"
    using assms by (auto simp: observed_def)
  note hd = hart_okD [OF o(1)]
  have p: "?p \<le> u" using hd(3) o(3) by simp
  have ph: "phase_ok (im ?p) (v_loaded v ?p) (cpu_xs c, cpu_pc c)" using o(5) [OF p] by (simp add: registers_def)
  have others: "phase_ok (im q) (v_loaded v q) (saved s q)" if "q \<le> u" "q \<noteq> ?p" for q
    using o(5) [OF that(1)] that(2) by (simp add: registers_def)
  show ?thesis
  proof (cases "v_loaded v ?p")
    case False
    then have "hart_event fw im Step (c, s) = Some (user_start (im ?p) c, s)" using hd(2) ph by (simp add: hart_event_def phase_ok_def)
    moreover have "observed im u root nm h (view_event u (line_of im nm h) Step v) (user_start (im ?p) c, s)"
      using o(1-4,6-8) o(5) others False user_start_regs [OF hd(4), of "im ?p"] by (auto simp: observed_def hart_ok_def registers_def)
    ultimately show ?thesis by blast
  next
    case True
    then have a: "cpu_pc c = syscall_addr (im ?p)" "cpu_xs c ! REGISTER_A0 = 0" "cpu_xs c ! REGISTER_A1 = user_lit (im ?p) (user_text (user_prog (im ?p)))"
      using ph by (simp_all add: phase_ok_def)
    have k: "(ks s)\<lparr>satp := satp_of (root ?p)\<rparr> = ks s" using o(7) by simp
    have "user_string ((ks s)\<lparr>satp := satp_of (root ?p)\<rparr>) (cpu_xs c ! REGISTER_A1) = Some (user_text (user_prog (im ?p)))"
      using o(2) p a(3) by (simp add: programs_ok_def)
    then have m: "user_string (ks s) (cpu_xs c ! REGISTER_A1) = Some (user_text (user_prog (im ?p)))" unfolding k .
    obtain s' where s': "handle_interrupt fw 8 (c, s) = Some (Return (Task_Trap ?p), c\<lparr>cpu_pc := cpu_pc c + 4\<rparr>, s')"
      "hart_ok ?p (c\<lparr>cpu_pc := cpu_pc c + 4\<rparr>) s'" "\<And>q. q \<noteq> ?p \<Longrightarrow> tasks s' ! q = tasks s ! q" "sched s' = sched s"
      "task_name (tasks s' ! ?p) = task_name (tasks s ! ?p)" "task_mmu_data (tasks s' ! ?p) = task_mmu_data (tasks s ! ?p)"
      "trap_hartid (task_trap (tasks s' ! ?p)) = h" "ks s' = (ks s)\<lparr>console_out := v_out v @ line_of im nm h ?p\<rparr>"
      by (rule syscall_trap [OF o(1) a(2) m, where fw = fw], rule that) (use o(5) [OF p] o(6,8) in \<open>simp_all add: line_of_def\<close>)
    have "phase_ok (im q) (((v_loaded v)(?p := False)) q) (registers ?p (c\<lparr>cpu_pc := cpu_pc c + 4\<rparr>) s' q)" if "q \<le> u" for q
      using others [OF that] s'(3) [of q] a(1) by (cases "q = ?p") (simp_all add: registers_def saved_def phase_ok_def)
    moreover have "task_name (tasks s' ! q) = nm q \<and> task_mmu_data (tasks s' ! q) = root q" if "q \<le> u" for q
      using o(5) [OF that] s'(3) [of q] s'(5,6) by (cases "q = ?p") simp_all
    ultimately have "observed im u root nm h (view_event u (line_of im nm h) Step v) (c\<lparr>cpu_pc := cpu_pc c + 4\<rparr>, s')"
      using o(3,4,7) s'(2,4,7,8) True programs_ok_console [OF o(2)] by (simp add: observed_def)
    then show ?thesis using s'(1) hd(2) a(1) by (simp add: hart_event_def)
  qed
qed

lemma observed_events:
  "observed im u root nm h v x \<Longrightarrow> \<exists>y. hart_events fw im evs x = Some y \<and> observed im u root nm h (view_events u (line_of im nm h) evs v) y"
proof (induction evs arbitrary: v x)
  case (Cons ev evs)
  obtain c s where x: "x = (c, s)" by (cases x)
  obtain y where "hart_event fw im ev (c, s) = Some y" "observed im u root nm h (view_event u (line_of im nm h) ev v) y"
    using Cons.prems observed_timer [where line = "line_of im nm h"] observed_step unfolding x by (cases ev) blast+
  then show ?case using Cons.IH unfolding x by simp
qed simp

text \<open>C16. The kernel and its programs together refine the abstract machine: from a hart on which task \<open>v_cur v\<close> of \<open>u + 1\<close> tasks runs one of the programs,
  for every sequence of timer interrupts and program steps, at every point of a program, no event fails, the tasks take turns
  in the order of their pids, and the console has exactly the lines of the calls that were completed, each with the pid,
  the name and the text of the program that made it.\<close>

theorem programs_refine_view:
  assumes "observed im u root nm h v (c, s)"
  shows "\<exists>c' s'. hart_events fw im evs (c, s) = Some (c', s') \<and> observed im u root nm h (view_events u (line_of im nm h) evs v) (c', s') \<and>
    console_out (ks s') = v_out (view_events u (line_of im nm h) evs v)"
  using observed_events [OF assms, of fw evs] by (auto simp: observed_def)


subsection \<open>An example\<close>

text \<open>Task 0 runs \<^verbatim>\<open>uwu\<close> and task 1 \<^verbatim>\<open>initd\<close>, with the first gigabyte mapped to itself by the first entry of either table.\<close>

definition user_mem :: "u64 \<Rightarrow> u8" where
  "user_mem a = (if a = 0x1000 \<or> a = 0x2000 then 0x13
     else if 0x3000 \<le> a \<and> a < 0x300a then [102, 114, 111, 109, 32, 105, 110, 105, 116, 100] ! unat (a - 0x3000)
     else if 0x4000 \<le> a \<and> a < 0x4008 then [102, 114, 111, 109, 32, 117, 119, 117] ! unat (a - 0x4000) else 0)"

definition user_images :: "nat \<Rightarrow> user_image" where
  "user_images p = \<lparr>user_prog = (if p = 0 then Uwu else Initd), syscall_addr = 0x5000, loop_addr = 0x6000,
     user_lit = (\<lambda>t. if t = ''from initd'' then 0x3000 else 0x4000)\<rparr>"

definition user_root :: "nat \<Rightarrow> u64" where "user_root p = 0x1000 * of_nat (p + 1)"

definition user_kstate :: kstate where "user_kstate = kstate0\<lparr>mem := user_mem, satp := satp_of 0x2000\<rparr>"

definition user_os :: os where
  "user_os = demo_hart\<lparr>tasks := map (\<lambda>p. (tasks demo_hart ! p)\<lparr>task_mmu_data := user_root p\<rparr>) [0..<4], ks := user_kstate\<rparr>"

text \<open>Through a table whose first entry maps a gigabyte to itself, user addresses are physical addresses.\<close>

definition flat :: "kstate \<Rightarrow> bool" where
  "flat k \<longleftrightarrow> get_mmu k \<noteq> 0 \<and> phys2safe k (get_mmu k) \<noteq> 0 \<and> ld64 k (phys2safe k (get_mmu k)) = 0x13"

lemma flat_translate:
  assumes "flat k" "unat a < 2 ^ 30"
  shows "\<exists>b. mmu_translate k (get_mmu k) a = Some b \<and> ld8 k b = mem k a"
proof -
  have "unat (drop_bit 30 a) = 0" using assms(2) by (simp add: drop_bit_eq_div unat_div)
  then have v: "vpn0 a = 0" by (simp add: word_unat_eq_iff unat_vpn0)
  have t: "take_bit 30 a = a" using assms(2) by (simp add: word_unat_eq_iff unsigned_take_bit_eq take_bit_nat_eq_self)
  have "take_bit 30 a AND NOT (mask 30) = 0" by (rule bit_word_eqI) (auto simp: bit_simps)
  then have z: "a AND NOT (mask 30) = 0" unfolding t .
  have e: "mmu_entry_valid 0x13" "mmu_entry_frame 0x13" "taddr 0x13 = 0" by code_simp+
  have w: "unat a < window_size" using assms(2) by (simp add: window_size_def)
  have "mmu_translate k (get_mmu k) a = Some (phys2safe k 0 OR low_part 0 a)"
    using assms(1) e v by (simp add: mmu_translate_def get_vpns_def mmu_root_get_def mmu_root_get_any_def mmu_root_valid_def flat_def MMU_ENTRY_COUNT_def
        low_part_def mmu_entry_phys_taddr Let_def)
  also have "phys2safe k 0 OR low_part 0 a = phys2safe k a"
    using phys2safe_split [OF w, of k 30] unfolding z low_part_bits .
  finally show ?thesis using w by (simp add: ld8_def)
qed

primrec text_at :: "(u64 \<Rightarrow> u8) \<Rightarrow> u64 \<Rightarrow> string \<Rightarrow> bool" where
  "text_at m a [] \<longleftrightarrow> a < 0x40000000 \<and> m a = 0"
| "text_at m a (d # t) \<longleftrightarrow> a < 0x40000000 \<and> m a \<noteq> 0 \<and> to_char (ucast (m a)) = d \<and> text_at m (a + 1) t"

lemma flat_string: "flat k \<Longrightarrow> text_at (mem k) a t \<Longrightarrow> user_string k a = Some t"
proof (induction t arbitrary: a)
  case Nil
  then show ?case using flat_translate [of k a] by (subst user_string.simps) (auto simp: word_less_nat_alt)
next
  case (Cons d t)
  then show ?case using flat_translate [of k a] by (subst user_string.simps) (auto simp: word_less_nat_alt)
qed

lemma user_flat: "flat (user_kstate\<lparr>satp := satp_of 0x1000\<rparr>)" "flat (user_kstate\<lparr>satp := satp_of 0x2000\<rparr>)"
  by code_simp+

lemma user_texts: "text_at user_mem 0x4000 ''from uwu''" "text_at user_mem 0x3000 ''from initd''"
  by code_simp+

lemma user_strings:
  "user_string (user_kstate\<lparr>satp := satp_of 0x1000\<rparr>) 0x4000 = Some ''from uwu''"
  "user_string (user_kstate\<lparr>satp := satp_of 0x2000\<rparr>) 0x3000 = Some ''from initd''"
  using user_flat user_texts by (auto intro!: flat_string simp: user_kstate_def)

lemma user_programs: "programs_ok user_images 1 user_root user_kstate"
  using user_strings by (auto simp: programs_ok_def le_Suc_eq user_root_def user_images_def user_text_def)

definition user_view :: view where "user_view = \<lparr>v_cur = 1, v_next = 0, v_loaded = (\<lambda>_. False), v_out = []\<rparr>"

lemma user_observed: "observed user_images 1 user_root (\<lambda>_. ''initd'') 0 user_view (demo_cpu, user_os)"
proof -
  have t: "tasks user_os ! p = (tasks demo_hart ! p)\<lparr>task_mmu_data := user_root p\<rparr>" if "p \<le> 1" for p
    using that by (simp add: user_os_def)
  have "hart_ok 1 demo_cpu user_os"
    using demo_hart_ok t
    by (auto simp: hart_ok_def os_ok_def task_ok_def user_os_def demo_hart_def demo_os_def)
  moreover have "tasks demo_hart ! p = clear_x0 (demo_task p)" if "p \<le> 1" for p
    using that by (simp add: demo_hart_def demo_os_def)
  ultimately show ?thesis
    using user_programs t
    by (simp add: observed_def user_view_def phase_ok_def user_images_def registers_def saved_def)
      (auto simp: user_os_def user_kstate_def demo_hart_def demo_os_def demo_cpu_def clear_x0_def demo_task_def demo_trap_def user_root_def kstate0_def le_Suc_eq)
qed

theorem programs_refine_view_witness:
  "\<exists>c' s'. hart_events demo_firmware user_images [Step, Timer, Step, Step, Timer, Step, Step] (demo_cpu, user_os) = Some (c', s') \<and>
     console_out (ks s') = ''[PID 0x0 (initd) @ hartid 0x0] from uwu'' @ [NL] @ ''[PID 0x1 (initd) @ hartid 0x0] from initd'' @ [NL]"
proof -
  let ?evs = "[Step, Timer, Step, Step, Timer, Step, Step]" and ?l = "line_of user_images (\<lambda>_. ''initd'') 0"
  have line: "?l 0 = ''[PID 0x0 (initd) @ hartid 0x0] from uwu'' @ [NL]" "?l 1 = ''[PID 0x1 (initd) @ hartid 0x0] from initd'' @ [NL]"
    by (simp_all add: line_of_def user_images_def user_text_def put_hex_def hex_loop.simps hex_digit_def)
  have "v_out (view_events 1 f ?evs user_view) = f 0 @ f 1" for f by (simp add: user_view_def)
  then have out: "v_out (view_events 1 ?l ?evs user_view) = ?l 0 @ ?l 1" .
  obtain c' s' where "hart_events demo_firmware user_images ?evs (demo_cpu, user_os) = Some (c', s')"
    "console_out (ks s') = v_out (view_events 1 ?l ?evs user_view)"
    using programs_refine_view [OF user_observed, of demo_firmware ?evs] by blast
  then show ?thesis unfolding out line by (intro exI [of _ c'] exI [of _ s']) (simp only: append_assoc simp_thms)
qed

end
