(* ===== verification/Strings.thy ===== *)
theory Strings
  imports Machine
begin

text \<open>
  \<^verbatim>\<open>kernel/src/string.c\<close>: comparison and length of NUL-terminated strings in memory. A \<^verbatim>\<open>char\<close> is unsigned on
  RISC-V. \<open>str_at s p cs\<close> says that the string \<open>cs\<close>, without its NUL, is at \<open>p\<close>.
\<close>

partial_function (option) strcmp :: "kstate \<Rightarrow> u64 \<Rightarrow> u64 \<Rightarrow> int option" where
  "strcmp s s1 s2 =
     (if ld8 s s1 \<noteq> 0 \<and> ld8 s s2 \<noteq> 0 then
        if ld8 s s1 < ld8 s s2 then Some (- 1)
        else if ld8 s s1 > ld8 s s2 then Some 1
        else strcmp s (s1 + 1) (s2 + 1)
      else if ld8 s s1 < ld8 s s2 then Some (- 1)
      else if ld8 s s1 > ld8 s s2 then Some 1
      else Some 0)"

text \<open>The index of \<^verbatim>\<open>strlen\<close> is an \<^verbatim>\<open>int\<close>.\<close>

partial_function (option) strlen_loop :: "kstate \<Rightarrow> u64 \<Rightarrow> u32 \<Rightarrow> u64 option" where
  "strlen_loop s p i =
     (if ld8 s (p + scast i) \<noteq> 0 then strlen_loop s p (i + 1) else Some (scast i))"

definition strlen :: "kstate \<Rightarrow> u64 \<Rightarrow> u64 option" where
  "strlen s p = strlen_loop s p 0"

subsection \<open>Strings in memory\<close>

primrec str_at :: "kstate \<Rightarrow> u64 \<Rightarrow> u8 list \<Rightarrow> bool" where
  "str_at s p [] \<longleftrightarrow> ld8 s p = 0"
| "str_at s p (c # cs) \<longleftrightarrow> c \<noteq> 0 \<and> ld8 s p = c \<and> str_at s (p + 1) cs"

lemma str_at_nth: "str_at s p cs \<Longrightarrow> i < length cs \<Longrightarrow> ld8 s (p + of_nat i) = cs ! i \<and> cs ! i \<noteq> 0"
proof (induction cs arbitrary: p i)
  case (Cons c cs)
  then show ?case using Cons.IH [of "p + 1" "i - 1"] by (cases i) (auto simp: add.assoc)
qed simp

lemma str_at_end: "str_at s p cs \<Longrightarrow> ld8 s (p + of_nat (length cs)) = 0"
proof (induction cs arbitrary: p)
  case (Cons c cs)
  then show ?case using Cons.IH [of "p + 1"] by (simp add: add.assoc)
qed simp

lemma strlen_loop_eq:
  assumes "str_at s p cs" "length cs < 2 ^ 31" "i \<le> length cs"
  shows "strlen_loop s p (of_nat i) = Some (of_nat (length cs))"
  using assms(3)
proof (induction "length cs - i" arbitrary: i)
  case 0
  have "sint (of_nat (length cs) :: u32) = int (length cs)"
    using assms(2) by (simp add: signed_of_nat signed_take_bit_int_eq_self)
  then have "(scast (of_nat (length cs) :: u32) :: u64) = of_nat (length cs)"
    by (metis of_int_of_nat_eq of_int_sint)
  then show ?case using 0 str_at_end [OF assms(1)] by (subst strlen_loop.simps) simp
next
  case (Suc n)
  then have i: "i < length cs" by simp
  have "sint (of_nat i :: u32) = int i"
    using assms(2) i by (simp add: signed_of_nat signed_take_bit_int_eq_self)
  then have "(scast (of_nat i :: u32) :: u64) = of_nat i"
    by (metis of_int_of_nat_eq of_int_sint)
  moreover have "strlen_loop s p (of_nat (Suc i)) = Some (of_nat (length cs))"
    by (rule Suc.hyps(1)) (use Suc.hyps(2) i in simp_all)
  ultimately show ?case
    using str_at_nth [OF assms(1) i] by (subst strlen_loop.simps) (simp add: add.commute)
qed

lemma strcmp_eq:
  "str_at s p cs \<Longrightarrow> str_at s q ds \<Longrightarrow>
     strcmp s p q = Some (if cs = ds then 0 else if ord_class.lexordp cs ds then - 1 else 1)"
proof (induction cs arbitrary: p q ds)
  case Nil
  then show ?case by (cases ds) (auto simp: strcmp.simps [of s p q] word_gt_0)
next
  case (Cons c cs)
  show ?case
  proof (cases ds)
    case Nil
    then show ?thesis using Cons.prems by (auto simp: strcmp.simps [of s p q] word_gt_0)
  next
    case (Cons d ds')
    then show ?thesis
      using Cons.prems Cons.IH [of "p + 1" "q + 1" ds'] by (auto simp: strcmp.simps [of s p q])
  qed
qed

text \<open>C34. On NUL-terminated strings \<^verbatim>\<open>strcmp\<close> is the lexicographic comparison of the unsigned bytes, with
  results -1, 0 and 1, and \<^verbatim>\<open>strlen\<close> is the length, for strings shorter than \<open>2 ^ 31\<close> bytes. Both return.\<close>

theorem strcmp_strlen_spec:
  assumes "str_at s p cs" "str_at s q ds" "length cs < 2 ^ 31"
  shows "strcmp s p q = Some (if cs = ds then 0 else if ord_class.lexordp cs ds then - 1 else 1) \<and>
    strlen s p = Some (of_nat (length cs))"
  using strcmp_eq [OF assms(1,2)] strlen_loop_eq [OF assms(1,3), of 0] by (simp add: strlen_def)

theorem strcmp_strlen_spec_witness:
  "strcmp (kstate0\<lparr>mem := (\<lambda>_. 0)(100 := 97, 101 := 98, 200 := 98)\<rparr>) 100 200 = Some (- 1) \<and>
   strlen (kstate0\<lparr>mem := (\<lambda>_. 0)(100 := 97, 101 := 98, 200 := 98)\<rparr>) 100 = Some 2"
  using strcmp_strlen_spec [of "kstate0\<lparr>mem := (\<lambda>_. 0)(100 := 97, 101 := 98, 200 := 98)\<rparr>" 100 "[97, 98]" 200 "[98]"]
  by (simp add: ld8_def kaddr_low KERNEL_SPACE_OFFSET_def)

end
