(* ===== verification/Elf.thy ===== *)
theory Elf
  imports Console
begin

text \<open>
  \<^verbatim>\<open>kernel/src/elf.c\<close> and the packed structures of \<^verbatim>\<open>elf.h\<close>: fields are read from memory at their offsets.
\<close>

subsection \<open>Headers\<close>

definition elf_ident :: "kstate \<Rightarrow> u64 \<Rightarrow> nat \<Rightarrow> u8" where "elf_ident s h i = ld8 s (h + of_nat i)"
definition elf_type :: "kstate \<Rightarrow> u64 \<Rightarrow> u16" where "elf_type s h = ld16 s (h + 16)"
definition elf_machine :: "kstate \<Rightarrow> u64 \<Rightarrow> u16" where "elf_machine s h = ld16 s (h + 18)"
definition elf_version :: "kstate \<Rightarrow> u64 \<Rightarrow> u32" where "elf_version s h = ld32 s (h + 20)"
definition elf_entry :: "kstate \<Rightarrow> u64 \<Rightarrow> u64" where "elf_entry s h = ld64 s (h + 24)"
definition program_header_offset :: "kstate \<Rightarrow> u64 \<Rightarrow> u64" where "program_header_offset s h = ld64 s (h + 32)"
definition section_header_offset :: "kstate \<Rightarrow> u64 \<Rightarrow> u64" where "section_header_offset s h = ld64 s (h + 40)"
definition program_header_entry_size :: "kstate \<Rightarrow> u64 \<Rightarrow> u16" where "program_header_entry_size s h = ld16 s (h + 54)"
definition program_header_num :: "kstate \<Rightarrow> u64 \<Rightarrow> u16" where "program_header_num s h = ld16 s (h + 56)"
definition section_header_entry_size :: "kstate \<Rightarrow> u64 \<Rightarrow> u16" where "section_header_entry_size s h = ld16 s (h + 58)"
definition section_header_string_index :: "kstate \<Rightarrow> u64 \<Rightarrow> u16" where "section_header_string_index s h = ld16 s (h + 62)"

definition sh_offset :: "kstate \<Rightarrow> u64 \<Rightarrow> u64" where "sh_offset s sh = ld64 s (sh + 24)"

record elf_program_header_t =
  ph_type :: u32
  ph_flags :: u32
  ph_offset :: u64
  ph_virtual_addr :: u64
  ph_physical_addr :: u64
  ph_file_size :: u64
  ph_memory_size :: u64
  ph_align :: u64

definition load_program_header :: "kstate \<Rightarrow> u64 \<Rightarrow> elf_program_header_t" where
  "load_program_header s a = \<lparr>ph_type = ld32 s a, ph_flags = ld32 s (a + 4), ph_offset = ld64 s (a + 8),
     ph_virtual_addr = ld64 s (a + 16), ph_physical_addr = ld64 s (a + 24), ph_file_size = ld64 s (a + 32),
     ph_memory_size = ld64 s (a + 40), ph_align = ld64 s (a + 48)\<rparr>"

definition ELF_EXECUTABLE :: u16 where "ELF_EXECUTABLE = 2"

record elf_t =
  elf_header :: u64
  elf_string_table :: u64
  elf_size :: u64

definition get_elf_section_header :: "kstate \<Rightarrow> elf_t \<Rightarrow> u64 \<Rightarrow> u64" where
  "get_elf_section_header s elf i =
     elf_header elf + section_header_offset s (elf_header elf) + ucast (section_header_entry_size s (elf_header elf)) * i"

definition get_elf_program_header :: "kstate \<Rightarrow> elf_t \<Rightarrow> u64 \<Rightarrow> u64" where
  "get_elf_program_header s elf i =
     elf_header elf + program_header_offset s (elf_header elf) + ucast (program_header_entry_size s (elf_header elf)) * i"

subsection \<open>Verification\<close>

definition no_elf :: elf_t where "no_elf = \<lparr>elf_header = 0, elf_string_table = 0, elf_size = 0\<rparr>"

definition elf_error :: "string \<Rightarrow> va list \<Rightarrow> kstate \<Rightarrow> (elf_t \<times> kstate) option" where
  "elf_error fmt args s = map_option (Pair no_elf) (console_printf fmt args s)"

definition verify_elf :: "u64 \<Rightarrow> u64 \<Rightarrow> kstate \<Rightarrow> (elf_t \<times> kstate) option" where
  "verify_elf data sz s =
     (if data = 0 then Some (no_elf, s)
      else if elf_ident s data 0 \<noteq> 0x7f \<or> elf_ident s data 1 \<noteq> 69 \<or> elf_ident s data 2 \<noteq> 76 \<or> elf_ident s data 3 \<noteq> 70
      then elf_error (''data located at %p is not an elf file'' @ [CHR 0x0A]) [VWord data] s
      else if elf_ident s data 4 \<noteq> 2
      then elf_error (''unknown elf class 0x%x'' @ [CHR 0x0A]) [VWord (ucast (elf_ident s data 4))] s
      else if elf_ident s data 5 \<noteq> 1
      then elf_error (''unknown data encoding 0x%x'' @ [CHR 0x0A]) [VWord (ucast (elf_ident s data 5))] s
      else if elf_version s data \<noteq> 1
      then elf_error (''invalid version 0x%x'' @ [CHR 0x0A]) [VWord (ucast (elf_version s data))] s
      else if elf_machine s data \<noteq> 243
      then elf_error (''invalid machine type %x'' @ [CHR 0x0A]) [VWord (ucast (elf_ident s data 5))] s
      else
        let elf = \<lparr>elf_header = data, elf_string_table = 0, elf_size = sz\<rparr>;
            sh = get_elf_section_header s elf (ucast (section_header_string_index s data))
        in Some (elf\<lparr>elf_string_table := data + sh_offset s sh\<rparr>, s))"

text \<open>The files the kernel accepts: 64-bit little-endian ELF for RISC-V.\<close>

definition elf_accepted :: "kstate \<Rightarrow> u64 \<Rightarrow> bool" where
  "elf_accepted s data \<longleftrightarrow> data \<noteq> 0 \<and> map (elf_ident s data) [0..<6] = [0x7f, 69, 76, 70, 2, 1] \<and>
     elf_version s data = 1 \<and> elf_machine s data = 243"

text \<open>C33. \<^verbatim>\<open>verify_elf\<close> returns, on any data: for a 64-bit little-endian RISC-V ELF file it gives the file
  itself and prints nothing; for anything else it gives a NULL header, and unless the pointer is NULL
  it prints a message. Memory is never changed.\<close>

theorem verify_elf_spec:
  "\<exists>elf out. verify_elf data sz s = Some (elf, s\<lparr>console_out := console_out s @ out\<rparr>) \<and>
     (if elf_accepted s data then elf_header elf = data \<and> elf_size elf = sz \<and> out = [] \<and> data \<noteq> 0
      else elf_header elf = 0 \<and> (out = [] \<longleftrightarrow> data = 0))"
proof -
  have ident: "map (elf_ident s data) [0..<6] =
      [elf_ident s data 0, elf_ident s data 1, elf_ident s data 2, elf_ident s data 3, elf_ident s data 4, elf_ident s data 5]"
    by (simp add: upt_rec numeral_eq_Suc)
  show ?thesis
  proof (cases "elf_accepted s data")
    case True
    then show ?thesis unfolding elf_accepted_def ident by (simp add: verify_elf_def Let_def)
  next
    case False
    then show ?thesis
      unfolding elf_accepted_def ident
      by (auto simp: verify_elf_def no_elf_def elf_error_def console_printf_def console_puts_def va_arg_word_def)
  qed
qed

end
