(* ===== verification/Buffer.thy ===== *)
theory Buffer
  imports Prelude
begin

text \<open>
  Heap buffers of the container libraries as byte lists: \<^verbatim>\<open>memcpy\<close> into and out of a buffer, with an access
  outside of the buffer as \<open>None\<close>. A fresh or extended buffer holds unknown bytes, the argument \<open>junk\<close>.
\<close>

definition rd :: "u8 list \<Rightarrow> nat \<Rightarrow> nat \<Rightarrow> u8 list option" where
  "rd bs off n = (if off + n \<le> length bs then Some (take n (drop off bs)) else None)"

definition wr :: "u8 list \<Rightarrow> nat \<Rightarrow> u8 list \<Rightarrow> u8 list option" where
  "wr bs off d = (if off + length d \<le> length bs then Some (take off bs @ d @ drop (off + length d) bs) else None)"

definition new_buffer :: "(nat \<Rightarrow> u8) \<Rightarrow> nat \<Rightarrow> u8 list" where
  "new_buffer junk n = map junk [0..<n]"

definition resize_buffer :: "(nat \<Rightarrow> u8) \<Rightarrow> nat \<Rightarrow> u8 list \<Rightarrow> u8 list" where
  "resize_buffer junk n bs = take n bs @ map junk [length bs..<n]"

lemma new_buffer_length [simp]: "length (new_buffer junk n) = n"
  by (simp add: new_buffer_def)

lemma resize_buffer_length [simp]: "length (resize_buffer junk n bs) = n"
  by (simp add: resize_buffer_def)

text \<open>Slot \<open>i\<close> of a buffer of slots of \<open>n\<close> bytes.\<close>

definition chunk :: "nat \<Rightarrow> u8 list \<Rightarrow> nat \<Rightarrow> u8 list" where
  "chunk n bs i = take n (drop (i * n) bs)"

lemma chunk_in: "i < k \<Longrightarrow> k * n \<le> length bs \<Longrightarrow> i * n + n \<le> length (bs :: u8 list)"
proof -
  assume "i < k" "k * n \<le> length bs"
  then have "Suc i * n \<le> k * n" by (intro mult_le_mono1) simp
  then show ?thesis using \<open>k * n \<le> length bs\<close> by simp
qed

lemma chunk_length [simp]: "i < k \<Longrightarrow> k * n \<le> length bs \<Longrightarrow> length (chunk n bs i) = n"
  using chunk_in [of i k n bs] by (simp add: chunk_def)

lemma rd_chunk: "i < k \<Longrightarrow> k * n \<le> length bs \<Longrightarrow> rd bs (i * n) n = Some (chunk n bs i)"
  using chunk_in [of i k n bs] by (simp add: rd_def chunk_def)

lemma wr_chunk:
  assumes "i < k" "k * n \<le> length bs" "length d = n"
  obtains bs' where "wr bs (i * n) d = Some bs'" "length bs' = length bs"
    "\<And>j. j < k \<Longrightarrow> chunk n bs' j = (if j = i then d else chunk n bs j)"
proof -
  let ?bs = "take (i * n) bs @ d @ drop (i * n + n) bs"
  have i: "i * n + n \<le> length bs" by (rule chunk_in [OF assms(1,2)])
  have "chunk n ?bs j = (if j = i then d else chunk n bs j)" if j: "j < k" for j
  proof -
    consider "j = i" | "j < i" | "i < j" by linarith
    then show ?thesis
    proof cases
      case 1
      then show ?thesis using i assms(3) by (simp add: chunk_def)
    next
      case 2
      then have "Suc j * n \<le> i * n" by (intro mult_le_mono1) simp
      then have "j * n + n \<le> i * n" by simp
      then show ?thesis using 2 i by (simp add: chunk_def drop_take)
    next
      case 3
      then have "Suc i * n \<le> j * n" by (intro mult_le_mono1) simp
      then have "i * n + n \<le> j * n" by simp
      then show ?thesis using 3 i assms(3) by (simp add: chunk_def)
    qed
  qed
  then show thesis using that [of ?bs] i assms(3) by (simp add: wr_def)
qed

lemma resize_chunk: "i < k \<Longrightarrow> k * n \<le> length bs \<Longrightarrow> k * n \<le> m \<Longrightarrow> chunk n (resize_buffer junk m bs) i = chunk n bs i"
proof -
  assume a: "i < k" "k * n \<le> length bs" "k * n \<le> m"
  have "i * n + n \<le> length bs" by (rule chunk_in [OF a(1,2)])
  moreover have "Suc i * n \<le> k * n" using a(1) by (intro mult_le_mono1) simp
  ultimately have "n \<le> length bs - i * n" "n \<le> m - i * n" using a(3) by simp_all
  then show ?thesis by (simp add: chunk_def resize_buffer_def drop_take)
qed

end
