(* ===== verification/Queue.thy ===== *)
theory Queue
  imports Buffer
begin

text \<open>
  \<^verbatim>\<open>kernel/src/queue.c\<close>: the ring buffer. What a first-in first-out queue promises is the locale \<open>fifo\<close>; the
  code provides it as long as the ring does not have to grow.
\<close>

subsection \<open>Operations\<close>

record s_queue =
  q_item_size :: u64
  q_len :: u64
  q_cap :: u64
  q_start :: u64
  q_end :: u64
  q_bytes :: "u8 list"

definition QUEUE_INIT_SIZE :: u64 where "QUEUE_INIT_SIZE = 128"

definition create_queue :: "(nat \<Rightarrow> u8) \<Rightarrow> u64 \<Rightarrow> s_queue" where
  "create_queue junk item_size =
     \<lparr>q_item_size = item_size, q_len = 0, q_cap = QUEUE_INIT_SIZE, q_start = 0, q_end = 0,
      q_bytes = new_buffer junk (unat (item_size * QUEUE_INIT_SIZE))\<rparr>"

definition grow_queue :: "(nat \<Rightarrow> u8) \<Rightarrow> s_queue \<Rightarrow> s_queue" where
  "grow_queue junk q =
     (let q = q\<lparr>q_cap := push_bit 1 (q_cap q)\<rparr>
      in q\<lparr>q_bytes := resize_buffer junk (unat (q_cap q * q_item_size q)) (q_bytes q)\<rparr>)"

definition queue_len :: "s_queue \<Rightarrow> u64" where "queue_len q = q_len q"

definition queue_enqueue :: "(nat \<Rightarrow> u8) \<Rightarrow> s_queue \<Rightarrow> u8 list \<Rightarrow> s_queue option" where
  "queue_enqueue junk q data =
     (let item_size = q_item_size q;
          q = (if q_len q \<ge> q_cap q then grow_queue junk q else q)
      in do {
        bs \<leftarrow> wr (q_bytes q) (unat (q_end q * item_size)) (take (unat item_size) data);
        let q = q\<lparr>q_bytes := bs, q_end := q_end q + 1, q_len := q_len q + 1\<rparr>;
        Some (if q_end q \<ge> q_cap q then q\<lparr>q_end := 0\<rparr> else q) })"

text \<open>The result is \<^verbatim>\<open>false\<close> (and no data), or \<^verbatim>\<open>true\<close> with the data copied out if \<open>want\<close> (\<^verbatim>\<open>data != NULL\<close>).\<close>

definition queue_dequeue :: "bool \<Rightarrow> s_queue \<Rightarrow> (bool \<times> u8 list option \<times> s_queue) option" where
  "queue_dequeue want q =
     (let item_size = q_item_size q
      in if q_len q = 0 then Some (False, None, q)
         else do {
           d \<leftarrow> (if want then map_option Some (rd (q_bytes q) (unat (q_start q * item_size)) (unat item_size)) else Some None);
           let q = q\<lparr>q_start := q_start q + 1, q_len := q_len q - 1\<rparr>;
           Some (True, d, if q_start q \<ge> q_cap q then q\<lparr>q_start := 0\<rparr> else q) })"

subsection \<open>First in, first out\<close>

text \<open>\<open>room s\<close>: one more item fits.\<close>

locale fifo =
  fixes inv :: "'s \<Rightarrow> bool"
    and items :: "'s \<Rightarrow> 'a list"
    and item :: "'s \<Rightarrow> 'a \<Rightarrow> bool"
    and room :: "'s \<Rightarrow> nat"
    and enq :: "'s \<Rightarrow> 'a \<Rightarrow> 's option"
    and deq :: "'s \<Rightarrow> ('a \<times> 's) option"
  assumes enq_some: "inv s \<Longrightarrow> item s x \<Longrightarrow> 0 < room s \<Longrightarrow>
      \<exists>t. enq s x = Some t \<and> inv t \<and> items t = items s @ [x] \<and> room t = room s - 1 \<and> item t = item s"
    and deq_some: "inv s \<Longrightarrow> items s = x # ys \<Longrightarrow> \<exists>t. deq s = Some (x, t) \<and> inv t \<and> items t = ys"
    and deq_none: "inv s \<Longrightarrow> items s = [] \<Longrightarrow> deq s = None"
begin

primrec enq_all :: "'s \<Rightarrow> 'a list \<Rightarrow> 's option" where
  "enq_all s [] = Some s"
| "enq_all s (y # ys) = Option.bind (enq s y) (\<lambda>t. enq_all t ys)"

primrec deq_n :: "nat \<Rightarrow> 's \<Rightarrow> ('a list \<times> 's) option" where
  "deq_n 0 s = Some ([], s)"
| "deq_n (Suc n) s = Option.bind (deq s) (\<lambda>(x, t). map_option (\<lambda>(ys, u). (x # ys, u)) (deq_n n t))"

lemma enq_all_some:
  "inv s \<Longrightarrow> \<forall>y\<in>set ys. item s y \<Longrightarrow> length ys \<le> room s \<Longrightarrow>
     \<exists>t. enq_all s ys = Some t \<and> inv t \<and> items t = items s @ ys"
proof (induction ys arbitrary: s)
  case (Cons y ys)
  then obtain t where t: "enq s y = Some t" "inv t" "items t = items s @ [y]" "room t = room s - 1" "item t = item s"
    using enq_some [of s y] by auto
  then show ?case using Cons.IH [of t] Cons.prems by auto
qed simp

lemma deq_n_some:
  "inv s \<Longrightarrow> items s = ys @ zs \<Longrightarrow> \<exists>t. deq_n (length ys) s = Some (ys, t) \<and> inv t \<and> items t = zs"
proof (induction ys arbitrary: s)
  case (Cons y ys)
  then obtain t where t: "deq s = Some (y, t)" "inv t" "items t = ys @ zs" using deq_some [of s y "ys @ zs"] by auto
  then show ?case using Cons.IH [of t] by auto
qed simp

text \<open>What went in comes out, in order, behind what was there before.\<close>

lemma in_out:
  assumes "inv s" "\<forall>y\<in>set ys. item s y" "length ys \<le> room s"
  shows "\<exists>t u. enq_all s ys = Some t \<and> deq_n (length (items s) + length ys) t = Some (items s @ ys, u) \<and> items u = []"
proof -
  obtain t where t: "enq_all s ys = Some t" "inv t" "items t = items s @ ys" using enq_all_some [OF assms] by blast
  then show ?thesis using deq_n_some [of t "items s @ ys" "[]"] by auto
qed

end

subsection \<open>The ring\<close>

text \<open>\<open>queue_ok q\<close>: the indices are inside the ring, the buffer has room for all slots, and sizes do not
  overflow, also when the ring is doubled.\<close>

definition queue_ok :: "s_queue \<Rightarrow> bool" where
  "queue_ok q \<longleftrightarrow>
     q_start q < q_cap q \<and> q_end q < q_cap q \<and> q_len q \<le> q_cap q \<and>
     2 * unat (q_cap q) * unat (q_item_size q) < 2 ^ 64 \<and> 2 * unat (q_cap q) < 2 ^ 64 \<and>
     length (q_bytes q) = unat (q_cap q) * unat (q_item_size q) \<and>
     unat (q_end q) = (unat (q_start q) + unat (q_len q)) mod unat (q_cap q)"

definition queue_items :: "s_queue \<Rightarrow> u8 list list" where
  "queue_items q = map (\<lambda>i. chunk (unat (q_item_size q)) (q_bytes q) ((unat (q_start q) + i) mod unat (q_cap q))) [0..<unat (q_len q)]"

lemma unat_Suc: "unat a < unat (b :: u64) \<Longrightarrow> unat (a + 1 :: u64) = unat a + 1"
proof -
  assume "unat a < unat b"
  moreover have "unat b < 2 ^ 64" by simp
  ultimately have "unat a + 1 < 2 ^ 64" by linarith
  then show ?thesis using unat_add_nowrap [of a 1] by simp
qed

lemma len64: "LENGTH(64) = 64" by simp

lemma slot_offset:
  assumes "i < q_cap q" "2 * unat (q_cap q) * unat (q_item_size q) < 2 ^ 64"
  shows "unat (i * q_item_size q) = unat i * unat (q_item_size q)"
proof -
  have "unat i * unat (q_item_size q) \<le> unat (q_cap q) * unat (q_item_size q)"
    using assms(1) by (intro mult_le_mono1) (simp add: word_less_nat_alt)
  moreover have "unat (q_cap q) * unat (q_item_size q) < 2 ^ 64" using assms(2) by linarith
  ultimately have "unat i * unat (q_item_size q) < 2 ^ LENGTH(64)" unfolding len64 by linarith
  then show ?thesis by (simp add: unat_mult_lem [THEN iffD1])
qed

lemma ring_cancel: "(a + i) mod c = (a + j) mod c \<Longrightarrow> i mod c = j mod (c :: nat)"
proof -
  assume "(a + i) mod c = (a + j) mod c"
  then have "(int a + int i) mod int c = (int a + int j) mod int c" by (metis of_nat_add of_nat_mod)
  then have "int i mod int c = int j mod int c" by (simp add: mod_eq_dvd_iff)
  then show ?thesis by (metis of_nat_eq_iff of_nat_mod)
qed

lemma queue_enqueue_ok:
  assumes ok: "queue_ok q" and room: "q_len q < q_cap q" and d: "length d = unat (q_item_size q)"
  shows "\<exists>q'. queue_enqueue junk q d = Some q' \<and> queue_ok q' \<and> queue_items q' = queue_items q @ [d] \<and>
    q_item_size q' = q_item_size q \<and> q_cap q' = q_cap q \<and> q_len q' = q_len q + 1"
proof -
  let ?n = "unat (q_item_size q)" and ?c = "unat (q_cap q)" and ?e = "unat (q_end q)"
  have e: "?e < ?c" and b: "?c * ?n \<le> length (q_bytes q)" and ov: "2 * ?c * ?n < 2 ^ 64"
    using ok by (simp_all add: queue_ok_def word_less_nat_alt)
  obtain bs where bs: "wr (q_bytes q) (?e * ?n) d = Some bs" "length bs = length (q_bytes q)"
    "\<And>j. j < ?c \<Longrightarrow> chunk ?n bs j = (if j = ?e then d else chunk ?n (q_bytes q) j)"
    by (rule wr_chunk [OF e b d]) (rule that)
  have off: "unat (q_end q * q_item_size q) = ?e * ?n" by (rule slot_offset [OF _ ov]) (use ok in \<open>simp add: queue_ok_def\<close>)
  define q' where "q' = q\<lparr>q_bytes := bs, q_end := (if q_end q + 1 \<ge> q_cap q then 0 else q_end q + 1), q_len := q_len q + 1\<rparr>"
  have l1: "unat (q_len q + 1) = unat (q_len q) + 1"
    using room by (intro unat_Suc [of _ "q_cap q"]) (simp add: word_less_nat_alt)
  have e1: "unat (q_end q + 1) = ?e + 1"
    using e by (intro unat_Suc [of _ "q_cap q"]) simp
  have "\<not> q_cap q \<le> q_len q" using room by simp
  then have eq: "queue_enqueue junk q d = Some q'"
    using bs(1) d off by (simp add: queue_enqueue_def Let_def q'_def)
  have em: "unat (q_end q') = (unat (q_start q') + unat (q_len q')) mod ?c"
  proof -
    have "unat (q_end q') = (?e + 1) mod ?c"
      using e e1 by (auto simp: q'_def word_le_nat_alt mod_Suc)
    then show ?thesis using ok l1 by (simp add: queue_ok_def q'_def mod_Suc_eq)
  qed
  have "queue_ok q'"
    unfolding queue_ok_def using ok em bs(2) room l1 e1
    by (auto simp: queue_ok_def q'_def word_le_nat_alt word_less_nat_alt)
  moreover have "queue_items q' = queue_items q @ [d]"
  proof -
    have c: "0 < ?c" using e by simp
    have "(unat (q_start q) + i) mod ?c \<noteq> ?e" if "i < unat (q_len q)" for i
    proof
      assume "(unat (q_start q) + i) mod ?c = ?e"
      then have "(unat (q_start q) + i) mod ?c = (unat (q_start q) + unat (q_len q)) mod ?c" using ok by (simp add: queue_ok_def)
      then have "i mod ?c = unat (q_len q) mod ?c" by (rule ring_cancel)
      then show False using that room by (simp add: word_less_nat_alt)
    qed
    then have "chunk ?n bs ((unat (q_start q) + i) mod ?c) = chunk ?n (q_bytes q) ((unat (q_start q) + i) mod ?c)"
      if "i < unat (q_len q)" for i using bs(3) [OF mod_less_divisor [OF c]] that by simp
    moreover have "chunk ?n bs ((unat (q_start q) + unat (q_len q)) mod ?c) = d"
      using bs(3) [OF e] ok by (simp add: queue_ok_def)
    ultimately show ?thesis by (simp add: queue_items_def q'_def l1)
  qed
  ultimately show ?thesis using eq by (simp add: q'_def)
qed

lemma queue_dequeue_ok:
  assumes ok: "queue_ok q" and it: "queue_items q = x # ys"
  shows "\<exists>q'. queue_dequeue True q = Some (True, Some x, q') \<and> queue_ok q' \<and> queue_items q' = ys \<and>
    q_item_size q' = q_item_size q \<and> q_cap q' = q_cap q \<and> q_len q' = q_len q - 1"
proof -
  let ?n = "unat (q_item_size q)" and ?c = "unat (q_cap q)" and ?s = "unat (q_start q)"
  have s: "?s < ?c" and b: "?c * ?n \<le> length (q_bytes q)" and ov: "2 * ?c * ?n < 2 ^ 64"
    using ok by (simp_all add: queue_ok_def word_less_nat_alt)
  have "length (queue_items q) = unat (q_len q)" by (simp add: queue_items_def)
  then have l: "0 < unat (q_len q)" "q_len q \<noteq> 0" using it by auto
  have off: "unat (q_start q * q_item_size q) = ?s * ?n" by (rule slot_offset [OF _ ov]) (use ok in \<open>simp add: queue_ok_def\<close>)
  have up: "[0..<unat (q_len q)] = 0 # map Suc [0..<unat (q_len q) - 1]"
    using l by (simp add: upt_conv_Cons map_Suc_upt)
  then have x: "x = chunk ?n (q_bytes q) ?s"
    and ys: "ys = map (\<lambda>i. chunk ?n (q_bytes q) ((?s + Suc i) mod ?c)) [0..<unat (q_len q) - 1]"
    using it s by (auto simp: queue_items_def comp_def)
  define q' where "q' = q\<lparr>q_start := (if q_start q + 1 \<ge> q_cap q then 0 else q_start q + 1), q_len := q_len q - 1\<rparr>"
  have l1: "unat (q_len q - 1) = unat (q_len q) - 1" using l by (simp add: unat_minus_one)
  have s1: "unat (q_start q + 1) = ?s + 1"
    using s by (intro unat_Suc [of _ "q_cap q"]) simp
  have sm: "unat (q_start q') = (?s + 1) mod ?c" using s s1 by (auto simp: q'_def word_le_nat_alt mod_Suc)
  have eq: "queue_dequeue True q = Some (True, Some x, q')"
    using l rd_chunk [OF s b] off x by (simp add: queue_dequeue_def Let_def q'_def)
  have "unat (q_end q') = (unat (q_start q') + unat (q_len q')) mod ?c"
  proof -
    have f: "q_end q' = q_end q" "q_len q' = q_len q - 1" by (simp_all add: q'_def)
    have "((?s + 1) mod ?c + (unat (q_len q) - 1)) mod ?c = (?s + unat (q_len q)) mod ?c"
      unfolding mod_add_left_eq using l by simp
    then show ?thesis using ok unfolding f sm l1 by (simp add: queue_ok_def)
  qed
  then have "queue_ok q'"
    unfolding queue_ok_def using ok l1 sm s s1
    by (auto simp: queue_ok_def q'_def word_le_nat_alt word_less_nat_alt)
  moreover have "queue_items q' = ys"
    by (simp add: queue_items_def sm ys) (simp add: q'_def l1 mod_add_left_eq)
  ultimately show ?thesis using eq by (simp add: q'_def)
qed

text \<open>The code as an instance of \<open>fifo\<close>, while there is room in the ring.\<close>

definition queue_pop :: "s_queue \<Rightarrow> (u8 list \<times> s_queue) option" where
  "queue_pop q = (case queue_dequeue True q of Some (True, Some d, q') \<Rightarrow> Some (d, q') | _ \<Rightarrow> None)"

interpretation ring: fifo queue_ok queue_items "\<lambda>q d. length d = unat (q_item_size q)"
  "\<lambda>q. unat (q_cap q) - unat (q_len q)" "queue_enqueue junk" queue_pop for junk
proof unfold_locales
  fix s :: s_queue and d :: "u8 list" and junk
  assume a: "queue_ok s" "length d = unat (q_item_size s)" "0 < unat (q_cap s) - unat (q_len s)"
  then have room: "q_len s < q_cap s" by (simp add: word_less_nat_alt)
  obtain t where t: "queue_enqueue junk s d = Some t" "queue_ok t" "queue_items t = queue_items s @ [d]"
    "q_item_size t = q_item_size s" "q_cap t = q_cap s" "q_len t = q_len s + 1"
    using queue_enqueue_ok [OF a(1) room a(2)] by blast
  moreover have "unat (q_len s + 1) = unat (q_len s) + 1"
    using room by (intro unat_Suc [of _ "q_cap s"]) (simp add: word_less_nat_alt)
  ultimately show "\<exists>t. queue_enqueue junk s d = Some t \<and> queue_ok t \<and> queue_items t = queue_items s @ [d] \<and>
      unat (q_cap t) - unat (q_len t) = unat (q_cap s) - unat (q_len s) - 1 \<and>
      (\<lambda>d. length d = unat (q_item_size t)) = (\<lambda>d. length d = unat (q_item_size s))"
    by (auto intro!: exI [of _ t])
next
  fix s x ys
  assume "queue_ok s" "queue_items s = x # ys"
  then show "\<exists>t. queue_pop s = Some (x, t) \<and> queue_ok t \<and> queue_items t = ys"
    using queue_dequeue_ok [of s x ys] by (auto simp: queue_pop_def)
next
  fix s
  assume "queue_ok s" "queue_items s = []"
  then have "q_len s = 0" by (simp add: queue_items_def unat_eq_0)
  then show "queue_pop s = None" by (simp add: queue_pop_def queue_dequeue_def)
qed

lemma create_queue_ok:
  assumes "unat n < 2 ^ 56"
  shows "queue_ok (create_queue junk n)" "queue_items (create_queue junk n) = []"
proof -
  have "unat (n * QUEUE_INIT_SIZE) = unat n * 128"
    using assms by (simp add: QUEUE_INIT_SIZE_def unat_word_ariths)
  then show "queue_ok (create_queue junk n)" "queue_items (create_queue junk n) = []"
    using assms by (simp_all add: create_queue_def queue_ok_def queue_items_def QUEUE_INIT_SIZE_def mult.commute)
qed



text \<open>C36. A queue that has to grow is not: with the ring full, the next item overwrites the oldest one,
  which is lost, and the new item comes out first.\<close>

theorem queue_grow_loses_oldest:
  assumes "queue_ok q" "q_len q = q_cap q" "length d = unat (q_item_size q)"
  shows "\<exists>q' q''. queue_enqueue junk q d = Some q' \<and> queue_len q' = queue_len q + 1 \<and>
    queue_dequeue True q' = Some (True, Some d, q'')"
proof -
  let ?n = "unat (q_item_size q)" and ?c = "unat (q_cap q)" and ?e = "unat (q_end q)"
  define g where "g = grow_queue junk q"
  have ok: "?e < ?c" "?c * ?n \<le> length (q_bytes q)" "2 * ?c * ?n < 2 ^ 64" "2 * ?c < 2 ^ 64"
    using assms(1) by (simp_all add: queue_ok_def word_less_nat_alt)
  have es: "q_end q = q_start q"
    using assms(1,2) by (simp add: queue_ok_def word_less_nat_alt word_unat_eq_iff)
  have cap: "push_bit 1 (q_cap q) = 2 * q_cap q" by simp
  have uc: "unat (2 * q_cap q) = 2 * ?c" using ok(4) by (simp add: unat_word_ariths)
  have ub: "unat (2 * q_cap q * q_item_size q) = 2 * ?c * ?n"
    using ok(3) uc by (simp add: unat_word_ariths)
  have ub2: "unat (q_cap q * 2 * q_item_size q) = 2 * ?c * ?n" using ub by (simp add: mult.commute [of "q_cap q" 2])
  have g: "q_cap g = 2 * q_cap q" "q_item_size g = q_item_size q" "q_end g = q_end q" "q_start g = q_end q" "q_len g = q_len q"
    "length (q_bytes g) = 2 * ?c * ?n"
    using es by (simp_all add: g_def grow_queue_def Let_def ub2)
  have e: "?e < 2 * ?c" "2 * ?c * ?n \<le> length (q_bytes g)" using ok(1) g(6) by simp_all
  obtain bs where bs: "wr (q_bytes g) (?e * ?n) d = Some bs" "length bs = length (q_bytes g)"
    "\<And>j. j < 2 * ?c \<Longrightarrow> chunk ?n bs j = (if j = ?e then d else chunk ?n (q_bytes g) j)"
    by (rule wr_chunk [OF e assms(3)]) (rule that)
  have off: "unat (q_end q * q_item_size q) = ?e * ?n"
    by (rule slot_offset [OF _ ok(3)]) (use assms(1) in \<open>simp add: queue_ok_def\<close>)
  have e1: "unat (q_end q + 1) = ?e + 1" using ok(1) by (intro unat_Suc [of _ "q_cap q"]) simp
  have nw: "\<not> 2 * q_cap q \<le> q_end q + 1" using e1 uc ok(1) by (simp add: word_le_nat_alt)
  define q' where "q' = g\<lparr>q_bytes := bs, q_end := q_end q + 1, q_len := q_len q + 1\<rparr>"
  have eq: "queue_enqueue junk q d = Some q'"
    using assms(2,3) bs(1) off nw g by (simp add: queue_enqueue_def Let_def g_def [symmetric] q'_def)
  have "unat (q_len q + 1) \<noteq> 0"
  proof -
    have "unat (q_len q) < unat (2 * q_cap q)" using assms(2) uc ok(1) by simp
    then show ?thesis using unat_Suc [of "q_len q" "2 * q_cap q"] by simp
  qed
  then have ne: "q_len q + 1 \<noteq> 0" by auto
  have "rd bs (?e * ?n) ?n = Some d" using rd_chunk [OF e(1), of ?n bs] bs(2,3) e by simp
  then have "\<exists>q''. queue_dequeue True q' = Some (True, Some d, q'')"
    using ne g off by (simp add: queue_dequeue_def Let_def q'_def)
  then show ?thesis using eq g by (auto simp: queue_len_def q'_def)
qed

theorem queue_grow_loses_oldest_witness:
  "\<exists>q' q''. queue_enqueue (\<lambda>_. 0) \<lparr>q_item_size = 1, q_len = 1, q_cap = 1, q_start = 0, q_end = 0, q_bytes = [5]\<rparr> [6] = Some q' \<and>
     queue_dequeue True q' = Some (True, Some [6], q'')"
  using queue_grow_loses_oldest [of "\<lparr>q_item_size = 1, q_len = 1, q_cap = 1, q_start = 0, q_end = 0, q_bytes = [5]\<rparr>" "[6]" "\<lambda>_. 0"]
  by (auto simp: queue_ok_def)

end
