(* ===== verification/Hashmap.thy ===== *)
theory Hashmap
  imports Buffer "HOL-Library.Monad_Syntax"
begin

text \<open>
  \<^verbatim>\<open>kernel/src/hashmap.c\<close>: the hash function and the table of buckets. The two buffers of a bucket are byte
  lists, with \<open>None\<close> for NULL. A pointer to a value is returned as the value it points to.
\<close>

subsection \<open>Hashing\<close>

definition ROTATE :: nat where "ROTATE = 5"
definition SEED64 :: u64 where "SEED64 = 0x517cc1b727220a95"

definition rotl64 :: "u64 \<Rightarrow> nat \<Rightarrow> u64" where
  "rotl64 n c = (let c = c mod 64 in push_bit c n OR drop_bit ((64 - c) mod 64) n)"

definition hash_word64 :: "u64 \<Rightarrow> u64 \<Rightarrow> u64" where
  "hash_word64 a b = (rotl64 a ROTATE XOR b) * SEED64"

text \<open>A little-endian word of the given bytes.\<close>

primrec le_word :: "u8 list \<Rightarrow> u64" where
  "le_word [] = 0"
| "le_word (b # bs) = ucast b OR push_bit 8 (le_word bs)"

function hash_words :: "u64 \<Rightarrow> u8 list \<Rightarrow> u64 \<times> u8 list" where
  "hash_words h bs =
     (if length bs \<ge> 8 then hash_words (hash_word64 h (le_word (take 8 bs))) (drop 8 bs) else (h, bs))"
  by pat_completeness auto
termination by (relation "measure (\<lambda>(h, bs). length bs)") auto

definition hash_part :: "nat \<Rightarrow> u64 \<times> u8 list \<Rightarrow> u64 \<times> u8 list" where
  "hash_part n = (\<lambda>(h, bs). if length bs \<ge> n then (hash_word64 h (le_word (take n bs)), drop n bs) else (h, bs))"

definition hash_write :: "u64 \<Rightarrow> u8 list \<Rightarrow> u64" where
  "hash_write h bs = fst (hash_part 1 (hash_part 2 (hash_part 4 (hash_words h bs))))"

subsection \<open>Tables\<close>

record s_hashmap_bucket =
  b_keys :: "u8 list option"
  b_values :: "u8 list option"
  b_len :: nat

record s_hashmap =
  h_cap :: u64
  h_key_size :: nat
  h_val_size :: nat
  h_ring :: "s_hashmap_bucket list"

definition INITIAL_HASHMAP_SIZE :: u64 where "INITIAL_HASHMAP_SIZE = 16"
definition HASHMAP_MAX_COLLISION_COUNT :: nat where "HASHMAP_MAX_COLLISION_COUNT = 5"

definition empty_bucket :: s_hashmap_bucket where
  "empty_bucket = \<lparr>b_keys = None, b_values = None, b_len = 0\<rparr>"

definition create_hashmap :: "nat \<Rightarrow> nat \<Rightarrow> s_hashmap" where
  "create_hashmap key_size val_size =
     \<lparr>h_cap = INITIAL_HASHMAP_SIZE, h_key_size = key_size, h_val_size = val_size,
      h_ring = replicate (unat INITIAL_HASHMAP_SIZE) empty_bucket\<rparr>"

text \<open>The bucket of a key, and appending a pair to a bucket.\<close>

definition hm_index :: "s_hashmap \<Rightarrow> u8 list \<Rightarrow> nat" where
  "hm_index m key = unat (hash_write 0 key AND (h_cap m - 1))"

definition bucket_add :: "(nat \<Rightarrow> u8) \<Rightarrow> nat \<Rightarrow> nat \<Rightarrow> u8 list \<Rightarrow> u8 list \<Rightarrow> s_hashmap_bucket \<Rightarrow> s_hashmap_bucket option" where
  "bucket_add junk key_size val_size key value b =
     (let b = (if b_len b = 0
               then b\<lparr>b_keys := Some (new_buffer junk (key_size * HASHMAP_MAX_COLLISION_COUNT)),
                      b_values := Some (new_buffer junk (val_size * HASHMAP_MAX_COLLISION_COUNT))\<rparr>
               else b)
      in do {
        ks \<leftarrow> b_keys b;
        ks \<leftarrow> wr ks (b_len b * key_size) key;
        vs \<leftarrow> b_values b;
        vs \<leftarrow> wr vs (b_len b * val_size) value;
        Some (b\<lparr>b_keys := Some ks, b_values := Some vs, b_len := b_len b + 1\<rparr>) })"

definition set_bucket :: "nat \<Rightarrow> s_hashmap_bucket \<Rightarrow> s_hashmap \<Rightarrow> s_hashmap" where
  "set_bucket i b m = m\<lparr>h_ring := (h_ring m)[i := b]\<rparr>"

text \<open>The inner loop of \<^verbatim>\<open>hashmap_grow\<close>: entry \<open>j\<close> of a bucket moves to the new table. The value is read at
  \<open>j * key_size\<close>, as in the code.\<close>

definition move_entry :: "(nat \<Rightarrow> u8) \<Rightarrow> s_hashmap_bucket \<Rightarrow> nat \<Rightarrow> s_hashmap \<Rightarrow> s_hashmap option" where
  "move_entry junk b j new = do {
     ks \<leftarrow> b_keys b;
     key \<leftarrow> rd ks (j * h_key_size new) (h_key_size new);
     let i = hm_index new key;
     vs \<leftarrow> b_values b;
     val \<leftarrow> rd vs (j * h_key_size new) (h_val_size new);
     if i < length (h_ring new) then do {
       b' \<leftarrow> bucket_add junk (h_key_size new) (h_val_size new) key val (h_ring new ! i);
       Some (set_bucket i b' new) }
     else None }"

primrec move_entries :: "(nat \<Rightarrow> u8) \<Rightarrow> s_hashmap_bucket \<Rightarrow> nat list \<Rightarrow> s_hashmap \<Rightarrow> s_hashmap option" where
  "move_entries junk b [] new = Some new"
| "move_entries junk b (j # js) new = do { new \<leftarrow> move_entry junk b j new; move_entries junk b js new }"

primrec move_buckets :: "(nat \<Rightarrow> u8) \<Rightarrow> s_hashmap_bucket list \<Rightarrow> s_hashmap \<Rightarrow> s_hashmap option" where
  "move_buckets junk [] new = Some new"
| "move_buckets junk (b # bs) new = do { new \<leftarrow> move_entries junk b [0..<b_len b] new; move_buckets junk bs new }"

definition hashmap_grow :: "(nat \<Rightarrow> u8) \<Rightarrow> s_hashmap \<Rightarrow> s_hashmap option" where
  "hashmap_grow junk m =
     move_buckets junk (h_ring m)
       (m\<lparr>h_cap := push_bit 1 (h_cap m), h_ring := replicate (unat (push_bit 1 (h_cap m))) empty_bucket\<rparr>)"

partial_function (option) hashmap_insert :: "(nat \<Rightarrow> u8) \<Rightarrow> s_hashmap \<Rightarrow> u8 list \<Rightarrow> u8 list \<Rightarrow> s_hashmap option" where
  "hashmap_insert junk m key value =
     (let i = hm_index m key
      in if i < length (h_ring m) then
           if b_len (h_ring m ! i) < HASHMAP_MAX_COLLISION_COUNT then do {
             b \<leftarrow> bucket_add junk (h_key_size m) (h_val_size m) key value (h_ring m ! i);
             Some (set_bucket i b m) }
           else do { m \<leftarrow> hashmap_grow junk m; hashmap_insert junk m key value }
         else None)"

definition hashmap_empty :: "s_hashmap \<Rightarrow> bool" where
  "hashmap_empty m \<longleftrightarrow> (\<forall>i<unat (h_cap m). b_len (h_ring m ! i) = 0)"

text \<open>The search for a key among the entries \<open>i, i + 1, \<dots>\<close> of a bucket.\<close>

primrec find_key :: "nat \<Rightarrow> s_hashmap_bucket \<Rightarrow> u8 list \<Rightarrow> nat list \<Rightarrow> nat option option" where
  "find_key key_size b key [] = Some None"
| "find_key key_size b key (i # is) = do {
     ks \<leftarrow> b_keys b;
     k \<leftarrow> rd ks (i * key_size) key_size;
     if k = key then Some (Some i) else find_key key_size b key is }"

definition hashmap_get :: "s_hashmap \<Rightarrow> u8 list \<Rightarrow> u8 list option option" where
  "hashmap_get m key =
     (let i = hm_index m key
      in if i < length (h_ring m) then do {
           let b = h_ring m ! i;
           r \<leftarrow> find_key (h_key_size m) b key [0..<b_len b];
           case r of None \<Rightarrow> Some None
           | Some j \<Rightarrow> do { vs \<leftarrow> b_values b; v \<leftarrow> rd vs (j * h_val_size m) (h_val_size m); Some (Some v) } }
         else None)"

text \<open>The loop of \<^verbatim>\<open>hashmap_remove\<close> that moves the later entries down.\<close>

primrec shift_entries :: "nat \<Rightarrow> nat \<Rightarrow> nat list \<Rightarrow> s_hashmap_bucket \<Rightarrow> s_hashmap_bucket option" where
  "shift_entries key_size val_size [] b = Some b"
| "shift_entries key_size val_size (j # js) b = do {
     ks \<leftarrow> b_keys b;
     k \<leftarrow> rd ks ((j + 1) * key_size) key_size;
     ks \<leftarrow> wr ks (j * key_size) k;
     vs \<leftarrow> b_values b;
     v \<leftarrow> rd vs ((j + 1) * val_size) val_size;
     vs \<leftarrow> wr vs (j * val_size) v;
     shift_entries key_size val_size js (b\<lparr>b_keys := Some ks, b_values := Some vs\<rparr>) }"

definition hashmap_remove :: "s_hashmap \<Rightarrow> u8 list \<Rightarrow> s_hashmap option" where
  "hashmap_remove m key =
     (let i = hm_index m key
      in if i < length (h_ring m) then do {
           let b = h_ring m ! i;
           r \<leftarrow> find_key (h_key_size m) b key [0..<b_len b];
           b \<leftarrow> (case r of None \<Rightarrow> Some b
                 | Some j \<Rightarrow> do {
                     b \<leftarrow> shift_entries (h_key_size m) (h_val_size m) [j..<b_len b] b;
                     Some (b\<lparr>b_len := b_len b - 1\<rparr>) });
           Some (set_bucket i (if b_len b = 0 then b\<lparr>b_keys := None, b_values := None\<rparr> else b) m) }
         else None)"

text \<open>\<^verbatim>\<open>hashmap_find\<close>: the callback \<open>fn\<close> sees key and value; \<open>ip\<close> and \<open>jp\<close> are the in-out parameters, \<open>None\<close> for NULL.\<close>

primrec find_entry_in :: "s_hashmap \<Rightarrow> (u8 list \<Rightarrow> u8 list \<Rightarrow> bool) \<Rightarrow> s_hashmap_bucket \<Rightarrow> nat list \<Rightarrow> (nat \<times> u8 list) option option" where
  "find_entry_in m fn b [] = Some None"
| "find_entry_in m fn b (j # js) = do {
     ks \<leftarrow> b_keys b;
     k \<leftarrow> rd ks (j * h_key_size m) (h_key_size m);
     vs \<leftarrow> b_values b;
     v \<leftarrow> rd vs (j * h_val_size m) (h_val_size m);
     if fn k v then Some (Some (j, v)) else find_entry_in m fn b js }"

primrec find_in_ring ::
  "s_hashmap \<Rightarrow> (u8 list \<Rightarrow> u8 list \<Rightarrow> bool) \<Rightarrow> nat option \<Rightarrow> nat list \<Rightarrow> (nat \<times> nat \<times> u8 list) option option" where
  "find_in_ring m fn jp [] = Some None"
| "find_in_ring m fn jp (i # is) = do {
     let b = h_ring m ! i;
     r \<leftarrow> find_entry_in m fn b [(case jp of Some j \<Rightarrow> j | None \<Rightarrow> 0)..<b_len b];
     case r of Some (j, v) \<Rightarrow> Some (Some (i, j, v)) | None \<Rightarrow> find_in_ring m fn jp is }"

definition hashmap_find ::
  "s_hashmap \<Rightarrow> (u8 list \<Rightarrow> u8 list \<Rightarrow> bool) \<Rightarrow> nat option \<Rightarrow> nat option \<Rightarrow> (u8 list option \<times> nat option \<times> nat option) option" where
  "hashmap_find m fn ip jp = do {
     r \<leftarrow> find_in_ring m fn jp [(case ip of Some i \<Rightarrow> i | None \<Rightarrow> 0)..<unat (h_cap m)];
     case r of None \<Rightarrow> Some (None, ip, jp)
     | Some (i, j, v) \<Rightarrow> if ip = None \<or> jp = None then None else Some (Some v, Some i, Some j) }"

end
