(* ===== verification/Hashmap_Spec.thy ===== *)
theory Hashmap_Spec
  imports Hashmap
begin

text \<open>
  The hash map as a map: every bucket holds at most five pairs, each with a key that hashes to the bucket.
  Lookup, insertion, removal and growth in terms of the pairs.
\<close>

subsection \<open>Buckets\<close>

definition bucket_ok :: "nat \<Rightarrow> nat \<Rightarrow> s_hashmap_bucket \<Rightarrow> bool" where
  "bucket_ok ks vs b \<longleftrightarrow> b_len b \<le> 5 \<and>
     (0 < b_len b \<longrightarrow> (\<exists>kb vb. b_keys b = Some kb \<and> length kb = 5 * ks \<and> b_values b = Some vb \<and> length vb = 5 * vs))"

definition pairs :: "nat \<Rightarrow> nat \<Rightarrow> s_hashmap_bucket \<Rightarrow> (u8 list \<times> u8 list) list" where
  "pairs ks vs b = map (\<lambda>i. (chunk ks (the (b_keys b)) i, chunk vs (the (b_values b)) i)) [0..<b_len b]"

lemma pairs_length [simp]: "length (pairs ks vs b) = b_len b"
  by (simp add: pairs_def)

lemma pairs_nth: "i < b_len b \<Longrightarrow> pairs ks vs b ! i = (chunk ks (the (b_keys b)) i, chunk vs (the (b_values b)) i)"
  by (simp add: pairs_def)

lemma empty_bucket_ok [simp]: "bucket_ok ks vs empty_bucket" "pairs ks vs empty_bucket = []"
  by (simp_all add: bucket_ok_def empty_bucket_def pairs_def)

lemma bucket_okE:
  assumes "bucket_ok ks vs b" "0 < b_len b"
  obtains kb vb where "b_keys b = Some kb" "length kb = 5 * ks" "b_values b = Some vb" "length vb = 5 * vs" "b_len b \<le> 5"
  using assms by (auto simp: bucket_ok_def)

lemma pairs_sizes: "bucket_ok ks vs b \<Longrightarrow> (k, v) \<in> set (pairs ks vs b) \<Longrightarrow> length k = ks \<and> length v = vs"
proof -
  assume b: "bucket_ok ks vs b" "(k, v) \<in> set (pairs ks vs b)"
  then obtain i where i: "i < b_len b" "k = chunk ks (the (b_keys b)) i" "v = chunk vs (the (b_values b)) i"
    by (auto simp: pairs_def)
  then have "0 < b_len b" by simp
  then obtain kb vb where kb: "b_keys b = Some kb" "length kb = 5 * ks" "b_values b = Some vb" "length vb = 5 * vs" "b_len b \<le> 5"
    using bucket_okE [OF b(1)] by metis
  then show ?thesis using i chunk_length [of i 5 ks kb] chunk_length [of i 5 vs vb] by simp
qed

lemma bucket_add_ok:
  assumes b: "bucket_ok ks vs b" "b_len b < 5" and d: "length key = ks" "length val = vs"
  obtains b' where "bucket_add junk ks vs key val b = Some b'" "bucket_ok ks vs b'" "pairs ks vs b' = pairs ks vs b @ [(key, val)]"
proof -
  let ?n = "b_len b"
  define c where "c = (if ?n = 0
    then b\<lparr>b_keys := Some (new_buffer junk (ks * 5)), b_values := Some (new_buffer junk (vs * 5))\<rparr> else b)"
  obtain kb vb where c: "b_keys c = Some kb" "length kb = 5 * ks" "b_values c = Some vb" "length vb = 5 * vs" "b_len c = ?n"
    and same: "0 < ?n \<Longrightarrow> b_keys b = Some kb \<and> b_values b = Some vb"
  proof (cases "?n = 0")
    case True
    then show thesis using that by (simp add: c_def mult.commute)
  next
    case False
    then obtain kb vb where "b_keys b = Some kb" "length kb = 5 * ks" "b_values b = Some vb" "length vb = 5 * vs"
      using b(1) by (auto simp: bucket_ok_def)
    then show thesis using that False by (simp add: c_def)
  qed
  have l: "5 * ks \<le> length kb" "5 * vs \<le> length vb" using c by simp_all
  obtain kb' where kb': "wr kb (?n * ks) key = Some kb'" "length kb' = length kb"
    "\<And>j. j < 5 \<Longrightarrow> chunk ks kb' j = (if j = ?n then key else chunk ks kb j)"
    by (rule wr_chunk [OF b(2) l(1) d(1)]) (rule that)
  obtain vb' where vb': "wr vb (?n * vs) val = Some vb'" "length vb' = length vb"
    "\<And>j. j < 5 \<Longrightarrow> chunk vs vb' j = (if j = ?n then val else chunk vs vb j)"
    by (rule wr_chunk [OF b(2) l(2) d(2)]) (rule that)
  define b' where "b' = c\<lparr>b_keys := Some kb', b_values := Some vb', b_len := ?n + 1\<rparr>"
  have "bucket_add junk ks vs key val b = Some b'"
    using c kb'(1) vb'(1) unfolding bucket_add_def HASHMAP_MAX_COLLISION_COUNT_def c_def [symmetric] by (simp add: b'_def)
  moreover have "bucket_ok ks vs b'" using b(2) kb'(2) vb'(2) c by (simp add: bucket_ok_def b'_def)
  moreover have "pairs ks vs b' = pairs ks vs b @ [(key, val)]"
    using kb'(3) vb'(3) b(2) same by (auto simp: pairs_def b'_def)
  ultimately show thesis using that by blast
qed

lemma find_key_pairs:
  assumes "bucket_ok ks vs b" "\<forall>i\<in>set is. i < b_len b"
  shows "find_key ks b key is = Some (find (\<lambda>i. fst (pairs ks vs b ! i) = key) is)"
  using assms(2)
proof (induction "is")
  case (Cons i "is")
  then have i: "i < b_len b" by simp
  then have "0 < b_len b" by simp
  then obtain kb vb where kb: "b_keys b = Some kb" "length kb = 5 * ks" "b_len b \<le> 5" using bucket_okE [OF assms(1)] by metis
  then have "rd kb (i * ks) ks = Some (chunk ks kb i)" using i by (intro rd_chunk [of i 5]) simp_all
  then show ?case using Cons kb(1) pairs_nth [OF i, of ks vs] by simp
qed simp

lemma map_of_find: "map_of xs k = map_option (\<lambda>i. snd (xs ! i)) (find (\<lambda>i. fst (xs ! i) = k) [0..<length xs])"
proof (induction xs)
  case (Cons x xs)
  have "[0..<length (x # xs)] = 0 # map Suc [0..<length xs]" by (simp add: upt_conv_Cons map_Suc_upt del: upt_Suc)
  moreover have "find P (map Suc is) = map_option Suc (find (\<lambda>i. P (Suc i)) is)" for P "is"
    by (induction "is") auto
  ultimately show ?case using Cons by (cases x) (auto simp: option.map_comp comp_def)
qed simp

subsection \<open>Tables\<close>

definition hm_pairs :: "s_hashmap \<Rightarrow> nat \<Rightarrow> (u8 list \<times> u8 list) list" where
  "hm_pairs m i = pairs (h_key_size m) (h_val_size m) (h_ring m ! i)"

definition hm_ok :: "s_hashmap \<Rightarrow> bool" where
  "hm_ok m \<longleftrightarrow> (\<exists>n<63. h_cap m = 2 ^ n) \<and> length (h_ring m) = unat (h_cap m) \<and>
     (\<forall>i<length (h_ring m). bucket_ok (h_key_size m) (h_val_size m) (h_ring m ! i)) \<and>
     (\<forall>i<length (h_ring m). \<forall>p\<in>set (hm_pairs m i). hm_index m (fst p) = i)"

lemma unat_cap: "n < 64 \<Longrightarrow> unat (2 ^ n :: u64) = 2 ^ n"
proof -
  assume "n < 64"
  then have "(2 :: nat) ^ n < 2 ^ 64" by (rule power_strict_increasing) simp
  then show ?thesis using unat_of_nat64 [of "2 ^ n"] by simp
qed

lemma hm_index_eq:
  assumes "h_cap m = 2 ^ n" "n < 64"
  shows "hm_index m key = unat (hash_write 0 key) mod 2 ^ n"
proof -
  have "h_cap m - 1 = mask n" using assms(1) by (simp add: mask_eq_exp_minus_1)
  then have "hm_index m key = unat (take_bit n (hash_write 0 key))" by (simp add: hm_index_def take_bit_eq_mask)
  then show ?thesis using unat_cap [OF assms(2)] by (simp add: take_bit_eq_mod unat_mod)
qed

lemma hm_okE:
  assumes "hm_ok m"
  obtains n where "n < 63" "h_cap m = 2 ^ n" "length (h_ring m) = 2 ^ n" "\<And>key. hm_index m key = unat (hash_write 0 key) mod 2 ^ n"
    "\<And>i. i < 2 ^ n \<Longrightarrow> bucket_ok (h_key_size m) (h_val_size m) (h_ring m ! i)"
    "\<And>i p. i < 2 ^ n \<Longrightarrow> p \<in> set (hm_pairs m i) \<Longrightarrow> hm_index m (fst p) = i"
proof -
  obtain n where n: "n < 63" "h_cap m = 2 ^ n" using assms by (auto simp: hm_ok_def)
  then have l: "length (h_ring m) = 2 ^ n" using assms unat_cap [of n] by (simp add: hm_ok_def)
  show thesis
  proof (rule that [OF n l])
    show "hm_index m key = unat (hash_write 0 key) mod 2 ^ n" for key using hm_index_eq [OF n(2)] n(1) by simp
    show "bucket_ok (h_key_size m) (h_val_size m) (h_ring m ! i)" if "i < 2 ^ n" for i using assms l that by (simp add: hm_ok_def)
    show "hm_index m (fst p) = i" if "i < 2 ^ n" "p \<in> set (hm_pairs m i)" for i p using assms l that by (simp add: hm_ok_def)
  qed
qed

lemma hm_index_less: "hm_ok m \<Longrightarrow> hm_index m key < length (h_ring m)"
  by (erule hm_okE) simp

lemma get_pairs:
  assumes "hm_ok m"
  shows "hashmap_get m key = Some (map_of (hm_pairs m (hm_index m key)) key)"
proof -
  let ?i = "hm_index m key"
  let ?b = "h_ring m ! ?i"
  have i: "?i < length (h_ring m)" by (rule hm_index_less [OF assms])
  then have b: "bucket_ok (h_key_size m) (h_val_size m) ?b" using assms by (simp add: hm_ok_def)
  have f: "find_key (h_key_size m) ?b key [0..<b_len ?b] = Some (find (\<lambda>i. fst (hm_pairs m ?i ! i) = key) [0..<b_len ?b])"
    using find_key_pairs [OF b, of "[0..<b_len ?b]" key] by (simp add: hm_pairs_def)
  show ?thesis
  proof (cases "find (\<lambda>i. fst (hm_pairs m ?i ! i) = key) [0..<b_len ?b]")
    case None
    then show ?thesis using i f map_of_find [of "hm_pairs m ?i" key] by (simp add: hashmap_get_def Let_def hm_pairs_def)
  next
    case (Some j)
    then have j: "j < b_len ?b" by (auto simp: find_Some_iff)
    then have "0 < b_len ?b" by simp
    then obtain kb vb where vb: "b_values ?b = Some vb" "length vb = 5 * h_val_size m" "b_len ?b \<le> 5"
      using bucket_okE [OF b] by metis
    then have "rd vb (j * h_val_size m) (h_val_size m) = Some (chunk (h_val_size m) vb j)"
      using j by (intro rd_chunk [of j 5]) simp_all
    then show ?thesis
      using i f Some vb(1) j map_of_find [of "hm_pairs m ?i" key]
      by (simp add: hashmap_get_def Let_def hm_pairs_def pairs_nth)
  qed
qed

lemma set_bucket_ok:
  assumes ok: "hm_ok m" and i: "i < length (h_ring m)" and b: "bucket_ok (h_key_size m) (h_val_size m) b"
    and k: "\<forall>p\<in>set (pairs (h_key_size m) (h_val_size m) b). hm_index m (fst p) = i"
  shows "hm_ok (set_bucket i b m)" "hm_index (set_bucket i b m) = hm_index m"
    "hm_pairs (set_bucket i b m) j = (if j = i then pairs (h_key_size m) (h_val_size m) b else hm_pairs m j)"
    "h_key_size (set_bucket i b m) = h_key_size m" "h_val_size (set_bucket i b m) = h_val_size m"
    "h_cap (set_bucket i b m) = h_cap m"
proof -
  show x: "hm_index (set_bucket i b m) = hm_index m" by (simp add: fun_eq_iff hm_index_def set_bucket_def)
  show p: "hm_pairs (set_bucket i b m) j = (if j = i then pairs (h_key_size m) (h_val_size m) b else hm_pairs m j)" for j
    using i by (simp add: hm_pairs_def set_bucket_def)
  show "h_key_size (set_bucket i b m) = h_key_size m" "h_val_size (set_bucket i b m) = h_val_size m"
    "h_cap (set_bucket i b m) = h_cap m" by (simp_all add: set_bucket_def)
  show "hm_ok (set_bucket i b m)"
    unfolding hm_ok_def x p
  proof (intro conjI allI impI)
    show "bucket_ok (h_key_size (set_bucket i b m)) (h_val_size (set_bucket i b m)) (h_ring (set_bucket i b m) ! j)"
      if "j < length (h_ring (set_bucket i b m))" for j
      using that ok b i by (cases "j = i") (auto simp: hm_ok_def set_bucket_def)
    show "\<forall>p\<in>set (if j = i then pairs (h_key_size m) (h_val_size m) b else hm_pairs m j). hm_index m (fst p) = j"
      if "j < length (h_ring (set_bucket i b m))" for j
      using that ok k by (auto simp: hm_ok_def set_bucket_def)
  qed (use ok in \<open>simp_all add: hm_ok_def set_bucket_def\<close>)
qed


lemma create_hashmap_ok: "hm_ok (create_hashmap ks vs)" "hashmap_get (create_hashmap ks vs) k = Some None"
proof -
  have p: "hm_pairs (create_hashmap ks vs) i = []" if "i < 16" for i
    using that by (simp add: hm_pairs_def create_hashmap_def INITIAL_HASHMAP_SIZE_def)
  have c: "h_cap (create_hashmap ks vs) = 2 ^ 4" by (simp add: create_hashmap_def INITIAL_HASHMAP_SIZE_def)
  show ok: "hm_ok (create_hashmap ks vs)"
    unfolding hm_ok_def using p c by (auto simp: create_hashmap_def INITIAL_HASHMAP_SIZE_def intro: exI [of _ 4])
  have "hm_index (create_hashmap ks vs) k < 16" using hm_index_less [OF ok, of k] by (simp add: create_hashmap_def INITIAL_HASHMAP_SIZE_def)
  then show "hashmap_get (create_hashmap ks vs) k = Some None" using get_pairs [OF ok] p by simp
qed


subsection \<open>Growth\<close>

text \<open>All pairs of the table, and the table that holds a list of pairs.\<close>

definition all_pairs :: "s_hashmap \<Rightarrow> (u8 list \<times> u8 list) list" where
  "all_pairs m = concat (map (pairs (h_key_size m) (h_val_size m)) (h_ring m))"

definition holds :: "s_hashmap \<Rightarrow> (u8 list \<times> u8 list) list \<Rightarrow> bool" where
  "holds m ps \<longleftrightarrow> hm_ok m \<and> (\<forall>i<length (h_ring m). hm_pairs m i = filter (\<lambda>p. hm_index m (fst p) = i) ps)"

lemma concat_single: "i < length xss \<Longrightarrow> (\<And>j. j < length xss \<Longrightarrow> j \<noteq> i \<Longrightarrow> xss ! j = []) \<Longrightarrow> concat xss = xss ! i"
proof -
  assume i: "i < length xss" and o: "\<And>j. j < length xss \<Longrightarrow> j \<noteq> i \<Longrightarrow> xss ! j = []"
  have "concat (take i xss) = []" "concat (drop (Suc i) xss) = []"
    using o i by (fastforce simp: in_set_conv_nth)+
  moreover have "xss = take i xss @ xss ! i # drop (Suc i) xss" using i by (rule id_take_nth_drop)
  ultimately show ?thesis by (metis append.right_neutral append_Nil concat.simps(2) concat_append)
qed

lemma holds_all: "hm_ok m \<Longrightarrow> holds m (all_pairs m)"
proof -
  assume ok: "hm_ok m"
  have "filter (\<lambda>p. hm_index m (fst p) = i) (all_pairs m) = hm_pairs m i" if i: "i < length (h_ring m)" for i
  proof -
    let ?F = "map (\<lambda>b. filter (\<lambda>p. hm_index m (fst p) = i) (pairs (h_key_size m) (h_val_size m) b)) (h_ring m)"
    have idx: "hm_index m (fst p) = j" if "j < length (h_ring m)" "p \<in> set (hm_pairs m j)" for j p
      using ok that by (simp add: hm_ok_def)
    have "filter (\<lambda>p. hm_index m (fst p) = i) (all_pairs m) = concat ?F"
      by (simp add: all_pairs_def filter_concat comp_def)
    also have "\<dots> = ?F ! i"
      by (rule concat_single) (use i idx in \<open>auto simp: hm_pairs_def filter_empty_conv\<close>)
    also have "\<dots> = hm_pairs m i"
      using i idx [OF i] by (simp add: hm_pairs_def filter_id_conv)
    finally show ?thesis .
  qed
  then show ?thesis using ok by (simp add: holds_def)
qed

lemma length_filter_imp: "(\<And>x. P x \<Longrightarrow> Q x) \<Longrightarrow> length (filter P xs) \<le> length (filter Q xs)"
  by (induction xs) auto

lemma map_of_filter: "P k \<Longrightarrow> map_of (filter (\<lambda>p. P (fst p)) ps) k = map_of ps k"
  by (induction ps) auto

lemma holds_get: "holds m ps \<Longrightarrow> hashmap_get m key = Some (map_of ps key)"
proof -
  assume h: "holds m ps"
  then have ok: "hm_ok m" by (simp add: holds_def)
  have "hm_pairs m (hm_index m key) = filter (\<lambda>p. hm_index m (fst p) = hm_index m key) ps"
    using h hm_index_less [OF ok] by (simp add: holds_def)
  then show ?thesis using get_pairs [OF ok, of key] map_of_filter [of "\<lambda>k. hm_index m k = hm_index m key" key ps] by simp
qed

text \<open>One entry moves. Keys and values have the same size, so that the code reads the right value.\<close>

lemma move_entry_ok:
  assumes h: "holds new ps" and sz: "h_key_size new = ks" "h_val_size new = ks"
    and b: "bucket_ok ks ks b" "j < b_len b" and p: "p = pairs ks ks b ! j"
    and room: "length (filter (\<lambda>q. hm_index new (fst q) = hm_index new (fst p)) ps) < 5"
  obtains new' where "move_entry junk b j new = Some new'" "holds new' (ps @ [p])" "h_key_size new' = ks" "h_val_size new' = ks"
    "hm_index new' = hm_index new" "h_cap new' = h_cap new"
proof -
  have ok: "hm_ok new" using h by (simp add: holds_def)
  have "0 < b_len b" using b(2) by simp
  then obtain kb vb where kb: "b_keys b = Some kb" "length kb = 5 * ks" "b_values b = Some vb" "length vb = 5 * ks" "b_len b \<le> 5"
    using bucket_okE [OF b(1)] by metis
  have p': "p = (chunk ks kb j, chunk ks vb j)" using p pairs_nth [OF b(2)] kb by simp
  have j5: "j < 5" using b(2) kb(5) by simp
  have rdk: "rd kb (j * ks) ks = Some (fst p)" "rd vb (j * ks) ks = Some (snd p)"
    using rd_chunk [OF j5, of ks kb] rd_chunk [OF j5, of ks vb] kb p' by simp_all
  have len: "length (fst p) = h_key_size new" "length (snd p) = h_val_size new"
    using p' chunk_length [OF j5, of ks kb] chunk_length [OF j5, of ks vb] kb sz by simp_all
  let ?i = "hm_index new (fst p)"
  have i: "?i < length (h_ring new)" by (rule hm_index_less [OF ok])
  have bo: "bucket_ok (h_key_size new) (h_val_size new) (h_ring new ! ?i)" using ok i by (simp add: hm_ok_def)
  have hp: "hm_pairs new ?i = filter (\<lambda>q. hm_index new (fst q) = ?i) ps" using h i by (simp add: holds_def)
  have "length (hm_pairs new ?i) = b_len (h_ring new ! ?i)" by (simp add: hm_pairs_def)
  then have len5: "b_len (h_ring new ! ?i) < 5" using hp room by simp
  obtain b' where b': "bucket_add junk (h_key_size new) (h_val_size new) (fst p) (snd p) (h_ring new ! ?i) = Some b'"
    "bucket_ok (h_key_size new) (h_val_size new) b'"
    "pairs (h_key_size new) (h_val_size new) b' = pairs (h_key_size new) (h_val_size new) (h_ring new ! ?i) @ [(fst p, snd p)]"
    by (rule bucket_add_ok [OF bo len5 len]) (rule that)
  have k: "\<forall>q\<in>set (pairs (h_key_size new) (h_val_size new) b'). hm_index new (fst q) = ?i"
    using ok i unfolding b'(3) by (auto simp: hm_ok_def hm_pairs_def)
  note sb = set_bucket_ok [OF ok i b'(2) k]
  have "move_entry junk b j new = Some (set_bucket ?i b' new)"
    using kb(1,3) rdk sz i b'(1) by (simp add: move_entry_def Let_def)
  moreover have "holds (set_bucket ?i b' new) (ps @ [p])"
    unfolding holds_def sb(2)
  proof (intro conjI allI impI)
    fix q assume "q < length (h_ring (set_bucket ?i b' new))"
    then have "hm_pairs new q = filter (\<lambda>p. hm_index new (fst p) = q) ps" using h by (simp add: holds_def set_bucket_def)
    then show "hm_pairs (set_bucket ?i b' new) q = filter (\<lambda>p. hm_index new (fst p) = q) (ps @ [p])"
      unfolding sb(3) b'(3) by (auto simp: hm_pairs_def)
  qed (rule sb(1))
  ultimately show thesis using that sb(2,4,5,6) sz by simp
qed

lemma move_entries_ok:
  assumes "holds new ps" "h_key_size new = ks" "h_val_size new = ks" "bucket_ok ks ks b" "\<forall>j\<in>set js. j < b_len b"
    and "\<And>i. length (filter (\<lambda>q. hm_index new (fst q) = i) (ps @ map ((!) (pairs ks ks b)) js @ rest)) \<le> 5"
  shows "\<exists>new'. move_entries junk b js new = Some new' \<and> holds new' (ps @ map ((!) (pairs ks ks b)) js) \<and>
    h_key_size new' = ks \<and> h_val_size new' = ks \<and> hm_index new' = hm_index new \<and> h_cap new' = h_cap new"
  using assms
proof (induction js arbitrary: new ps)
  case (Cons j js)
  let ?p = "pairs ks ks b ! j"
  have "length (filter (\<lambda>q. hm_index new (fst q) = hm_index new (fst ?p)) ps) < 5"
    using Cons.prems(6) [of "hm_index new (fst ?p)"] by simp
  then obtain u where u: "move_entry junk b j new = Some u" "holds u (ps @ [?p])" "h_key_size u = ks" "h_val_size u = ks"
    "hm_index u = hm_index new" "h_cap u = h_cap new"
    using move_entry_ok [OF Cons.prems(1-4) _ refl, of j junk] Cons.prems(5) by auto
  have "\<exists>new'. move_entries junk b js u = Some new' \<and> holds new' ((ps @ [?p]) @ map ((!) (pairs ks ks b)) js) \<and>
    h_key_size new' = ks \<and> h_val_size new' = ks \<and> hm_index new' = hm_index u \<and> h_cap new' = h_cap u"
    by (rule Cons.IH [OF u(2,3,4) Cons.prems(4)]) (use Cons.prems(5,6) u(5) in simp_all)
  then show ?case using u by auto
qed simp

lemma move_buckets_ok:
  assumes "holds new ps" "h_key_size new = ks" "h_val_size new = ks" "\<forall>b\<in>set bs. bucket_ok ks ks b"
    and "\<And>i. length (filter (\<lambda>q. hm_index new (fst q) = i) (ps @ concat (map (pairs ks ks) bs))) \<le> 5"
  shows "\<exists>new'. move_buckets junk bs new = Some new' \<and> holds new' (ps @ concat (map (pairs ks ks) bs)) \<and> h_cap new' = h_cap new"
  using assms
proof (induction bs arbitrary: new ps)
  case (Cons b bs)
  have m: "map ((!) (pairs ks ks b)) [0..<b_len b] = pairs ks ks b" using map_nth [of "pairs ks ks b"] by simp
  have "\<exists>u. move_entries junk b [0..<b_len b] new = Some u \<and> holds u (ps @ map ((!) (pairs ks ks b)) [0..<b_len b]) \<and>
    h_key_size u = ks \<and> h_val_size u = ks \<and> hm_index u = hm_index new \<and> h_cap u = h_cap new"
    by (rule move_entries_ok [OF Cons.prems(1-3), of b _ "concat (map (pairs ks ks) bs)"])
      (use Cons.prems(4,5) m in simp_all)
  then obtain u where u: "move_entries junk b [0..<b_len b] new = Some u" "holds u (ps @ pairs ks ks b)"
    "h_key_size u = ks" "h_val_size u = ks" "hm_index u = hm_index new" "h_cap u = h_cap new" unfolding m by blast
  have "\<exists>new'. move_buckets junk bs u = Some new' \<and> holds new' ((ps @ pairs ks ks b) @ concat (map (pairs ks ks) bs)) \<and> h_cap new' = h_cap u"
    by (rule Cons.IH [OF u(2,3,4)]) (use Cons.prems(4,5) u(5) in simp_all)
  then show ?case using u by auto
qed simp

text \<open>C29. When keys and values have the same size, doubling the table loses and changes nothing: every
  lookup gives the same answer before and after, and the invariant is kept.\<close>

theorem hashmap_grow_get:
  assumes ok: "hm_ok m" and sz: "h_val_size m = h_key_size m" and cap: "h_cap m < 2 ^ 62"
  shows "\<exists>m'. hashmap_grow junk m = Some m' \<and> hm_ok m' \<and> h_cap m' = 2 * h_cap m \<and> (\<forall>k. hashmap_get m' k = hashmap_get m k)"
proof -
  obtain n where n: "n < 63" "h_cap m = 2 ^ n" "length (h_ring m) = 2 ^ n" "\<And>key. hm_index m key = unat (hash_write 0 key) mod 2 ^ n"
    "\<And>i. i < 2 ^ n \<Longrightarrow> bucket_ok (h_key_size m) (h_val_size m) (h_ring m ! i)"
    "\<And>i p. i < 2 ^ n \<Longrightarrow> p \<in> set (hm_pairs m i) \<Longrightarrow> hm_index m (fst p) = i"
    by (rule hm_okE [OF ok]) (rule that)
  have n62: "n < 62"
  proof (rule ccontr)
    assume "\<not> n < 62"
    then have "n = 62" using n(1) by simp
    then show False using cap n(2) by simp
  qed
  define new where "new = m\<lparr>h_cap := 2 ^ Suc n, h_ring := replicate (2 ^ Suc n) empty_bucket\<rparr>"
  have g: "hashmap_grow junk m = move_buckets junk (h_ring m) new"
    using n(2) unat_cap [of "Suc n"] n62 by (simp add: hashmap_grow_def new_def mult.commute)
  have idx: "hm_index new key = unat (hash_write 0 key) mod 2 ^ Suc n" for key
    by (rule hm_index_eq) (use n62 in \<open>simp_all add: new_def\<close>)
  have hp: "hm_pairs new i = []" if "i < 2 ^ Suc n" for i
    using that by (simp add: hm_pairs_def new_def del: power_Suc replicate_Suc)
  have "hm_ok new"
    unfolding hm_ok_def using hp unat_cap [of "Suc n"] n62
    by (auto simp: new_def simp del: power_Suc replicate_Suc intro!: exI [of _ "Suc n"])
  then have hn: "holds new []" using hp by (simp add: holds_def new_def del: power_Suc replicate_Suc)
  have "length (filter (\<lambda>q. hm_index new (fst q) = i) (all_pairs m)) \<le> 5" for i
  proof -
    let ?a = "i mod 2 ^ n"
    have a: "?a < length (h_ring m)" using n(3) by simp
    have "hm_index m key = hm_index new key mod 2 ^ n" for key
      unfolding n(4) idx by (simp add: mod_mod_cancel)
    then have "hm_index new (fst q) = i \<Longrightarrow> hm_index m (fst q) = ?a" for q by metis
    then have "length (filter (\<lambda>q. hm_index new (fst q) = i) (all_pairs m)) \<le> length (filter (\<lambda>q. hm_index m (fst q) = ?a) (all_pairs m))"
      by (rule length_filter_imp)
    also have "\<dots> = length (hm_pairs m ?a)" using holds_all [OF ok] a by (simp add: holds_def)
    also have "\<dots> \<le> 5" using n(5) [of ?a] by (simp add: hm_pairs_def bucket_ok_def)
    finally show ?thesis .
  qed
  then have five: "length (filter (\<lambda>q. hm_index new (fst q) = i) ([] @ concat (map (pairs (h_key_size m) (h_key_size m)) (h_ring m)))) \<le> 5" for i
    using sz by (simp add: all_pairs_def)
  have bo: "\<forall>b\<in>set (h_ring m). bucket_ok (h_key_size m) (h_key_size m) b"
    using n(3,5) sz by (auto simp: in_set_conv_nth)
  have "\<exists>m'. move_buckets junk (h_ring m) new = Some m' \<and> holds m' ([] @ concat (map (pairs (h_key_size m) (h_key_size m)) (h_ring m))) \<and> h_cap m' = h_cap new"
    by (rule move_buckets_ok [OF hn _ _ bo five]) (use sz in \<open>simp_all add: new_def\<close>)
  then obtain m' where m': "move_buckets junk (h_ring m) new = Some m'" "holds m' (all_pairs m)" "h_cap m' = h_cap new"
    using sz by (auto simp: all_pairs_def)
  have "hashmap_get m' k = hashmap_get m k" for k
    unfolding holds_get [OF m'(2)] holds_get [OF holds_all [OF ok]] ..
  then show ?thesis using g m' n(2) by (auto simp: holds_def new_def)
qed

theorem hashmap_grow_get_witness:
  "\<exists>m'. hashmap_grow (\<lambda>_. 0) (create_hashmap 8 8) = Some m' \<and> h_cap m' = 32"
  using hashmap_grow_get [OF create_hashmap_ok(1), of 8 8 "\<lambda>_. 0"] by (auto simp: create_hashmap_def INITIAL_HASHMAP_SIZE_def)

subsection \<open>Removal\<close>

lemma shift_entries_ok:
  assumes "b_keys b = Some kb" "length kb = 5 * ks" "b_values b = Some vb" "length vb = 5 * vs" "j + n < 5"
  shows "\<exists>kb' vb'. shift_entries ks vs [j..<j + n] b = Some (b\<lparr>b_keys := Some kb', b_values := Some vb'\<rparr>) \<and>
    length kb' = 5 * ks \<and> length vb' = 5 * vs \<and>
    (\<forall>i<5. chunk ks kb' i = chunk ks kb (if j \<le> i \<and> i < j + n then i + 1 else i) \<and>
           chunk vs vb' i = chunk vs vb (if j \<le> i \<and> i < j + n then i + 1 else i))"
  using assms
proof (induction n arbitrary: j b kb vb)
  case 0
  then have "b\<lparr>b_keys := Some kb, b_values := Some vb\<rparr> = b" by (cases b) simp
  then show ?case by (intro exI [of _ kb] exI [of _ vb] conjI) (use 0 in auto)
next
  case (Suc n)
  have j: "j < 5" "j + 1 < 5" using Suc.prems(5) by simp_all
  have l: "5 * ks \<le> length kb" "5 * vs \<le> length vb" using Suc.prems by simp_all
  obtain k1 where k1: "wr kb (j * ks) (chunk ks kb (j + 1)) = Some k1" "length k1 = length kb"
    "\<And>i. i < 5 \<Longrightarrow> chunk ks k1 i = (if i = j then chunk ks kb (j + 1) else chunk ks kb i)"
    by (rule wr_chunk [OF j(1) l(1) chunk_length [OF j(2) l(1)]]) (rule that)
  obtain v1 where v1: "wr vb (j * vs) (chunk vs vb (j + 1)) = Some v1" "length v1 = length vb"
    "\<And>i. i < 5 \<Longrightarrow> chunk vs v1 i = (if i = j then chunk vs vb (j + 1) else chunk vs vb i)"
    by (rule wr_chunk [OF j(1) l(2) chunk_length [OF j(2) l(2)]]) (rule that)
  define c where "c = b\<lparr>b_keys := Some k1, b_values := Some v1\<rparr>"
  have up: "[j..<j + Suc n] = j # [Suc j..<Suc j + n]" by (simp add: upt_conv_Cons)
  have step: "shift_entries ks vs [j..<j + Suc n] b = shift_entries ks vs [Suc j..<Suc j + n] c"
    unfolding up using Suc.prems(1,3) rd_chunk [OF j(2) l(1)] rd_chunk [OF j(2) l(2)] k1(1) v1(1) by (simp add: c_def)
  obtain kb' vb' where IH: "shift_entries ks vs [Suc j..<Suc j + n] c = Some (c\<lparr>b_keys := Some kb', b_values := Some vb'\<rparr>)"
    "length kb' = 5 * ks" "length vb' = 5 * vs"
    "\<forall>i<5. chunk ks kb' i = chunk ks k1 (if Suc j \<le> i \<and> i < Suc j + n then i + 1 else i) \<and>
           chunk vs vb' i = chunk vs v1 (if Suc j \<le> i \<and> i < Suc j + n then i + 1 else i)"
    using Suc.IH [of c k1 v1 "Suc j"] Suc.prems k1(2) v1(2) by (auto simp: c_def)
  have "chunk ks kb' i = chunk ks kb (if j \<le> i \<and> i < j + Suc n then i + 1 else i) \<and>
      chunk vs vb' i = chunk vs vb (if j \<le> i \<and> i < j + Suc n then i + 1 else i)" if i: "i < 5" for i
  proof -
    consider "i < j" | "i = j" | "j < i" "i < j + Suc n" | "j + Suc n \<le> i" by linarith
    then show ?thesis using IH(4) i k1(3) v1(3) Suc.prems(5) by cases auto
  qed
  moreover have "shift_entries ks vs [j..<j + Suc n] b = Some (b\<lparr>b_keys := Some kb', b_values := Some vb'\<rparr>)"
    unfolding step IH(1) by (simp add: c_def)
  ultimately show ?case using IH(2,3) by blast
qed

lemma shift_pairs:
  assumes b: "bucket_ok ks vs b" and len: "b_len b < 5" and j: "j < b_len b"
  shows "\<exists>c. shift_entries ks vs [j..<b_len b] b = Some c \<and> bucket_ok ks vs (c\<lparr>b_len := b_len c - 1\<rparr>) \<and>
    pairs ks vs (c\<lparr>b_len := b_len c - 1\<rparr>) = take j (pairs ks vs b) @ drop (Suc j) (pairs ks vs b)"
proof -
  have "0 < b_len b" using j by simp
  then obtain kb vb where kb: "b_keys b = Some kb" "length kb = 5 * ks" "b_values b = Some vb" "length vb = 5 * vs"
    using bucket_okE [OF b] by metis
  have "j + (b_len b - j) < 5" using j len by simp
  then obtain kb' vb' where sh: "shift_entries ks vs [j..<j + (b_len b - j)] b = Some (b\<lparr>b_keys := Some kb', b_values := Some vb'\<rparr>)"
    "length kb' = 5 * ks" "length vb' = 5 * vs"
    "\<forall>q<5. chunk ks kb' q = chunk ks kb (if j \<le> q \<and> q < j + (b_len b - j) then q + 1 else q) \<and>
         chunk vs vb' q = chunk vs vb (if j \<le> q \<and> q < j + (b_len b - j) then q + 1 else q)"
    using shift_entries_ok [OF kb] by blast
  let ?c = "b\<lparr>b_keys := Some kb', b_values := Some vb', b_len := b_len b - 1\<rparr>"
  have "pairs ks vs ?c = take j (pairs ks vs b) @ drop (Suc j) (pairs ks vs b)"
  proof (rule nth_equalityI)
    show "length (pairs ks vs ?c) = length (take j (pairs ks vs b) @ drop (Suc j) (pairs ks vs b))" using j by simp
    fix q assume "q < length (pairs ks vs ?c)"
    then have q: "q < b_len b - 1" by simp
    then show "pairs ks vs ?c ! q = (take j (pairs ks vs b) @ drop (Suc j) (pairs ks vs b)) ! q"
      using sh(4) len j kb by (auto simp: pairs_nth nth_append)
  qed
  moreover have "bucket_ok ks vs ?c" using sh(2,3) len by (simp add: bucket_ok_def)
  ultimately show ?thesis using sh(1) j by simp
qed

lemma map_of_delete_nth:
  assumes "j < length ps" "fst (ps ! j) = k" "distinct (map fst ps)"
  shows "map_of (take j ps @ drop (Suc j) ps) k' = (if k' = k then None else map_of ps k')"
proof -
  define xs y ys where "xs = take j ps" and "y = ps ! j" and "ys = drop (Suc j) ps"
  have "ps = xs @ y # ys" unfolding xs_def y_def ys_def using assms(1) by (rule id_take_nth_drop)
  moreover have "fst y = k" using assms(2) by (simp add: y_def)
  ultimately have ps: "ps = xs @ (k, snd y) # ys" by (cases y) simp
  then have ni: "k \<notin> fst ` set xs" "k \<notin> fst ` set ys" using assms(3) by auto
  then have "map_of (xs @ ys) k = None" by (auto simp: map_of_eq_None_iff)
  moreover have "map_of (xs @ ys) k' = map_of ps k'" if "k' \<noteq> k" using that by (simp add: ps map_add_def split: option.splits)
  ultimately show ?thesis by (simp add: xs_def ys_def)
qed

definition demo_bucket :: "nat \<Rightarrow> s_hashmap_bucket" where
  "demo_bucket n = \<lparr>b_keys = Some (replicate 5 7), b_values = Some [1, 2, 3, 4, 5], b_len = n\<rparr>"

definition demo_map :: "nat \<Rightarrow> s_hashmap" where
  "demo_map n = set_bucket (hm_index (create_hashmap 1 1) [7]) (demo_bucket n) (create_hashmap 1 1)"

lemma demo_map_ok:
  assumes "n \<le> 5"
  shows "hm_ok (demo_map n)" "hm_index (demo_map n) [7] = hm_index (create_hashmap 1 1) [7]"
    "b_len (h_ring (demo_map n) ! hm_index (demo_map n) [7]) = n"
    "hm_pairs (demo_map n) (hm_index (demo_map n) [7]) = map (\<lambda>i. ([7], [[1, 2, 3, 4, 5] ! i])) [0..<n]"
    "h_key_size (demo_map n) = 1"
proof -
  let ?m = "create_hashmap 1 1"
  have i: "hm_index ?m [7] < length (h_ring ?m)" by (rule hm_index_less [OF create_hashmap_ok(1)])
  have sz: "h_key_size ?m = 1" "h_val_size ?m = 1" by (simp_all add: create_hashmap_def)
  have p: "pairs 1 1 (demo_bucket n) = map (\<lambda>i. ([7], [[1, 2, 3, 4, 5] ! i])) [0..<n]"
    using assms by (auto simp: pairs_def demo_bucket_def chunk_def take_Suc_conv_app_nth less_Suc_eq_le)
  have b: "bucket_ok (h_key_size ?m) (h_val_size ?m) (demo_bucket n)" unfolding sz using assms by (simp add: bucket_ok_def demo_bucket_def)
  have k: "\<forall>p\<in>set (pairs (h_key_size ?m) (h_val_size ?m) (demo_bucket n)). hm_index ?m (fst p) = hm_index ?m [7]"
    unfolding sz p by auto
  note sb = set_bucket_ok [OF create_hashmap_ok(1) i b k]
  show "hm_ok (demo_map n)" "hm_index (demo_map n) [7] = hm_index ?m [7]" "h_key_size (demo_map n) = 1"
    using sb(1,2,4) sz by (simp_all add: demo_map_def)
  then show "b_len (h_ring (demo_map n) ! hm_index (demo_map n) [7]) = n"
    using i by (simp add: demo_map_def set_bucket_def demo_bucket_def)
  show "hm_pairs (demo_map n) (hm_index (demo_map n) [7]) = map (\<lambda>i. ([7], [[1, 2, 3, 4, 5] ! i])) [0..<n]"
    using sb(2,3) p sz by (simp add: demo_map_def)
qed



text \<open>Removal from a full bucket reads and copies a sixth pair, past the end of both buffers.\<close>

theorem hashmap_remove_full_overruns:
  assumes ok: "hm_ok m" and len: "b_len (h_ring m ! hm_index m key) = 5" and ks: "0 < h_key_size m"
    and key: "hashmap_get m key \<noteq> Some None"
  shows "hashmap_remove m key = None"
proof -
  let ?i = "hm_index m key" and ?ks = "h_key_size m" and ?vs = "h_val_size m"
  let ?b = "h_ring m ! ?i"
  have i: "?i < length (h_ring m)" by (rule hm_index_less [OF ok])
  have b: "bucket_ok ?ks ?vs ?b" using ok i by (simp add: hm_ok_def)
  have psl: "length (hm_pairs m ?i) = 5" using len by (simp add: hm_pairs_def)
  have "map_of (hm_pairs m ?i) key \<noteq> None" using key get_pairs [OF ok, of key] by auto
  then obtain j where j: "find (\<lambda>j. fst (hm_pairs m ?i ! j) = key) [0..<b_len ?b] = Some j"
    using map_of_find [of "hm_pairs m ?i" key] psl len by (auto split: option.splits)
  then have j5: "j < 5" using len by (auto simp: find_Some_iff)
  have f: "find_key ?ks ?b key [0..<b_len ?b] = Some (Some j)"
    using find_key_pairs [OF b, of "[0..<b_len ?b]" key] j by (simp add: hm_pairs_def)
  obtain kb vb where kb: "b_keys ?b = Some kb" "length kb = 5 * ?ks" "b_values ?b = Some vb" "length vb = 5 * ?vs"
    using b len by (auto simp: bucket_ok_def)
  have "j + (4 - j) < 5" using j5 by simp
  then obtain kb' vb' where sh: "shift_entries ?ks ?vs [j..<j + (4 - j)] ?b = Some (?b\<lparr>b_keys := Some kb', b_values := Some vb'\<rparr>)"
    "length kb' = 5 * ?ks" using shift_entries_ok [OF kb] by blast
  have app: "shift_entries ?ks ?vs (js @ [4]) c = Option.bind (shift_entries ?ks ?vs js c) (shift_entries ?ks ?vs [4])" for js c
    by (induction js arbitrary: c) (auto split: bind_splits)
  have up: "[j..<5] = [j..<j + (4 - j)] @ [4]" using j5 upt_Suc_append [of j 4] by simp
  have "rd kb' (5 * ?ks) ?ks = None" using sh(2) ks by (simp add: rd_def)
  then have "shift_entries ?ks ?vs [j..<5] ?b = None" unfolding up app sh(1) by simp
  then show ?thesis using i f len by (simp add: hashmap_remove_def Let_def)
qed

theorem hashmap_remove_full_overruns_witness: "hashmap_remove (demo_map 5) [7] = None"
proof (rule hashmap_remove_full_overruns)
  show "hashmap_get (demo_map 5) [7] \<noteq> Some None"
    using get_pairs [OF demo_map_ok(1) [of 5], of "[7]"] demo_map_ok(4) [of 5] by (simp add: upt_rec)
qed (simp_all add: demo_map_ok(1,3,4,5) del: One_nat_def)

end
