(* ===== verification/Hexdump.thy ===== *)
theory Hexdump
  imports Console
begin

text \<open>
  \<^verbatim>\<open>console_put_hexdump\<close> of \<^verbatim>\<open>kernel/src/console.c\<close>, its four loops over the formatted output of \<^verbatim>\<open>Console\<close>, and the
  text that it prints.
\<close>

text \<open>A \<^verbatim>\<open>for\<close> loop over the values of its counter.\<close>


primrec for_each :: "('a \<Rightarrow> kstate \<Rightarrow> kstate option) \<Rightarrow> 'a list \<Rightarrow> kstate \<Rightarrow> kstate option" where
  "for_each f [] s = Some s"
| "for_each f (x # xs) s = do { s \<leftarrow> f x s; for_each f xs s }"

definition hexdump_value :: "u64 \<Rightarrow> u64 \<Rightarrow> u64 \<Rightarrow> kstate \<Rightarrow> kstate option" where
  "hexdump_value addr sz index s =
     (if index \<ge> sz then Some (console_puts ''   '' s)
      else do {
        s \<leftarrow> (if ld8 s (addr + index) < 16 then console_printf ''%x'' [VWord 0] s else Some s);
        console_printf ''%x '' [VWord (ucast (ld8 s (addr + index)))] s })"

definition hexdump_char :: "u64 \<Rightarrow> u64 \<Rightarrow> u64 \<Rightarrow> kstate \<Rightarrow> kstate option" where
  "hexdump_char addr sz index s =
     Some (console_puts
       (if index \<ge> sz then ''.''
        else if 32 \<le> ld8 s (addr + index) \<and> ld8 s (addr + index) < 127 then [char_of (unat (ld8 s (addr + index)))]
        else ''.'') s)"

definition hexdump_line :: "u64 \<Rightarrow> u64 \<Rightarrow> u64 \<Rightarrow> kstate \<Rightarrow> kstate option" where
  "hexdump_line addr sz i s = do {
     let num_zeros_two = console_log_16 sz - console_log_16 i - 1;
     s \<leftarrow> for_each (\<lambda>_. console_printf ''%x'' [VWord 0]) [0..<unat num_zeros_two] s;
     s \<leftarrow> console_printf ''%llx    '' [VWord (i * 16)] s;
     s \<leftarrow> for_each (\<lambda>j. hexdump_value addr sz (i * 16 + of_nat j)) [0..<16] s;
     let s = console_puts ''    |'' s;
     s \<leftarrow> for_each (\<lambda>j. hexdump_char addr sz (i * 16 + of_nat j)) [0..<16] s;
     Some (console_puts (''|'' @ [CHR 0x0A]) s) }"

definition console_put_hexdump :: "u64 \<Rightarrow> u64 \<Rightarrow> kstate \<Rightarrow> kstate option" where
  "console_put_hexdump addr sz s = for_each (\<lambda>i. hexdump_line addr sz (of_nat i)) [0..<unat ((sz + 15) div 16)] s"

text \<open>What one line shows: the label, the two digits of each byte, and the printable characters.\<close>

definition hex_byte :: "u8 \<Rightarrow> string" where
  "hex_byte b = (if b < 16 then ''0'' else '''') @ put_hex (ucast b)"

definition line_values :: "u8 list \<Rightarrow> string" where
  "line_values bs = concat (map (\<lambda>b. hex_byte b @ '' '') bs) @ replicate (3 * (16 - length bs)) (CHR '' '')"

definition shown :: "u8 \<Rightarrow> char" where
  "shown b = (if 32 \<le> b \<and> b < 127 then char_of (unat b) else CHR ''.'')"

definition line_chars :: "u8 list \<Rightarrow> string" where
  "line_chars bs = map shown bs @ replicate (16 - length bs) (CHR ''.'')"

definition line_label :: "nat \<Rightarrow> u64 \<Rightarrow> string" where
  "line_label w a = replicate (w - length (put_hex a)) (CHR ''0'') @ put_hex a"

definition dump_line :: "nat \<Rightarrow> u64 \<Rightarrow> u8 list \<Rightarrow> string" where
  "dump_line w a bs = line_label w a @ ''    '' @ line_values bs @ ''    |'' @ line_chars bs @ ''|'' @ [CHR 0x0A]"

lemma for_each_out:
  assumes "\<And>x t. x \<in> set xs \<Longrightarrow> mem t = mem s \<Longrightarrow> satp t = satp s \<Longrightarrow> f x t = Some (console_puts (g x) t)"
  shows "mem t = mem s \<Longrightarrow> satp t = satp s \<Longrightarrow> for_each f xs t = Some (console_puts (concat (map g xs)) t)"
  using assms by (induction xs arbitrary: t) (auto simp: console_puts_def)

subsection \<open>Digits\<close>

lemma hex_loop_acc: "hex_loop x (acc @ bs) = hex_loop x acc @ bs"
proof (induction x acc rule: hex_loop.induct)
  case (1 x acc)
  then show ?case by (cases "x = 0") (simp_all add: hex_loop.simps [of x])
qed

lemma hex_loop_log: "of_nat (length (hex_loop x acc)) = of_nat (length acc) + console_log_16 x"
proof (induction x acc rule: hex_loop.induct)
  case (1 x acc)
  then show ?case
    by (cases "x = 0") (simp_all add: hex_loop.simps [of x acc] console_log_16.simps [of x] drop_bit_eq_div, simp add: console_log_16.simps)
qed

lemma unat_log_16: "unat (console_log_16 x) = length (hex_loop x [])"
proof -
  have "length (hex_loop x []) \<le> 16" using hex_loop_length [of x 16 "[]"] by simp
  then have "unat (of_nat (length (hex_loop x [])) :: u32) = length (hex_loop x [])" by (simp add: unat_of_nat)
  then show ?thesis by (simp add: hex_loop_log)
qed

lemma hex_loop_bound: "(unat x + 1) * 16 ^ length acc \<le> 16 ^ length (hex_loop x acc)"
proof (induction x acc rule: hex_loop.induct)
  case (1 x acc)
  have "(unat x + 1) * 16 ^ length acc \<le> ((unat x div 16 + 1) * 16) * 16 ^ length acc"
    by (intro mult_right_mono) simp_all
  moreover have "((unat x div 16 + 1) * 16) * 16 ^ length acc \<le> 16 ^ length (hex_loop x acc)" if "x \<noteq> 0"
  proof -
    have "(unat x div 16 + 1) * (16 * 16 ^ length acc) \<le> 16 ^ length (hex_loop x acc)"
      using 1 that by (simp add: hex_loop.simps [of x acc] unat_div)
    then show ?thesis by (simp add: algebra_simps)
  qed
  ultimately show ?case by (cases "x = 0") (simp, linarith)
qed

lemma hex_digits_mono: "unat x \<le> unat y \<Longrightarrow> length (hex_loop x []) \<le> length (hex_loop y [])"
  using hex_loop_bound [of y "[]"] by (intro hex_loop_length [of x _ "[]", simplified]) simp

lemma put_hex_digits: "length (put_hex x) = max 1 (length (hex_loop x []))"
  using hex_loop_no_leading_zero [of x "[]"] by (cases "hex_loop x []") (auto simp: put_hex_def)

lemma unat_lt_byte: "unat (b :: u8) < 256"
  using unsigned_less [of b, where ?'a = nat] by simp

lemma unat_ucast_byte: "unat (ucast (b :: u8) :: u64) = unat b"
  using unat_lt_byte [of b] by (simp add: unsigned_ucast_eq take_bit_nat_eq_self)

lemma hex_byte_length [simp]: "length (hex_byte b) = 2"
proof -
  let ?n = "length (hex_loop (ucast b) [])"
  have "?n \<le> 2" using unat_lt_byte [of b] hex_loop_length [of "ucast b" 2 "[]"] by (simp add: unat_ucast_byte)
  moreover have "?n \<le> 1" if "b < 16"
    using that hex_loop_length [of "ucast b" 1 "[]"] by (simp add: unat_ucast_byte word_less_nat_alt)
  moreover have "2 \<le> ?n" if "\<not> b < 16"
  proof (rule ccontr)
    assume "\<not> 2 \<le> ?n"
    then have "(16::nat) ^ ?n \<le> 16 ^ 1" by (intro power_increasing) auto
    with hex_loop_bound [of "ucast b" "[]"] that show False by (simp add: unat_ucast_byte word_less_nat_alt)
  qed
  ultimately show ?thesis by (auto simp: hex_byte_def put_hex_digits)
qed

lemma dump_line_length:
  assumes "length bs \<le> 16" "length (put_hex a) \<le> w"
  shows "length (dump_line w a bs) = w + 75"
proof -
  have "length (line_values bs) = 48"
    using assms(1) by (simp add: line_values_def length_concat o_def sum_list_triv)
  then show ?thesis using assms by (simp add: dump_line_def line_label_def line_chars_def)
qed

subsection \<open>Lines\<close>

lemma ucast_byte_int: "ucast (ucast (ucast (b :: u8) :: u64) :: u32) = (ucast b :: u64)"
  by (rule bit_word_eqI) (auto simp: bit_ucast_iff dest: bit_imp_le_length)

lemma hexdump_value_eq:
  assumes "mem t = mem s" "satp t = satp s"
  shows "hexdump_value addr sz k t = Some (console_puts (if k < sz then hex_byte (ld8 s (addr + k)) @ '' '' else ''   '') t)"
proof -
  have ld: "ld8 t a = ld8 s a" for a using assms by (simp add: ld8_def kaddr_def mmu_enabled_def)
  have ld': "ld8 (console_puts x t) a = ld8 s a" for a x using assms by (simp add: ld8_def kaddr_def mmu_enabled_def console_puts_def)
  have zero: "console_printf ''%x'' [VWord 0] u = Some (console_puts ''0'' u)" for u
    by (simp add: console_printf_def va_arg_word_def put_hex_def)
  have val: "console_printf ''%x '' [VWord (ucast (b :: u8))] u = Some (console_puts (put_hex (ucast b) @ '' '') u)" for b u
    by (simp add: console_printf_def va_arg_word_def ucast_byte_int)
  show ?thesis
    by (simp add: hexdump_value_def ld ld' zero val hex_byte_def not_le) (simp add: console_puts_def)
qed

lemma hexdump_char_eq:
  assumes "mem t = mem s" "satp t = satp s"
  shows "hexdump_char addr sz k t = Some (console_puts [if k < sz then shown (ld8 s (addr + k)) else CHR ''.''] t)"
  using assms by (simp add: hexdump_char_def shown_def ld8_def kaddr_def mmu_enabled_def)

text \<open>The bytes of line \<open>i\<close> of a dump of \<open>n\<close> bytes.\<close>

definition line_bytes :: "kstate \<Rightarrow> u64 \<Rightarrow> nat \<Rightarrow> nat \<Rightarrow> u8 list" where
  "line_bytes s addr n i = map (\<lambda>j. ld8 s (addr + of_nat j)) [16 * i..<min (16 * i + 16) n]"

lemma map_if_upt:
  assumes "m \<le> (16 :: nat)" "\<And>j. j < m \<Longrightarrow> Q j" "\<And>j. m \<le> j \<Longrightarrow> j < 16 \<Longrightarrow> \<not> Q j"
  shows "map (\<lambda>j. if Q j then g j else c) [0..<16] = map g [0..<m] @ replicate (16 - m) c"
proof -
  have "[0..<16] = [0..<m] @ [m..<16]" using assms(1) upt_add_eq_append [of 0 m "16 - m"] by simp
  moreover have "map (\<lambda>j. if Q j then g j else c) [0..<m] = map g [0..<m]" using assms(2) by simp
  moreover have "map (\<lambda>j. if Q j then g j else c) [m..<16] = map (\<lambda>_. c) [m..<16]" using assms(3) by simp
  ultimately show ?thesis by (simp only: map_append map_replicate_const length_upt)
qed

lemma line_bytes_map:
  assumes "16 * i < n"
  shows "map (\<lambda>j. if 16 * i + j < n then g (ld8 s (addr + of_nat (16 * i + j))) else c) [0..<16] =
    map g (line_bytes s addr n i) @ replicate (16 - length (line_bytes s addr n i)) c"
proof -
  define m where "m = min 16 (n - 16 * i)"
  have m: "m \<le> 16" "min (16 * i + 16) n = 16 * i + m" using assms by (auto simp: m_def)
  have lb: "line_bytes s addr n i = map (\<lambda>j. ld8 s (addr + of_nat (16 * i + j))) [0..<m]"
    unfolding line_bytes_def m(2) by (rule nth_equalityI) simp_all
  have "16 * i + j < n" if "j < m" for j using that assms unfolding m_def by linarith
  moreover have "\<not> 16 * i + j < n" if "m \<le> j" "j < 16" for j using that assms unfolding m_def by linarith
  ultimately show ?thesis unfolding lb using m(1) by (subst map_if_upt [of m]) (auto simp: o_def)
qed

lemma concat_blank: "concat (replicate k ''   '') = replicate (3 * k) (CHR '' '')"
  by (induction k) (simp_all add: numeral_3_eq_3)

lemma concat_map_single: "concat (map (\<lambda>x. [f x]) xs) = map f xs"
  by (induction xs) simp_all

text \<open>A line index below the number of lines: nothing wraps, and the label is padded to the width of the size.\<close>

lemma hexdump_label:
  assumes "16 * i < unat sz" "unat sz + 15 < 2 ^ 64"
  shows "length (put_hex (of_nat (16 * i))) \<le> unat (console_log_16 sz)" (is ?len)
    and "unat (console_log_16 sz - console_log_16 (of_nat i) - 1) = unat (console_log_16 sz) - length (put_hex (of_nat (16 * i)))" (is ?zeros)
proof -
  let ?w = "unat (console_log_16 sz)" and ?i = "of_nat i :: u64"
  have b: "unat (of_nat (16 * i) :: u64) = 16 * i" "unat ?i = i" using assms by (simp_all only: unat_of_nat64)
  have pos: "0 < length (hex_loop sz [])"
    using assms(1) hex_loop_no_leading_zero [of sz "[]"] by (cases "sz = 0") auto
  show len: ?len
    using hex_digits_mono [of "of_nat (16 * i)" sz] b assms(1) pos by (simp add: put_hex_digits unat_log_16 Suc_le_eq)
  have log: "length (put_hex (of_nat (16 * i))) = Suc (unat (console_log_16 ?i))"
  proof (cases "i = 0")
    case False
    have "(of_nat (16 * i) :: u64) div 16 = ?i"
      using b by (simp add: word_unat_eq_iff unat_div del: of_nat_mult)
    moreover have "(of_nat (16 * i) :: u64) \<noteq> 0" using False b(1) by (metis mult_eq_0_iff unsigned_0 zero_neq_numeral)
    ultimately have "hex_loop (of_nat (16 * i)) [] = hex_loop ?i [hex_digit (of_nat (16 * i) mod 16)]"
      by (subst hex_loop.simps) (simp del: of_nat_mult)
    then have "length (hex_loop (of_nat (16 * i)) []) = Suc (length (hex_loop ?i []))"
      using hex_loop_acc [of ?i "[]" "[hex_digit (of_nat (16 * i) mod 16)]"] by simp
    then show ?thesis unfolding put_hex_digits unat_log_16 by simp
  qed (simp add: put_hex_def console_log_16.simps)
  have "console_log_16 sz - console_log_16 ?i - 1 = of_nat ?w - of_nat (Suc (unat (console_log_16 ?i)))"
    by (simp add: algebra_simps)
  also have "\<dots> = of_nat (?w - Suc (unat (console_log_16 ?i)))"
    using len log by (simp only: of_nat_diff)
  finally show ?zeros
    using log unsigned_less [of "console_log_16 sz", where ?'a = nat] by (simp add: unat_of_nat)
qed

lemma line_index:
  assumes "16 * i < unat (sz :: u64)" "unat sz + 15 < 2 ^ 64" "j < 16"
  shows "(of_nat i :: u64) * 16 + of_nat j = of_nat (16 * i + j)" "of_nat (16 * i + j) < sz \<longleftrightarrow> 16 * i + j < unat sz"
proof -
  have "unat (of_nat (16 * i + j) :: u64) = 16 * i + j" using assms by (intro unat_of_nat64) linarith
  then show "of_nat (16 * i + j) < sz \<longleftrightarrow> 16 * i + j < unat sz" by (simp only: word_less_nat_alt)
qed (simp add: mult.commute)

lemma hexdump_values:
  assumes "16 * i < unat sz" "unat sz + 15 < 2 ^ 64" "mem u = mem s" "satp u = satp s"
  shows "for_each (\<lambda>j. hexdump_value addr sz (of_nat i * 16 + of_nat j)) [0..<16] u =
    Some (console_puts (line_values (line_bytes s addr (unat sz) i)) u)"
proof -
  let ?g = "\<lambda>j. if 16 * i + j < unat sz then (\<lambda>b. hex_byte b @ '' '') (ld8 s (addr + of_nat (16 * i + j))) else ''   ''"
  have "for_each (\<lambda>j. hexdump_value addr sz (of_nat i * 16 + of_nat j)) [0..<16] u = Some (console_puts (concat (map ?g [0..<16])) u)"
    by (rule for_each_out [OF _ assms(3,4)]) (simp add: hexdump_value_eq [of _ s] line_index [OF assms(1,2)] del: of_nat_add of_nat_mult)
  then show ?thesis
    using line_bytes_map [OF assms(1), of "\<lambda>b. hex_byte b @ '' ''" s addr "''   ''"] by (simp add: line_values_def concat_blank)
qed

lemma hexdump_chars:
  assumes "16 * i < unat sz" "unat sz + 15 < 2 ^ 64" "mem u = mem s" "satp u = satp s"
  shows "for_each (\<lambda>j. hexdump_char addr sz (of_nat i * 16 + of_nat j)) [0..<16] u =
    Some (console_puts (line_chars (line_bytes s addr (unat sz) i)) u)"
proof -
  let ?g = "\<lambda>j. if 16 * i + j < unat sz then shown (ld8 s (addr + of_nat (16 * i + j))) else CHR ''.''"
  have "for_each (\<lambda>j. hexdump_char addr sz (of_nat i * 16 + of_nat j)) [0..<16] u = Some (console_puts (concat (map (\<lambda>j. [?g j]) [0..<16])) u)"
    by (rule for_each_out [OF _ assms(3,4)]) (simp add: hexdump_char_eq [of _ s] line_index [OF assms(1,2)] del: of_nat_add of_nat_mult)
  then show ?thesis
    unfolding concat_map_single using line_bytes_map [OF assms(1), of shown s addr "CHR ''.''"] by (simp add: line_chars_def)
qed

lemma hexdump_pad: "for_each (\<lambda>_. console_printf ''%x'' [VWord 0]) [0..<k] t = Some (console_puts (replicate k (CHR ''0'')) t)"
proof -
  have "concat (map (\<lambda>_. ''0'') [0..<k]) = replicate k (CHR ''0'')" by (simp add: concat_map_single map_replicate_const)
  then show ?thesis
    using for_each_out [of "[0..<k]" t _ "\<lambda>_. ''0''" t] by (simp add: console_printf_def va_arg_word_def put_hex_def)
qed

text \<open>The text of line \<open>i\<close>, and the loop over the lines.\<close>

definition line_text :: "kstate \<Rightarrow> u64 \<Rightarrow> u64 \<Rightarrow> nat \<Rightarrow> string" where
  "line_text s addr sz i = dump_line (unat (console_log_16 sz)) (of_nat (16 * i)) (line_bytes s addr (unat sz) i)"

lemma hexdump_line_eq:
  assumes "16 * i < unat sz" "unat sz + 15 < 2 ^ 64" "mem t = mem s" "satp t = satp s"
  shows "hexdump_line addr sz (of_nat i) t = Some (console_puts (line_text s addr sz i) t)"
proof -
  have label: "console_printf ''%llx    '' [VWord a] u = Some (console_puts (put_hex a @ ''    '') u)" for a u
    by (simp add: console_printf_def va_arg_word_def long_size_def)
  show ?thesis
    using assms(3,4)
    by (simp add: hexdump_line_def line_text_def hexdump_label(2) [OF assms(1,2)] hexdump_pad label hexdump_values [OF assms(1,2), of _ s]
        hexdump_chars [OF assms(1,2), of _ s] console_puts_def dump_line_def line_label_def mult.commute)
qed

lemma line_text_length: "16 * i < unat sz \<Longrightarrow> unat sz + 15 < 2 ^ 64 \<Longrightarrow> length (line_text s addr sz i) = unat (console_log_16 sz) + 75"
  unfolding line_text_def by (intro dump_line_length hexdump_label) (simp_all add: line_bytes_def)

text \<open>C40. \<^verbatim>\<open>console_put_hexdump\<close> of \<open>sz\<close> bytes returns and prints one line for each 16 bytes, with the address, the bytes in hexadecimal and
  the printable characters; it only reads the memory, the unsigned count of padding zeros never wraps, and so all lines have the same length, also the
  last one.\<close>

theorem hexdump_spec:
  assumes "unat sz + 15 < 2 ^ 64"
  shows "console_put_hexdump addr sz s = Some (console_puts (concat (map (line_text s addr sz) [0..<(unat sz + 15) div 16])) s) \<and>
    (\<forall>i<(unat sz + 15) div 16. length (line_text s addr sz i) = unat (console_log_16 sz) + 75)"
proof -
  have n: "unat ((sz + 15) div 16) = (unat sz + 15) div 16"
    using assms by (simp add: unat_div unat_word_ariths)
  have "16 * i < unat sz" if "i < (unat sz + 15) div 16" for i using that by linarith
  then show ?thesis
    unfolding console_put_hexdump_def n using assms by (auto intro!: for_each_out [of _ s] hexdump_line_eq line_text_length)
qed

theorem hexdump_spec_witness:
  "\<exists>t. console_put_hexdump 0x1000 20 kstate0 = Some t \<and> length (line_text kstate0 0x1000 20 0) = 77 \<and> length (line_text kstate0 0x1000 20 1) = 77"
proof -
  have w: "unat (console_log_16 20) = 2" by code_simp
  show ?thesis using hexdump_spec [of 20 "0x1000" kstate0] by (simp add: w)
qed

end
