(* ===== verification/Fdt.thy ===== *)
theory Fdt
  imports Console Strings Addr
begin

text \<open>
  \<^verbatim>\<open>kernel/src/fdt.c\<close>: the flattened device tree, read byte by byte from memory. Every loop runs until it
  meets a terminator in memory, so the loops are partial functions: \<open>None\<close> is a loop that never ends.
  The functions take pointers, also for the names to look for.
\<close>

subsection \<open>Numbers and the header\<close>

text \<open>The shift takes the low six bits of its amount, as the RV64 instruction does.\<close>

definition be_to_le :: "kstate \<Rightarrow> u64 \<Rightarrow> u64 \<Rightarrow> u64" where
  "be_to_le s sz be =
     (let byte_count = sz div 8
      in fold (\<lambda>i result. result OR
             push_bit (unat ((byte_count - of_nat i - 1) * 8 AND 63)) (ucast (ld8 s (be + of_nat i))))
           [0..<unat byte_count] 0)"

definition FDT_BEGIN_NODE :: u64 where "FDT_BEGIN_NODE = 1"
definition FDT_END_NODE :: u64 where "FDT_END_NODE = 2"
definition FDT_PROP :: u64 where "FDT_PROP = 3"
definition FDT_NOP :: u64 where "FDT_NOP = 4"
definition FDT_END :: u64 where "FDT_END = 9"

lemmas fdt_tokens = FDT_BEGIN_NODE_def FDT_END_NODE_def FDT_PROP_def FDT_NOP_def FDT_END_def

text \<open>Field \<open>i\<close> of \<^verbatim>\<open>fdt_header_t\<close>: ten big-endian words, in the order magic, totalsize, off_dt_struct,
  off_dt_strings, off_mem_rsvmap, version, last_comp_version, boot_cpuid_phys, size_dt_strings,
  size_dt_struct.\<close>

definition fdt_header_field :: "kstate \<Rightarrow> u64 \<Rightarrow> nat \<Rightarrow> u64" where
  "fdt_header_field s h i = be_to_le s 32 (h + 4 * of_nat i)"

record fdt_t =
  fdt_header :: u64
  memory_reservation_block :: u64
  structure_block :: u64
  strings_block :: u64

definition verify_fdt :: "kstate \<Rightarrow> u64 \<Rightarrow> fdt_t" where
  "verify_fdt s fdt =
     (if fdt \<noteq> 0 \<and> fdt_header_field s fdt 0 = 0xd00dfeed \<and> fdt_header_field s fdt 5 = 17
      then \<lparr>fdt_header = fdt,
            memory_reservation_block = fdt + fdt_header_field s fdt 4,
            structure_block = fdt + fdt_header_field s fdt 2,
            strings_block = fdt + fdt_header_field s fdt 3\<rparr>
      else \<lparr>fdt_header = 0, memory_reservation_block = 0, structure_block = 0, strings_block = 0\<rparr>)"

definition fdt_phys2safe :: "kstate \<Rightarrow> fdt_t \<Rightarrow> fdt_t" where
  "fdt_phys2safe s fdt = fdt\<lparr>fdt_header := phys2safe s (fdt_header fdt),
     memory_reservation_block := phys2safe s (memory_reservation_block fdt),
     strings_block := phys2safe s (strings_block fdt),
     structure_block := phys2safe s (structure_block fdt)\<rparr>"

subsection \<open>Steps over the structure block\<close>

text \<open>\<^verbatim>\<open>while (*c++);\<close>, and rounding down to a multiple of four.\<close>

partial_function (option) skip_string :: "kstate \<Rightarrow> u64 \<Rightarrow> u64 option" where
  "skip_string s c = (if ld8 s c \<noteq> 0 then skip_string s (c + 1) else Some (c + 1))"

definition align4 :: "u64 \<Rightarrow> u64" where "align4 a = a AND NOT 3"

text \<open>The token after the property at \<open>p\<close>.\<close>

definition prop_len :: "kstate \<Rightarrow> u64 \<Rightarrow> u32" where "prop_len s p = ucast (be_to_le s 32 (p + 4))"
definition prop_name_offset :: "kstate \<Rightarrow> u64 \<Rightarrow> u32" where "prop_name_offset s p = ucast (be_to_le s 32 (p + 8))"

definition skip_prop :: "kstate \<Rightarrow> u64 \<Rightarrow> u64" where
  "skip_prop s p = align4 (p + 12 + ucast (prop_len s p) + 3)"

text \<open>Where \<^verbatim>\<open>fdt_find\<close> and \<^verbatim>\<open>fdt_path\<close> go on after the node \<open>lst\<close>.\<close>

definition resume_after :: "kstate \<Rightarrow> u64 \<Rightarrow> u64 option" where
  "resume_after s lst = do { c \<leftarrow> skip_string s (lst + 4); Some (align4 (c + 4)) }"

subsection \<open>Finding nodes\<close>

definition AT :: u8 where "AT = 64"
definition SLASH :: u8 where "SLASH = 47"

partial_function (option) match_name :: "kstate \<Rightarrow> u64 \<Rightarrow> u64 \<Rightarrow> (u64 \<times> u64) option" where
  "match_name s c temp_name =
     (if ld8 s c \<noteq> 0 \<and> ld8 s c \<noteq> AT \<and> ld8 s temp_name \<noteq> 0
      then if ld8 s c \<noteq> ld8 s temp_name then Some (c, temp_name) else match_name s (c + 1) (temp_name + 1)
      else Some (c, temp_name))"

partial_function (option) fdt_find_loop :: "kstate \<Rightarrow> u64 \<Rightarrow> u64 \<Rightarrow> u64 option" where
  "fdt_find_loop s name lst =
     (let current = be_to_le s 32 lst
      in if current = FDT_END then Some 0
         else if current = FDT_BEGIN_NODE then do {
           (c, temp_name) \<leftarrow> match_name s (lst + 4) name;
           if (ld8 s c = 0 \<or> ld8 s c = AT) \<and> ld8 s temp_name = 0 then Some lst
           else do { c \<leftarrow> skip_string s c; fdt_find_loop s name (align4 (c + 3)) } }
         else if current = FDT_END_NODE then fdt_find_loop s name (lst + 4)
         else if current = FDT_PROP then fdt_find_loop s name (skip_prop s lst)
         else if current = FDT_NOP then fdt_find_loop s name (lst + 4)
         else fdt_find_loop s name lst)"

definition fdt_find :: "kstate \<Rightarrow> fdt_t \<Rightarrow> u64 \<Rightarrow> u64 \<Rightarrow> u64 option" where
  "fdt_find s fdt name lst = do {
     lst \<leftarrow> (if lst = 0 then Some (structure_block fdt) else resume_after s lst);
     fdt_find_loop s name lst }"

partial_function (option) match_step :: "kstate \<Rightarrow> u64 \<Rightarrow> u64 \<Rightarrow> (u64 \<times> u64) option" where
  "match_step s c temp_name =
     (if ld8 s c \<noteq> 0 \<and> ld8 s temp_name \<noteq> 0 \<and> ld8 s temp_name \<noteq> SLASH
      then if ld8 s c \<noteq> ld8 s temp_name then Some (c, temp_name) else match_step s (c + 1) (temp_name + 1)
      else Some (c, temp_name))"

partial_function (option) fdt_path_loop :: "kstate \<Rightarrow> u64 \<Rightarrow> u64 \<Rightarrow> u64 \<Rightarrow> u64 \<Rightarrow> u64 option" where
  "fdt_path_loop s path lst depth intended_depth =
     (let current = be_to_le s 32 lst
      in if current = FDT_END then Some 0
         else if current = FDT_BEGIN_NODE then do {
           (c, temp_name) \<leftarrow> match_step s (lst + 4) path;
           if ld8 s c = 0 \<and> ld8 s temp_name = 0 then Some lst
           else
             let (path, intended_depth) =
                   (if ld8 s c = 0 \<and> ld8 s temp_name = SLASH then (temp_name + 1, intended_depth + 1)
                    else (path, intended_depth))
             in do { c \<leftarrow> skip_string s c; fdt_path_loop s path (align4 (c + 3)) (depth + 1) intended_depth } }
         else if current = FDT_END_NODE then
           if depth - 1 < intended_depth then Some 0
           else fdt_path_loop s path (lst + 4) (depth - 1) intended_depth
         else if current = FDT_PROP then fdt_path_loop s path (skip_prop s lst) depth intended_depth
         else if current = FDT_NOP then fdt_path_loop s path (lst + 4) depth intended_depth
         else fdt_path_loop s path lst depth intended_depth)"

definition fdt_path :: "kstate \<Rightarrow> fdt_t \<Rightarrow> u64 \<Rightarrow> u64 \<Rightarrow> u64 option" where
  "fdt_path s fdt path lst =
     (if lst = 0 \<or> ld8 s path = SLASH
      then fdt_path_loop s (if ld8 s path = SLASH then path + 1 else path) (structure_block fdt) 1 1
      else do { lst \<leftarrow> resume_after s lst; fdt_path_loop s path lst 1 1 })"

subsection \<open>Node addresses and properties\<close>

partial_function (option) skip_to_at :: "kstate \<Rightarrow> u64 \<Rightarrow> u64 option" where
  "skip_to_at s c = (if ld8 s c = 0 then Some c else if ld8 s c = AT then Some (c + 1) else skip_to_at s (c + 1))"

definition digit_value :: "u64 \<Rightarrow> u64" where
  "digit_value v =
     (if 48 \<le> v \<and> v \<le> 57 then v - 48
      else if 97 \<le> v \<and> v \<le> 102 then v - 97 + 0xa
      else if 65 \<le> v \<and> v \<le> 70 then v - 65 + 0xA
      else v)"

partial_function (option) addr_loop :: "kstate \<Rightarrow> u64 \<Rightarrow> u64 \<Rightarrow> u64 option" where
  "addr_loop s c result =
     (if ld8 s c \<noteq> 0 then addr_loop s (c + 1) (push_bit 4 result OR digit_value (ucast (ld8 s c))) else Some result)"

definition fdt_get_node_addr :: "kstate \<Rightarrow> u64 \<Rightarrow> u64 option" where
  "fdt_get_node_addr s node =
     (if be_to_le s 32 node \<noteq> FDT_BEGIN_NODE then Some 0
      else do {
        c \<leftarrow> skip_to_at s (node + 4);
        if ld8 s c = 0 then Some 0 else addr_loop s c 0 })"

record fdt_property =
  fp_len :: u32
  fp_key :: u64
  fp_data :: u64

definition no_property :: fdt_property where "no_property = \<lparr>fp_len = 0, fp_key = 0, fp_data = 0\<rparr>"

partial_function (option) property_loop :: "kstate \<Rightarrow> fdt_t \<Rightarrow> u64 \<Rightarrow> u64 \<Rightarrow> u64 \<Rightarrow> fdt_property option" where
  "property_loop s fdt key node depth =
     (let current = be_to_le s 32 node
      in if current = FDT_END then Some no_property
         else if current = FDT_BEGIN_NODE then do {
           c \<leftarrow> skip_string s (node + 4);
           property_loop s fdt key (align4 (c + 3)) (depth + 1) }
         else if current = FDT_END_NODE then
           if depth - 1 = 0 then Some no_property else property_loop s fdt key (node + 4) (depth - 1)
         else if current = FDT_PROP then
           let nm = strings_block fdt + ucast (prop_name_offset s node)
           in do {
             r \<leftarrow> (if depth = 1 then strcmp s nm key else Some 1);
             if r = 0 then Some \<lparr>fp_len = prop_len s node, fp_key = nm, fp_data = node + 12\<rparr>
             else property_loop s fdt key (skip_prop s node) depth }
         else if current = FDT_NOP then property_loop s fdt key (node + 4) depth
         else property_loop s fdt key node depth)"

definition fdt_get_property :: "kstate \<Rightarrow> fdt_t \<Rightarrow> u64 \<Rightarrow> u64 \<Rightarrow> fdt_property option" where
  "fdt_get_property s fdt node key =
     (let node = (if node = 0 then structure_block fdt else node)
      in if be_to_le s 32 node \<noteq> FDT_BEGIN_NODE then Some no_property
         else property_loop s fdt key node 0)"

subsection \<open>The listing of the tree\<close>

text \<open>The string at \<open>p\<close>, for \<^verbatim>\<open>%s\<close>.\<close>

partial_function (option) mem_string :: "kstate \<Rightarrow> u64 \<Rightarrow> string option" where
  "mem_string s p =
     (if ld8 s p = 0 then Some [] else do { t \<leftarrow> mem_string s (p + 1); Some (to_char (ucast (ld8 s p)) # t) })"

partial_function (option) print_string :: "u64 \<Rightarrow> kstate \<Rightarrow> (u64 \<times> kstate) option" where
  "print_string c s =
     (if ld8 s c \<noteq> 0 then do {
        s' \<leftarrow> console_printf ''%c'' [VWord (ucast (ld8 s c))] s;
        print_string (c + 1) s' }
      else Some (c, s))"

primrec print_bytes :: "u64 \<Rightarrow> nat list \<Rightarrow> kstate \<Rightarrow> kstate option" where
  "print_bytes p [] s = Some s"
| "print_bytes p (i # is) s = do {
     s \<leftarrow> console_printf ''%c'' [VWord (ucast (ld8 s (p + of_nat i)))] s;
     print_bytes p is s }"

definition put_indent :: "int \<Rightarrow> kstate \<Rightarrow> kstate" where
  "put_indent indent s = (console_puts ''    '' ^^ nat indent) s"

definition LF :: char where "LF = CHR 0x0A"

definition dump_header :: "u64 \<Rightarrow> kstate \<Rightarrow> kstate option" where
  "dump_header h s = console_printf
     (''Header at %p:'' @ LF # ''    magic: 0x%lx'' @ LF # ''    total size: 0x%lx'' @ LF #
      ''    structure offset: 0x%lx'' @ LF # ''    strings offset: 0x%lx'' @ LF #
      ''    memory reserved map offset: 0x%lx'' @ LF # ''    version: 0x%lx'' @ LF #
      ''    last compatible version: 0x%lx'' @ LF # ''    boot cpu id: 0x%lx'' @ LF #
      ''    strings size: 0x%lx'' @ LF # ''    structure size: 0x%lx'' @ [LF])
     (VWord h # map (\<lambda>i. VWord (fdt_header_field s h i)) [0, 1, 2, 3, 4, 5, 6, 7, 8, 9]) s"

partial_function (option) dump_reserved :: "u64 \<Rightarrow> kstate \<Rightarrow> kstate option" where
  "dump_reserved entry s =
     (let addr = be_to_le s 64 entry; sz = be_to_le s 64 (entry + 8)
      in if addr \<noteq> 0 \<or> sz \<noteq> 0 then do {
           s \<leftarrow> console_printf (''    reserved %lx-%lx (%lx bytes)'' @ [LF]) [VWord addr, VWord (addr + sz), VWord sz] s;
           dump_reserved (entry + 16) s }
         else Some s)"

definition dump_prop :: "fdt_t \<Rightarrow> int \<Rightarrow> u64 \<Rightarrow> kstate \<Rightarrow> (u64 \<times> int \<times> kstate) option" where
  "dump_prop fdt indent ptr s = do {
     let s = put_indent indent s;
     let len = prop_len s ptr;
     nm \<leftarrow> mem_string s (strings_block fdt + ucast (prop_name_offset s ptr));
     s \<leftarrow> console_printf ''property %s = '' [VStr nm] s;
     let data = ptr + 12;
     s \<leftarrow> (if ld8 s data = 0
           then console_printf (''0x%lx (0x%x bytes)'' @ [LF]) [VWord (be_to_le s (ucast (len * 8)) data), VWord (ucast len)] s
           else do {
             s \<leftarrow> print_bytes data [0..<unat len] s;
             console_printf ('' (0x%x bytes)'' @ [LF]) [VWord (ucast len)] s });
     Some (skip_prop s ptr, indent, s) }"

definition dump_step :: "fdt_t \<Rightarrow> bool \<Rightarrow> u64 \<Rightarrow> u64 \<Rightarrow> int \<Rightarrow> kstate \<Rightarrow> (u64 \<times> int \<times> kstate) option" where
  "dump_step fdt node current ptr indent s =
     (if current = FDT_BEGIN_NODE then do {
        let s = put_indent indent s;
        let indent = indent + 1;
        (c, s) \<leftarrow> (if node \<or> indent \<noteq> 1 then do {
                     (c, s) \<leftarrow> print_string (ptr + 4) s;
                     Some (c, console_puts ('':'' @ [LF]) s) }
                   else Some (ptr + 4, s));
        Some (align4 (c + 4), indent, s) }
      else if current = FDT_END_NODE then Some (ptr + 4, indent - 1, s)
      else if current = FDT_PROP then dump_prop fdt indent ptr s
      else if current = FDT_NOP then Some (ptr + 4, indent, s)
      else Some (ptr, indent, s))"

partial_function (option) dump_loop :: "fdt_t \<Rightarrow> bool \<Rightarrow> u64 \<Rightarrow> int \<Rightarrow> kstate \<Rightarrow> kstate option" where
  "dump_loop fdt node ptr indent s = do {
     (ptr, indent, s) \<leftarrow> dump_step fdt node (be_to_le s 32 ptr) ptr indent s;
     if be_to_le s 32 ptr \<noteq> FDT_END \<and> indent > 0 then dump_loop fdt node ptr indent s else Some s }"

definition dump_fdt :: "fdt_t \<Rightarrow> u64 \<Rightarrow> kstate \<Rightarrow> kstate option" where
  "dump_fdt fdt node s =
     (if fdt_header fdt = 0 then Some (console_puts (''Invalid flat device tree'' @ [LF]) s)
      else do {
        s \<leftarrow> (if node = 0 then do {
                s \<leftarrow> dump_header (fdt_header fdt) s;
                s \<leftarrow> dump_reserved (memory_reservation_block fdt) (console_puts (''Memory reserved map:'' @ [LF]) s);
                Some (console_puts (''End of memory reserved map'' @ LF # ''root:'' @ [LF]) s) }
              else Some s);
        dump_loop fdt (node \<noteq> 0) (if node \<noteq> 0 then node else structure_block fdt) 0 s })"

end
