(* ===== verification/Fdt_Spec.thy ===== *)
theory Fdt_Spec
  imports Fdt
begin

text \<open>
  What the device tree functions compute. A structure block is a list of tokens laid out in memory as the
  devicetree format prescribes, each token at a multiple of four; a node of the tree is a sequence of
  tokens. The searches of \<^verbatim>\<open>fdt.c\<close> are compared with searches of these lists, and are shown to return.
\<close>

subsection \<open>Tokens in memory\<close>

datatype token = Tbegin "u8 list" | Tend | Tprop u32 "u8 list" | Tnop

fun next_token :: "u64 \<Rightarrow> token \<Rightarrow> u64" where
  "next_token p (Tbegin nm) = align4 (p + 4 + of_nat (length nm) + 1 + 3)"
| "next_token p (Tprop off d) = align4 (p + 12 + of_nat (length d) + 3)"
| "next_token p Tend = p + 4"
| "next_token p Tnop = p + 4"

fun token_at :: "kstate \<Rightarrow> u64 \<Rightarrow> token \<Rightarrow> bool" where
  "token_at s p (Tbegin nm) \<longleftrightarrow> be_to_le s 32 p = FDT_BEGIN_NODE \<and> str_at s (p + 4) nm"
| "token_at s p (Tprop off d) \<longleftrightarrow> be_to_le s 32 p = FDT_PROP \<and> be_to_le s 32 (p + 4) = of_nat (length d) \<and>
     length d < 2 ^ 32 \<and> be_to_le s 32 (p + 8) = ucast off \<and> (\<forall>i<length d. ld8 s (p + 12 + of_nat i) = d ! i)"
| "token_at s p Tend \<longleftrightarrow> be_to_le s 32 p = FDT_END_NODE"
| "token_at s p Tnop \<longleftrightarrow> be_to_le s 32 p = FDT_NOP"

primrec tokens_at :: "kstate \<Rightarrow> u64 \<Rightarrow> token list \<Rightarrow> bool" where
  "tokens_at s p [] \<longleftrightarrow> True"
| "tokens_at s p (t # ts) \<longleftrightarrow> token_at s p t \<and> tokens_at s (next_token p t) ts"

definition block_at :: "kstate \<Rightarrow> u64 \<Rightarrow> token list \<Rightarrow> bool" where
  "block_at s p ts \<longleftrightarrow> tokens_at s p ts \<and> be_to_le s 32 (foldl next_token p ts) = FDT_END"

lemma block_at_simps [simp]:
  "block_at s p [] \<longleftrightarrow> be_to_le s 32 p = FDT_END"
  "block_at s p (t # ts) \<longleftrightarrow> token_at s p t \<and> block_at s (next_token p t) ts"
  by (auto simp: block_at_def)

lemma tokens_at_append [simp]:
  "tokens_at s p (ts @ us) \<longleftrightarrow> tokens_at s p ts \<and> tokens_at s (foldl next_token p ts) us"
  by (induction ts arbitrary: p) auto

lemma ucast_of_nat_small: "n < 2 ^ 32 \<Longrightarrow> (ucast (ucast (of_nat n :: u64) :: u32) :: u64) = of_nat n"
  by (simp add: word_unat_eq_iff unsigned_ucast_eq unsigned_take_bit_eq unat_of_nat64 take_bit_nat_eq_self)

lemma skip_prop_eq: "token_at s p (Tprop off d) \<Longrightarrow> skip_prop s p = next_token p (Tprop off d)"
  by (simp add: skip_prop_def prop_len_def ucast_of_nat_small)

lemma skip_string_eq: "str_at s c cs \<Longrightarrow> skip_string s c = Some (c + of_nat (length cs) + 1)"
proof (induction cs arbitrary: c)
  case Nil
  then show ?case by (simp add: skip_string.simps)
next
  case (Cons x cs)
  then show ?case by (subst skip_string.simps) (auto simp: add_ac)
qed

subsection \<open>Node names\<close>

text \<open>The name of a node up to its unit address.\<close>

definition base_name :: "u8 list \<Rightarrow> u8 list" where "base_name nm = takeWhile (\<lambda>x. x \<noteq> AT) nm"

lemma match_name_eq:
  "str_at s c nm \<Longrightarrow> str_at s t cs \<Longrightarrow> AT \<notin> set cs \<Longrightarrow>
     \<exists>c' nm' t'. match_name s c t = Some (c', t') \<and> str_at s c' nm' \<and> c' + of_nat (length nm') = c + of_nat (length nm) \<and>
       ((ld8 s c' = 0 \<or> ld8 s c' = AT) \<and> ld8 s t' = 0 \<longleftrightarrow> base_name nm = cs)"
proof (induction nm arbitrary: c t cs)
  case Nil
  then show ?case
    by (intro exI [of _ c] exI [of _ "[]"] exI [of _ t], cases cs) (auto simp: match_name.simps [of s c t] base_name_def)
next
  case (Cons x nm)
  show ?case
  proof (cases "\<exists>cs'. cs = x # cs' \<and> x \<noteq> AT")
    case True
    then obtain cs' where cs: "cs = x # cs'" "x \<noteq> AT" by auto
    then obtain c' nm' t' where IH: "match_name s (c + 1) (t + 1) = Some (c', t')" "str_at s c' nm'"
      "c' + of_nat (length nm') = c + 1 + of_nat (length nm)"
      "(ld8 s c' = 0 \<or> ld8 s c' = AT) \<and> ld8 s t' = 0 \<longleftrightarrow> base_name nm = cs'"
      using Cons.IH [of "c + 1" "t + 1" cs'] Cons.prems by auto
    have "match_name s c t = match_name s (c + 1) (t + 1)"
      using Cons.prems cs by (subst match_name.simps) simp
    then show ?thesis using IH cs by (intro exI [of _ c'] exI [of _ nm'] exI [of _ t']) (auto simp: base_name_def add_ac)
  next
    case False
    have "match_name s c t = Some (c, t)"
      using Cons.prems False by (subst match_name.simps) (cases cs; auto)
    moreover have "(ld8 s c = 0 \<or> ld8 s c = AT) \<and> ld8 s t = 0 \<longleftrightarrow> base_name (x # nm) = cs"
      using Cons.prems False by (cases cs) (auto simp: base_name_def)
    ultimately show ?thesis using Cons.prems(1) by blast
  qed
qed

subsection \<open>Finding nodes\<close>

text \<open>The nodes of a block, with their addresses, in the order of the block.\<close>

fun nodes :: "u64 \<Rightarrow> token list \<Rightarrow> (u64 \<times> u8 list) list" where
  "nodes p [] = []"
| "nodes p (Tbegin nm # ts) = (p, nm) # nodes (next_token p (Tbegin nm)) ts"
| "nodes p (Tend # ts) = nodes (next_token p Tend) ts"
| "nodes p (Tprop off d # ts) = nodes (next_token p (Tprop off d)) ts"
| "nodes p (Tnop # ts) = nodes (next_token p Tnop) ts"

definition first_node :: "u8 list \<Rightarrow> (u64 \<times> u8 list) list \<Rightarrow> u64" where
  "first_node cs ns = (case find (\<lambda>(p, nm). base_name nm = cs) ns of Some (p, _) \<Rightarrow> p | None \<Rightarrow> 0)"

lemma first_node_simps [simp]:
  "first_node cs [] = 0"
  "first_node cs ((p, nm) # ns) = (if base_name nm = cs then p else first_node cs ns)"
  by (simp_all add: first_node_def)

lemma fdt_find_loop_eq:
  "block_at s p ts \<Longrightarrow> str_at s name cs \<Longrightarrow> AT \<notin> set cs \<Longrightarrow> fdt_find_loop s name p = Some (first_node cs (nodes p ts))"
proof (induction p ts rule: nodes.induct)
  case (1 p)
  then show ?case by (subst fdt_find_loop.simps) simp
next
  case (2 p nm ts)
  have at: "be_to_le s 32 p = FDT_BEGIN_NODE" "str_at s (p + 4) nm" using 2(2) by simp_all
  obtain c nm' t where m: "match_name s (p + 4) name = Some (c, t)" "str_at s c nm'"
    "c + of_nat (length nm') = p + 4 + of_nat (length nm)"
    "(ld8 s c = 0 \<or> ld8 s c = AT) \<and> ld8 s t = 0 \<longleftrightarrow> base_name nm = cs"
    using match_name_eq [OF at(2) 2(3,4)] by blast
  have "fdt_find_loop s name (next_token p (Tbegin nm)) = Some (first_node cs (nodes (next_token p (Tbegin nm)) ts))"
    by (rule 2(1)) (use 2(2-4) in simp_all)
  then show ?case
    using at m skip_string_eq [OF m(2)] by (subst fdt_find_loop.simps) (simp add: fdt_tokens)
next
  case (3 p ts)
  then show ?case by (subst fdt_find_loop.simps) (simp add: fdt_tokens)
next
  case (4 p off d ts)
  then have "token_at s p (Tprop off d)" by simp
  then show ?case
    using 4 skip_prop_eq [of s p off d] by (subst fdt_find_loop.simps) (simp add: fdt_tokens)
next
  case (5 p ts)
  then show ?case by (subst fdt_find_loop.simps) (simp add: fdt_tokens)
qed

text \<open>C21. \<^verbatim>\<open>fdt_find\<close> returns on every well-formed structure block: from the start of the tree it gives the
  first node whose name up to the unit address is the given one, and NULL when there is none.\<close>

theorem fdt_find_first:
  assumes "block_at s (structure_block fdt) ts" "str_at s name cs" "AT \<notin> set cs"
  shows "fdt_find s fdt name 0 = Some (first_node cs (nodes (structure_block fdt) ts))"
  using fdt_find_loop_eq [OF assms] by (simp add: fdt_find_def)

subsection \<open>Iterating over nodes of one name\<close>

lemma align4_diff: "align4 a = a - a mod 4"
proof -
  have three: "(3 :: u64) = mask 2" by (simp add: mask_eq_exp_minus_1)
  have "a AND NOT 3 = a AND NOT (take_bit 2 a)"
    unfolding three by (rule bit_word_eqI) (auto simp: bit_and_iff bit_not_iff bit_take_bit_iff bit_mask_iff)
  also have "\<dots> = a - take_bit 2 a" by (rule disjunctive_diff [symmetric]) (simp add: bit_take_bit_iff)
  finally show ?thesis by (simp add: align4_def take_bit_eq_mod)
qed

lemma align4_resume: "unat c mod 4 \<noteq> 0 \<Longrightarrow> align4 (c + 4) = align4 (c + 3)"
proof -
  assume r: "unat c mod 4 \<noteq> 0"
  have m: "unat (c + of_nat n) mod 4 = (unat c + n) mod 4" if "n < 5" for n
    using that by (simp add: unat_word_ariths unat_of_nat mod_mod_cancel)
  have "(unat c + 4) mod 4 = (unat c + 3) mod 4 + 1" using r by presburger
  then have "unat ((c + 4) mod 4) = unat ((c + 3) mod 4) + 1" using m [of 3] m [of 4] by (simp add: unat_mod)
  then have "(c + 4) mod 4 = (c + 3) mod 4 + 1" by (simp add: word_unat_eq_iff unat_word_ariths unat_mod)
  then show ?thesis by (simp add: align4_diff)
qed

text \<open>The place where the search goes on after a found node is the token after its name, unless the name
  with its NUL ends at a multiple of four.\<close>

definition resumable :: "u64 \<times> u8 list \<Rightarrow> bool" where
  "resumable = (\<lambda>(a, nm). a \<noteq> 0 \<and> unat (a + 4 + of_nat (length nm) + 1) mod 4 \<noteq> 0)"

lemma resume_after_eq:
  assumes "token_at s a (Tbegin nm)" "resumable (a, nm)"
  shows "resume_after s a = Some (next_token a (Tbegin nm))"
  using assms skip_string_eq [of s "a + 4" nm] align4_resume [of "a + 4 + of_nat (length nm) + 1"]
  by (simp add: resume_after_def resumable_def)

lemma resume_skips_word:
  assumes "token_at s a (Tbegin nm)" "unat (a + 4 + of_nat (length nm) + 1) mod 4 = 0"
  shows "resume_after s a = Some (next_token a (Tbegin nm) + 4)"
proof -
  let ?c = "a + 4 + of_nat (length nm) + 1"
  have m: "unat (?c + of_nat n) mod 4 = n mod 4" if "n < 5" for n
  proof -
    have "unat (?c + of_nat n) mod 4 = (unat ?c + n) mod 4"
      using that unat_word_ariths(1) [of ?c "of_nat n"] by (simp add: unat_of_nat mod_mod_cancel)
    also have "\<dots> = n mod 4" using assms(2) by presburger
    finally show ?thesis .
  qed
  have "(?c + 4) mod 4 = 0" "(?c + 3) mod 4 = 3"
    using m [of 4] m [of 3] by (simp_all add: word_unat_eq_iff unat_mod)
  then have "align4 (?c + 4) = ?c + 4" "align4 (?c + 3) = ?c" by (simp_all only: align4_diff) simp_all
  then show ?thesis using assms(1) skip_string_eq [of s "a + 4" nm] by (simp add: resume_after_def)
qed

lemma first_node_split:
  "block_at s p ts \<Longrightarrow> \<forall>n\<in>set (nodes p ts). fst n \<noteq> 0 \<Longrightarrow> first_node cs (nodes p ts) \<noteq> 0 \<Longrightarrow>
     \<exists>nm ts'. token_at s (first_node cs (nodes p ts)) (Tbegin nm) \<and>
       block_at s (next_token (first_node cs (nodes p ts)) (Tbegin nm)) ts' \<and> length ts' < length ts \<and>
       filter (\<lambda>n. base_name (snd n) = cs) (nodes p ts) = (first_node cs (nodes p ts), nm) #
         filter (\<lambda>n. base_name (snd n) = cs) (nodes (next_token (first_node cs (nodes p ts)) (Tbegin nm)) ts') \<and>
       set (nodes (next_token (first_node cs (nodes p ts)) (Tbegin nm)) ts') \<subseteq> set (nodes p ts)"
proof (induction p ts rule: nodes.induct)
  case (2 p nm ts)
  show ?case
  proof (cases "base_name nm = cs")
    case True
    then show ?thesis using 2(2) by (intro exI [of _ nm] exI [of _ ts]) auto
  next
    case False
    then show ?thesis using 2(1) 2(2-4) by (auto intro: less_SucI)
  qed
qed (auto intro: less_SucI)

subsection \<open>Properties of a node\<close>

text \<open>A node: its name, its properties (name offset and data), its children; and its tokens.\<close>

datatype fdt_node = Node "u8 list" "(u32 \<times> u8 list) list" "fdt_node list"

fun encode :: "fdt_node \<Rightarrow> token list" where
  "encode (Node nm ps ks) = Tbegin nm # map (\<lambda>(off, d). Tprop off d) ps @ concat (map encode ks) @ [Tend]"

fun height :: "fdt_node \<Rightarrow> nat" where
  "height (Node nm ps ks) = Suc (Max (insert 0 (set (map height ks))))"

lemma height_child: "k \<in> set ks \<Longrightarrow> height k < height (Node nm ps ks)"
  by (auto simp: less_Suc_eq_le)

definition skip_tokens :: "kstate \<Rightarrow> fdt_t \<Rightarrow> u64 \<Rightarrow> u64 \<Rightarrow> u64 \<Rightarrow> token list \<Rightarrow> bool" where
  "skip_tokens s fdt key d p ts \<longleftrightarrow> property_loop s fdt key p d = property_loop s fdt key (foldl next_token p ts) d"

lemma skip_props:
  "tokens_at s p (map (\<lambda>(off, d). Tprop off d) ps) \<Longrightarrow> d \<noteq> 1 \<Longrightarrow>
     skip_tokens s fdt key d p (map (\<lambda>(off, d). Tprop off d) ps)"
proof (induction ps arbitrary: p)
  case (Cons a ps)
  obtain off b where a: "a = (off, b)" by (cases a)
  have at: "token_at s p (Tprop off b)" "tokens_at s (next_token p (Tprop off b)) (map (\<lambda>(off, d). Tprop off d) ps)"
    using Cons.prems(1) a by auto
  have "property_loop s fdt key p d = property_loop s fdt key (next_token p (Tprop off b)) d"
    using at(1) Cons.prems(2) skip_prop_eq [OF at(1)] by (subst property_loop.simps) (simp add: fdt_tokens)
  then show ?case using Cons.IH [OF at(2) Cons.prems(2)] a by (simp add: skip_tokens_def)
qed (simp add: skip_tokens_def)

lemma skip_concat:
  "(\<And>j q. j \<in> set js \<Longrightarrow> tokens_at s q (encode j) \<Longrightarrow> skip_tokens s fdt key d q (encode j)) \<Longrightarrow>
     tokens_at s q (concat (map encode js)) \<Longrightarrow> skip_tokens s fdt key d q (concat (map encode js))"
proof (induction js arbitrary: q)
  case (Cons j js)
  then have "skip_tokens s fdt key d q (encode j)" by simp
  then show ?case using Cons.IH [of "foldl next_token q (encode j)"] Cons.prems by (simp add: skip_tokens_def)
qed (simp add: skip_tokens_def)

lemma skip_node:
  "tokens_at s p (encode n) \<Longrightarrow> 1 \<le> unat d \<Longrightarrow> unat d + height n < 2 ^ 64 \<Longrightarrow> skip_tokens s fdt key d p (encode n)"
proof (induction n arbitrary: p d rule: encode.induct)
  case (1 nm ps ks)
  let ?ps = "map (\<lambda>(off, d). Tprop off d) ps"
  let ?p1 = "next_token p (Tbegin nm)"
  let ?p2 = "foldl next_token ?p1 ?ps"
  let ?p3 = "foldl next_token ?p2 (concat (map encode ks))"
  have d1: "unat (d + 1) = unat d + 1" using 1(4) by (simp add: unat_word_ariths)
  then have dne: "d + 1 \<noteq> 1" "d \<noteq> 0" using 1(3) by auto
  have at: "token_at s p (Tbegin nm)" "tokens_at s ?p1 ?ps" "tokens_at s ?p2 (concat (map encode ks))" "token_at s ?p3 Tend"
    using 1(2) by simp_all
  have "property_loop s fdt key p d = property_loop s fdt key ?p1 (d + 1)"
    using at(1) skip_string_eq [of s "p + 4" nm] by (subst property_loop.simps) (simp add: fdt_tokens)
  also have "\<dots> = property_loop s fdt key ?p2 (d + 1)"
    using skip_props [OF at(2) dne(1)] by (simp add: skip_tokens_def)
  also have "\<dots> = property_loop s fdt key ?p3 (d + 1)"
  proof -
    have "skip_tokens s fdt key (d + 1) q (encode j)" if "j \<in> set ks" "tokens_at s q (encode j)" for j q
      using 1(1) [OF that] height_child [OF that(1), of nm ps] 1(4) d1 by simp
    from skip_concat [OF this at(3)] show ?thesis by (simp add: skip_tokens_def)
  qed
  also have "\<dots> = property_loop s fdt key (next_token ?p3 Tend) d"
    using at(4) dne(2) by (subst property_loop.simps) (simp add: fdt_tokens)
  finally show ?case by (simp add: skip_tokens_def)
qed

lemma ucast_of_nat_32: "(ucast (of_nat n :: u64) :: u32) = of_nat n"
  by (simp add: word_unat_eq_iff unsigned_ucast_eq unat_of_nat take_bit_eq_mod mod_mod_cancel)

lemma ucast_up_down_32: "(ucast (ucast (off :: u32) :: u64) :: u32) = off"
  by (rule bit_word_eqI) (simp add: bit_ucast_iff)

lemma prop_fields:
  assumes "token_at s p (Tprop off d)"
  shows "prop_len s p = of_nat (length d)" "prop_name_offset s p = off"
  using assms by (simp_all add: prop_len_def prop_name_offset_def ucast_of_nat_32 ucast_up_down_32)

text \<open>The result for the properties \<open>ps\<close> of a node and the name \<open>kc\<close>; \<open>pname\<close> gives the names at the offsets.\<close>

definition property_result :: "kstate \<Rightarrow> fdt_t \<Rightarrow> (u32 \<Rightarrow> u8 list) \<Rightarrow> u8 list \<Rightarrow> (u32 \<times> u8 list) list \<Rightarrow> fdt_property \<Rightarrow> bool" where
  "property_result s fdt pname kc ps r = (case find (\<lambda>(off, d). pname off = kc) ps of
     None \<Rightarrow> r = no_property
   | Some (off, d) \<Rightarrow> fp_len r = of_nat (length d) \<and> fp_key r = strings_block fdt + ucast off \<and>
       (\<forall>i<length d. ld8 s (fp_data r + of_nat i) = d ! i))"

lemma property_loop_props:
  assumes key: "str_at s key kc"
  shows "tokens_at s p (map (\<lambda>(off, d). Tprop off d) ps) \<Longrightarrow>
    \<forall>(off, d)\<in>set ps. str_at s (strings_block fdt + ucast off) (pname off) \<Longrightarrow>
    property_loop s fdt key (foldl next_token p (map (\<lambda>(off, d). Tprop off d) ps)) 1 = Some no_property \<Longrightarrow>
    \<exists>r. property_loop s fdt key p 1 = Some r \<and> property_result s fdt pname kc ps r"
proof (induction ps arbitrary: p)
  case (Cons a ps)
  obtain off b where a: "a = (off, b)" by (cases a)
  let ?nm = "strings_block fdt + ucast off"
  have at: "token_at s p (Tprop off b)" using Cons.prems(1) a by auto
  have "str_at s ?nm (pname off)" using Cons.prems(2) a by simp
  from strcmp_eq [OF this key] obtain r where r: "strcmp s ?nm key = Some r" "r = 0 \<longleftrightarrow> pname off = kc" by auto
  have step: "property_loop s fdt key p 1 =
      (if r = 0 then Some \<lparr>fp_len = of_nat (length b), fp_key = ?nm, fp_data = p + 12\<rparr>
       else property_loop s fdt key (next_token p (Tprop off b)) 1)"
    using at r(1) skip_prop_eq [OF at] prop_fields [OF at] by (subst property_loop.simps) (simp add: fdt_tokens)
  show ?case
  proof (cases "r = 0")
    case True
    then show ?thesis using at r(2) a unfolding step by (simp add: property_result_def)
  next
    case False
    then show ?thesis using Cons.IH [of "next_token p (Tprop off b)"] Cons.prems a r(2) unfolding step
      by (simp add: property_result_def)
  qed
qed (simp add: property_result_def)

lemma get_property_eq:
  assumes "tokens_at s p (encode (Node nm ps ks))" "p \<noteq> 0" "str_at s key kc"
    and "\<forall>(off, d)\<in>set ps. str_at s (strings_block fdt + ucast off) (pname off)"
    and "height (Node nm ps ks) < 2 ^ 63"
  shows "\<exists>r. fdt_get_property s fdt p key = Some r \<and> property_result s fdt pname kc ps r"
proof -
  let ?ps = "map (\<lambda>(off, d). Tprop off d) ps"
  let ?p1 = "next_token p (Tbegin nm)"
  let ?p2 = "foldl next_token ?p1 ?ps"
  let ?p3 = "foldl next_token ?p2 (concat (map encode ks))"
  have at: "token_at s p (Tbegin nm)" "tokens_at s ?p1 ?ps" "tokens_at s ?p2 (concat (map encode ks))" "token_at s ?p3 Tend"
    using assms(1) by simp_all
  have "skip_tokens s fdt key 1 q (encode j)" if "j \<in> set ks" "tokens_at s q (encode j)" for j q
  proof -
    have "height j < 2 ^ 63" using height_child [OF that(1), of nm ps] assms(5) by linarith
    then show ?thesis using skip_node [OF that(2), of 1] by simp
  qed
  from skip_concat [OF this at(3)] have "property_loop s fdt key ?p2 1 = property_loop s fdt key ?p3 1"
    by (simp add: skip_tokens_def)
  also have "\<dots> = Some no_property" using at(4) by (subst property_loop.simps) (simp add: fdt_tokens)
  finally have r: "\<exists>r. property_loop s fdt key ?p1 1 = Some r \<and> property_result s fdt pname kc ps r"
    by (rule property_loop_props [OF assms(3) at(2) assms(4)])
  have "property_loop s fdt key p 0 = property_loop s fdt key ?p1 1"
    using at(1) skip_string_eq [of s "p + 4" nm] by (subst property_loop.simps) (simp add: fdt_tokens)
  then show ?thesis using r assms(2) at(1) by (simp add: fdt_get_property_def Let_def)
qed

text \<open>C22. \<^verbatim>\<open>fdt_get_property\<close> returns on every well-formed node: with the length, name and data of the node's own
  first property of the given name (a property of a child does not count), and with the empty
  property when the node has none.\<close>

theorem fdt_get_property_spec:
  assumes "tokens_at s p (encode (Node nm ps ks))" "p \<noteq> 0" "str_at s key kc"
    and "\<forall>(off, d)\<in>set ps. str_at s (strings_block fdt + ucast off) (pname off)"
    and "height (Node nm ps ks) < 2 ^ 63"
  shows "\<exists>r. fdt_get_property s fdt p key = Some r \<and> property_result s fdt pname kc ps r"
  by (rule get_property_eq [OF assms])

text \<open>The path of the root.\<close>

lemma fdt_path_root:
  assumes "str_at s path [SLASH]" "token_at s (structure_block fdt) (Tbegin [])"
  shows "fdt_path s fdt path 0 = Some (structure_block fdt)"
  using assms by (simp add: fdt_path_def fdt_path_loop.simps [of s "path + 1"] match_step.simps [of s _ "path + 1"] fdt_tokens)

lemma be_to_le_cong:
  "(\<And>i. i < unat (z div 8) \<Longrightarrow> ld8 s (a + of_nat i) = ld8 t (b + of_nat i)) \<Longrightarrow> be_to_le s z a = be_to_le t z b"
  unfolding be_to_le_def Let_def by (rule fold_cong) auto

subsection \<open>Unit addresses\<close>

definition byte_of :: "char \<Rightarrow> u8" where "byte_of c = of_char c"
definition hex_chars :: string where "hex_chars = ''0123456789abcdef''"

lemma hex_digit_mem: "hex_digit (x mod 16) \<in> set hex_chars"
proof -
  have "unat (x mod 16) < length hex_chars" by (simp add: unat_mod hex_chars_def)
  from nth_mem [OF this] show ?thesis by (simp only: hex_digit_def hex_chars_def)
qed

lemma hex_digits_set: "set (hex_loop x acc) \<subseteq> set hex_chars \<union> set acc"
proof (induction x acc rule: hex_loop.induct)
  case (1 x acc)
  then show ?case using hex_digit_mem [of x] by (subst hex_loop.simps) auto
qed

lemma put_hex_set: "set (put_hex x) \<subseteq> set hex_chars"
  using hex_digits_set [of x "[]"] by (simp add: put_hex_def hex_chars_def)

lemma put_hex_value: "foldl (\<lambda>n c. 16 * n + hex_digit_value c) 0 (put_hex x) = unat x" "put_hex x \<noteq> []"
proof -
  show "foldl (\<lambda>n c. 16 * n + hex_digit_value c) 0 (put_hex x) = unat x"
    using hex_loop_value [of x "[]"] by (simp add: put_hex_def hex_digit_value_def)
  show "put_hex x \<noteq> []" using hex_loop_no_leading_zero [of x "[]"] by (simp add: put_hex_def)
qed

lemma digit_bytes:
  assumes "c \<in> set hex_chars"
  shows "byte_of c \<noteq> 0" "digit_value (ucast (byte_of c)) = of_nat (hex_digit_value c)" "hex_digit_value c < 16"
proof -
  have *: "list_all (\<lambda>c. byte_of c \<noteq> 0 \<and> digit_value (ucast (byte_of c)) = of_nat (hex_digit_value c) \<and> hex_digit_value c < 16) hex_chars"
    by code_simp
  show "byte_of c \<noteq> 0" "digit_value (ucast (byte_of c)) = of_nat (hex_digit_value c)" "hex_digit_value c < 16"
    using * assms by (auto simp: list_all_iff)
qed
lemma shift_in: "v < 16 \<Longrightarrow> push_bit 4 r OR of_nat v = (of_nat (16 * unat r + v) :: u64)"
proof -
  assume v: "v < 16"
  have "\<not> (bit (push_bit 4 r) n \<and> bit (of_nat v :: u64) n)" for n
  proof -
    have "take_bit 4 v = v" using v by (simp add: take_bit_nat_eq_self)
    then have "bit v n \<Longrightarrow> n < 4" by (metis bit_take_bit_iff)
    then show ?thesis by (auto simp: bit_push_bit_iff bit_of_nat_iff)
  qed
  then have "push_bit 4 r OR of_nat v = push_bit 4 r + (of_nat v :: u64)"
    by (metis disjunctive_add)
  also have "\<dots> = of_nat (16 * unat r + v)" by (simp add: push_bit_eq_mult mult.commute)
  finally show ?thesis .
qed

lemma addr_loop_eq:
  "str_at s c (map byte_of cs) \<Longrightarrow> set cs \<subseteq> set hex_chars \<Longrightarrow>
     addr_loop s c (of_nat n) = Some (of_nat (foldl (\<lambda>n c. 16 * n + hex_digit_value c) n cs))"
proof (induction cs arbitrary: c n)
  case Nil
  then show ?case by (simp add: addr_loop.simps)
next
  case (Cons x cs)
  have x: "x \<in> set hex_chars" using Cons.prems(2) by simp
  note d = digit_bytes [OF x]
  have "push_bit 4 (of_nat n) OR of_nat (hex_digit_value x) = (of_nat (16 * n + hex_digit_value x) :: u64)"
    using shift_in [OF d(3), of "of_nat n"] by simp
  then show ?case
    using Cons.IH [of "c + 1" "16 * n + hex_digit_value x"] Cons.prems d(1,2) by (subst addr_loop.simps) simp
qed

lemma skip_to_at_eq:
  "str_at s c (pre @ AT # ds) \<Longrightarrow> AT \<notin> set pre \<Longrightarrow>
     \<exists>c'. skip_to_at s c = Some c' \<and> str_at s c' ds"
proof (induction pre arbitrary: c)
  case Nil
  then show ?case by (auto simp: skip_to_at.simps [of s c])
next
  case (Cons x pre)
  then show ?case by (auto simp: skip_to_at.simps [of s c])
qed

text \<open>C27. The address of a node is read back as it is written: for a node whose name is some base name, an \<^verbatim>\<open>@\<close>
  and an address in the hexadecimal notation the console prints, \<^verbatim>\<open>fdt_get_node_addr\<close> gives that
  address, for all 64-bit addresses.\<close>

theorem node_addr_roundtrip:
  assumes "token_at s node (Tbegin (pre @ AT # map byte_of (put_hex addr)))" "AT \<notin> set pre"
  shows "fdt_get_node_addr s node = Some addr"
proof -
  obtain c where c: "skip_to_at s (node + 4) = Some c" "str_at s c (map byte_of (put_hex addr))"
    using skip_to_at_eq [of s "node + 4" pre] assms by auto
  have "ld8 s c \<noteq> 0"
    using c(2) put_hex_value(2) [of addr] by (cases "put_hex addr") auto
  then show ?thesis
    using c addr_loop_eq [OF c(2) put_hex_set, of 0] assms(1) put_hex_value(1) [of addr]
    by (simp add: fdt_get_node_addr_def)
qed

subsection \<open>A small tree\<close>

definition demo_blob :: "u8 list" where
  "demo_blob = [0, 0, 0, 1, 0, 0, 0, 0,
     0, 0, 0, 3, 0, 0, 0, 4, 0, 0, 0, 0, 0, 0, 0, 2,
     0, 0, 0, 1, 99, 112, 117, 64, 97, 0, 0, 0,
     0, 0, 0, 2, 0, 0, 0, 2, 0, 0, 0, 9]"

definition demo_dt :: kstate where
  "demo_dt = kstate0\<lparr>mem := (\<lambda>a.
     if 0x1000 \<le> a \<and> a < 0x1030 then demo_blob ! unat (a - 0x1000)
     else if 0x2000 \<le> a \<and> a < 0x2004 then [114, 101, 103, 0] ! unat (a - 0x2000)
     else if 0x3000 \<le> a \<and> a < 0x3004 then [99, 112, 117, 0] ! unat (a - 0x3000)
     else 0)\<rparr>"

definition demo_fdt :: fdt_t where
  "demo_fdt = \<lparr>fdt_header = 0x800, memory_reservation_block = 0x900, structure_block = 0x1000, strings_block = 0x2000\<rparr>"

definition demo_node :: fdt_node where
  "demo_node = Node [] [(0, [0, 0, 0, 2])] [Node [99, 112, 117, 64, 97] [] []]"

lemma demo_str: "str_at demo_dt 0x3000 [99, 112, 117]" "str_at demo_dt 0x2000 [114, 101, 103]" "str_at demo_dt 0x101c [99, 112, 117, 64, 97]"
  by code_simp+

lemma demo_words:
  "be_to_le demo_dt 32 0x1000 = 1" "be_to_le demo_dt 32 0x1008 = 3" "be_to_le demo_dt 32 0x100c = 4"
  "be_to_le demo_dt 32 0x1010 = 0" "be_to_le demo_dt 32 0x1018 = 1" "be_to_le demo_dt 32 0x1024 = 2"
  "be_to_le demo_dt 32 0x1028 = 2" "be_to_le demo_dt 32 0x102c = 9" "ld8 demo_dt 0x1004 = 0"
  by code_simp+

lemma demo_data: "map (\<lambda>i. ld8 demo_dt (0x1014 + of_nat i)) [0..<4] = [0, 0, 0, 2]"
  by code_simp

lemma demo_tokens:
  "encode demo_node = [Tbegin [], Tprop 0 [0, 0, 0, 2], Tbegin [99, 112, 117, 64, 97], Tend, Tend]"
  by (simp add: demo_node_def)

lemma demo_next:
  "next_token 0x1000 (Tbegin []) = 0x1008" "next_token 0x1008 (Tprop 0 [0, 0, 0, 2]) = 0x1018"
  "next_token 0x1018 (Tbegin [99, 112, 117, 64, 97]) = 0x1024"
  by code_simp+

lemma demo_prop: "token_at demo_dt 0x1008 (Tprop 0 [0, 0, 0, 2])"
proof -
  have "ld8 demo_dt (0x1014 + of_nat i) = [0, 0, 0, 2] ! i" if "i < 4" for i
    using arg_cong [OF demo_data, of "\<lambda>xs. xs ! i"] that by simp
  then show ?thesis using demo_words by (simp add: fdt_tokens)
qed

lemma demo_block: "block_at demo_dt 0x1000 (encode demo_node)"
  using demo_prop demo_words demo_str(3) by (simp add: demo_tokens demo_next fdt_tokens del: next_token.simps(1,2) token_at.simps(2))

theorem fdt_find_first_witness: "fdt_find demo_dt demo_fdt 0x3000 0 = Some 0x1018"
proof -
  have "fdt_find demo_dt demo_fdt 0x3000 0 = Some (first_node [99, 112, 117] (nodes (structure_block demo_fdt) (encode demo_node)))"
    by (rule fdt_find_first) (use demo_block demo_str(1) in \<open>simp_all add: demo_fdt_def AT_def\<close>)
  then show ?thesis
    by (simp add: demo_tokens demo_next demo_fdt_def base_name_def AT_def del: next_token.simps(1,2))
qed

theorem fdt_get_property_spec_witness:
  "\<exists>a. fdt_get_property demo_dt demo_fdt 0x1000 0x2000 = Some \<lparr>fp_len = 4, fp_key = 0x2000, fp_data = a\<rparr> \<and> ld8 demo_dt (a + 3) = 2"
proof -
  have "\<exists>r. fdt_get_property demo_dt demo_fdt 0x1000 0x2000 = Some r \<and>
      property_result demo_dt demo_fdt (\<lambda>_. [114, 101, 103]) [114, 101, 103] [(0, [0, 0, 0, 2])] r"
  proof (rule fdt_get_property_spec [where nm = "[]" and ks = "[Node [99, 112, 117, 64, 97] [] []]"])
    show "tokens_at demo_dt 0x1000 (encode (Node [] [(0, [0, 0, 0, 2])] [Node [99, 112, 117, 64, 97] [] []]))"
      using demo_block unfolding block_at_def demo_node_def by blast
  qed (use demo_str(2) in \<open>simp_all add: demo_fdt_def\<close>)
  then obtain r where r: "fdt_get_property demo_dt demo_fdt 0x1000 0x2000 = Some r" "fp_len r = 4" "fp_key r = 0x2000"
    "\<forall>i<4. ld8 demo_dt (fp_data r + of_nat i) = [0, 0, 0, 2] ! i"
    by (auto simp: property_result_def demo_fdt_def)
  from r(4) have "ld8 demo_dt (fp_data r + 3) = 2" by (auto dest: spec [of _ 3])
  then show ?thesis using r by (cases r) auto
qed

theorem node_addr_roundtrip_witness: "fdt_get_node_addr demo_dt 0x1018 = Some 10"
proof (rule node_addr_roundtrip)
  have "put_hex 10 = ''a''" by code_simp
  then have "[99, 112, 117] @ AT # map byte_of (put_hex 10) = [99, 112, 117, 64, 97]" by (simp add: AT_def byte_of_def)
  then show "token_at demo_dt 0x1018 (Tbegin ([99, 112, 117] @ AT # map byte_of (put_hex 10)))"
    using demo_str(3) demo_words by (simp add: fdt_tokens)
qed (simp add: AT_def)

end
