(* ===== verification/Fat16.thy ===== *)
theory Fat16
  imports Bucket_Alloc Strings
begin

text \<open>
  \<^verbatim>\<open>kernel/src/fat16.c\<close>: the initial RAM disk, a FAT16 image in memory. C \<^verbatim>\<open>int\<close> and \<^verbatim>\<open>unsigned int\<close> values are
  32-bit words; an \<^verbatim>\<open>int\<close> is sign-extended when it is added to a pointer. A division by zero is \<open>None\<close>.
\<close>

definition ATTR_LONG_NAME :: u8 where "ATTR_LONG_NAME = 0x0f"
definition SIGNATURE :: u16 where "SIGNATURE = 0xaa55"
definition FAT12_LIMIT :: u32 where "FAT12_LIMIT = 4085"
definition FAT16_LIMIT :: u32 where "FAT16_LIMIT = 65525"

record fat16_fs_t =
  bytes_per_sector :: u16
  sectors_per_cluster :: u8
  cluster_count :: u32
  root_entry_count :: u16
  boot_sector :: u64
  fat :: u64
  root_dir :: u64
  fat_data :: u64

definition no_fs :: fat16_fs_t where
  "no_fs = \<lparr>bytes_per_sector = 0, sectors_per_cluster = 0, cluster_count = 0, root_entry_count = 0,
     boot_sector = 0, fat = 0, root_dir = 0, fat_data = 0\<rparr>"

definition no_fs_report :: "string \<Rightarrow> va list \<Rightarrow> kstate \<Rightarrow> (fat16_fs_t \<times> kstate) option" where
  "no_fs_report fmt args s = map_option (Pair no_fs) (console_printf fmt args s)"

subsection \<open>The image\<close>

text \<open>The file system described by the boot sector at \<open>start\<close>, with the number of clusters already computed.\<close>

definition fat_layout :: "kstate \<Rightarrow> u64 \<Rightarrow> u32 \<Rightarrow> fat16_fs_t" where
  "fat_layout s start clusters =
     (let bytes = ld16 s (start + 11);
          reserved_sector_count = ld16 s (start + 14);
          number_of_fats = ld8 s (start + 16);
          entries = ld16 s (start + 17);
          fat_size = ld16 s (start + 22);
          fat_start = start + scast (ucast reserved_sector_count * ucast bytes :: u32);
          fats = ucast number_of_fats * ucast fat_size * ucast bytes :: u32;
          root = fat_start + 2 * word_of_int (sint fats sdiv 2)
      in \<lparr>bytes_per_sector = bytes, sectors_per_cluster = ld8 s (start + 13), cluster_count = clusters,
          root_entry_count = entries, boot_sector = start, fat = fat_start, root_dir = root,
          fat_data = root + 32 * ucast entries\<rparr>)"

definition verify_initrd :: "u64 \<Rightarrow> u64 \<Rightarrow> kstate \<Rightarrow> (fat16_fs_t \<times> kstate) option" where
  "verify_initrd start stop s =
     (let signature = ld16 s (start + 0x1fe);
          bytes = ld16 s (start + 11);
          sectors = ld8 s (start + 13);
          reserved_sector_count = ld16 s (start + 14);
          number_of_fats = ld8 s (start + 16);
          entries = ld16 s (start + 17);
          total_sector_count = (if ld16 s (start + 19) = 0 then ld32 s (start + 32) else ucast (ld16 s (start + 19)));
          fat_size = ld16 s (start + 22)
      in if signature \<noteq> SIGNATURE
         then no_fs_report (''[verify_initrd] invalid fat16 signature %x'' @ [CHR 0x0A]) [VWord (ucast signature)] s
         else if fat_size = 0 \<or> total_sector_count = 0
         then no_fs_report (''[verify_initrd] one of fat size or total sector count is 0'' @ [CHR 0x0A]) [] s
         else if bytes = 0 \<or> sectors = 0 then None
         else
           let root_sectors_count = (ucast entries * 32 + (ucast bytes - 1)) div ucast bytes :: u32;
               data_sectors = total_sector_count - (ucast reserved_sector_count + ucast number_of_fats * ucast fat_size + root_sectors_count);
               clusters = data_sectors div ucast sectors
           in if clusters < FAT12_LIMIT \<or> clusters \<ge> FAT16_LIMIT
              then no_fs_report (''[verify_initrd] fat file system is not FAT16'' @ [CHR 0x0A]) [] s
              else
                let fs = fat_layout s start clusters;
                    fat_end = fat_data fs + ucast (clusters * ucast sectors * ucast bytes :: u32)
                in if fat_end \<noteq> stop
                   then no_fs_report ''[verify_initrd] fat end %p does not equal initrd end %p'' [VWord fat_end, VWord stop] s
                   else Some (fs, s))"

subsection \<open>The root directory\<close>

text \<open>Entry \<open>i\<close> of the directory; the fields of a long-name entry are at the offsets of the packed structure.\<close>

definition dir_entry :: "fat16_fs_t \<Rightarrow> u16 \<Rightarrow> u64" where "dir_entry fs i = root_dir fs + 32 * ucast i"

text \<open>One of the three loops over a part of a long name: whether the characters agree, whether the end of the
  name was reached, and the position in the name.\<close>

primrec cmp_part :: "kstate \<Rightarrow> u64 \<Rightarrow> u64 \<Rightarrow> nat list \<Rightarrow> u64 \<Rightarrow> bool \<times> bool \<times> u64" where
  "cmp_part s part name [] k = (True, False, k)"
| "cmp_part s part name (l # ls) k =
     (if ld16 s (part + 2 * of_nat l) \<noteq> ucast (ld8 s (name + k)) then (False, False, k)
      else if ld8 s (name + k) = 0 then (True, True, k)
      else cmp_part s part name ls (k + 1))"

partial_function (option) long_name_loop :: "kstate \<Rightarrow> fat16_fs_t \<Rightarrow> u64 \<Rightarrow> u16 \<Rightarrow> u64 \<Rightarrow> bool option" where
  "long_name_loop s fs name j k =
     (let e = dir_entry fs j;
          (equals, stop, k) = cmp_part s (e + 1) name [0..<5] k
      in if \<not> equals \<or> stop then Some equals
         else
           let (equals, stop, k) = cmp_part s (e + 14) name [0..<6] k
           in if \<not> equals \<or> stop then Some equals
              else
                let (equals, stop, k) = cmp_part s (e + 28) name [0..<2] k
                in if \<not> equals \<or> stop \<or> ld8 s e AND 0x40 \<noteq> 0 then Some equals
                   else long_name_loop s fs name (j + 1) k)"

partial_function (option) find_file_loop :: "kstate \<Rightarrow> fat16_fs_t \<Rightarrow> u64 \<Rightarrow> u16 \<Rightarrow> u64 option" where
  "find_file_loop s fs name i =
     (if i < root_entry_count fs then
        if ld8 s (dir_entry fs i + 11) AND ATTR_LONG_NAME = ATTR_LONG_NAME then do {
          equals \<leftarrow> long_name_loop s fs name i 0;
          if equals then Some (dir_entry fs i + 32) else find_file_loop s fs name (i + 2) }
        else find_file_loop s fs name (i + 1)
      else Some 0)"

definition find_file_in_root_directory :: "kstate \<Rightarrow> fat16_fs_t \<Rightarrow> u64 \<Rightarrow> u64 option" where
  "find_file_in_root_directory s fs name = find_file_loop s fs name 0"

definition first_cluster_low :: "kstate \<Rightarrow> u64 \<Rightarrow> u16" where "first_cluster_low s e = ld16 s (e + 26)"
definition file_size :: "kstate \<Rightarrow> u64 \<Rightarrow> u32" where "file_size s e = ld32 s (e + 28)"

subsection \<open>Clusters\<close>

definition get_fat_cluster_data :: "fat16_fs_t \<Rightarrow> u32 \<Rightarrow> u64" where
  "get_fat_cluster_data fs cluster_id =
     (if cluster_id > cluster_count fs \<or> cluster_id < 2 then 0
      else fat_data fs + ucast ((cluster_id - 2) * ucast (sectors_per_cluster fs) * ucast (bytes_per_sector fs)))"

definition get_next_cluster :: "kstate \<Rightarrow> fat16_fs_t \<Rightarrow> u32 \<Rightarrow> u32" where
  "get_next_cluster s fs cluster_id =
     (if cluster_id > cluster_count fs \<or> cluster_id < 2 then 0
      else
        let nxt = ucast (ld16 s (fat fs + 2 * ucast cluster_id))
        in if nxt > cluster_count fs + 2 then 0 else nxt)"

definition cluster_size :: "fat16_fs_t \<Rightarrow> u64" where
  "cluster_size fs = scast (ucast (sectors_per_cluster fs) * ucast (bytes_per_sector fs) :: u32)"

partial_function (option) copy_clusters :: "fat16_fs_t \<Rightarrow> u64 \<Rightarrow> u32 \<Rightarrow> u64 \<Rightarrow> kstate \<Rightarrow> kstate option" where
  "copy_clusters fs data cluster_id i s =
     (let cluster_data = get_fat_cluster_data fs cluster_id
      in if cluster_data = 0 then Some s
         else do {
           (_, s) \<leftarrow> memcpy s (data + i * cluster_size fs) cluster_data (cluster_size fs);
           copy_clusters fs data (get_next_cluster s fs cluster_id) (i + 1) s })"

text \<open>The result is the buffer and the size that is stored through \<^verbatim>\<open>size_ptr\<close>; \<open>None\<close> for the size when nothing is stored.\<close>

definition read_file_full :: "kstate \<Rightarrow> u64 \<Rightarrow> fat16_fs_t \<Rightarrow> u64 \<Rightarrow> (u64 \<times> u64 option \<times> kstate) option" where
  "read_file_full s ra fs name = do {
     entry \<leftarrow> find_file_in_root_directory s fs name;
     if entry = 0 then Some (0, None, s)
     else do {
       (data, s) \<leftarrow> malloc s ra (ucast (file_size s entry));
       if data = 0 then Some (0, None, s)
       else do {
         s \<leftarrow> copy_clusters fs data (ucast (first_cluster_low s entry)) 0 s;
         Some (data, Some (ucast (file_size s entry)), s) } } }"

end
