(* ===== verification/Fat16_Spec.thy ===== *)
theory Fat16_Spec
  imports Fat16
begin

text \<open>
  The FAT16 reader: clusters of a verified image lie inside of the image, and reading a file copies the clusters of
  its chain one after the other.
\<close>

subsection \<open>Clusters of a verified image\<close>

definition cluster_bytes :: "fat16_fs_t \<Rightarrow> nat" where
  "cluster_bytes fs = unat (sectors_per_cluster fs) * unat (bytes_per_sector fs)"

lemma unat_u8_less: "unat (x :: u8) < 256" using unsigned_less [of x] by simp
lemma unat_u16_less: "unat (x :: u16) < 65536" using unsigned_less [of x] by simp

lemma unat_of_nat32: "n < 2 ^ 32 \<Longrightarrow> unat (of_nat n :: u32) = n" by (simp add: unat_of_nat)
lemma sint_of_nat32: "n < 2 ^ 31 \<Longrightarrow> sint (of_nat n :: u32) = int n"
  by (simp add: signed_of_nat signed_take_bit_int_eq_self)

lemma cluster_size_eq: "cluster_size fs = of_nat (cluster_bytes fs)"
proof -
  let ?a = "sectors_per_cluster fs" and ?b = "bytes_per_sector fs"
  have le: "unat ?a * unat ?b \<le> 255 * 65535"
    using unat_u8_less [of ?a] unat_u16_less [of ?b] by (intro mult_le_mono) simp_all
  have e: "(ucast ?a * ucast ?b :: u32) = of_nat (unat ?a * unat ?b)" by simp
  have "sint (of_nat (unat ?a * unat ?b) :: u32) = int (unat ?a * unat ?b)"
    by (rule sint_of_nat32) (use le in simp)
  then have "(scast (of_nat (unat ?a * unat ?b) :: u32) :: u64) = of_nat (unat ?a * unat ?b)"
    by (metis of_int_of_nat_eq of_int_sint)
  then show ?thesis unfolding cluster_size_def cluster_bytes_def e .
qed

lemma unat_clusters:
  assumes "unat c * cluster_bytes fs < 2 ^ 32"
  shows "unat (c * ucast (sectors_per_cluster fs) * ucast (bytes_per_sector fs) :: u32) = unat c * cluster_bytes fs"
proof -
  have "c * ucast (sectors_per_cluster fs) * ucast (bytes_per_sector fs) = (of_nat (unat c * cluster_bytes fs) :: u32)"
    by (simp add: cluster_bytes_def)
  then show ?thesis using unat_of_nat32 [OF assms] by metis
qed

lemma verify_initrd_accepted:
  assumes "verify_initrd start stop s = Some (fs, t)" "fat fs \<noteq> 0"
  shows "cluster_count fs < FAT16_LIMIT"
    "stop = fat_data fs + ucast (cluster_count fs * ucast (sectors_per_cluster fs) * ucast (bytes_per_sector fs))" "t = s"
  using assms
  by (auto simp: verify_initrd_def no_fs_report_def no_fs_def Let_def fat_layout_def split: if_splits)

text \<open>C23. Every cluster that \<^verbatim>\<open>get_fat_cluster_data\<close> hands out for a verified image lies between the start of the data area
  and the end of the image, whatever the FAT says, provided that a cluster has at most 64 KiB (the FAT limit)
  and the image does not wrap around the address space.\<close>

theorem cluster_in_image:
  assumes "verify_initrd start stop s = Some (fs, t)" "fat fs \<noteq> 0"
    and "cluster_bytes fs \<le> 65536" "fat_data fs \<le> stop" "get_fat_cluster_data fs c \<noteq> 0"
  shows "fat_data fs \<le> get_fat_cluster_data fs c \<and>
    unat (get_fat_cluster_data fs c) + unat (cluster_size fs) \<le> unat stop"
proof -
  let ?n = "unat (cluster_count fs)" and ?z = "cluster_bytes fs" and ?d = "unat (fat_data fs)"
  note acc = verify_initrd_accepted [OF assms(1,2)]
  have c: "c \<le> cluster_count fs" "2 \<le> c" using assms(5) by (auto simp: get_fat_cluster_data_def split: if_splits)
  have n: "?n < 65525" using acc(1) by (simp add: FAT16_LIMIT_def word_less_nat_alt)
  have nz: "?n * ?z < 2 ^ 32"
  proof -
    have "?n * ?z \<le> 65524 * 65536" using n assms(3) by (intro mult_le_mono) simp_all
    then show ?thesis by simp
  qed
  have stop: "unat stop = ?d + ?n * ?z"
  proof -
    let ?u = "ucast (cluster_count fs * ucast (sectors_per_cluster fs) * ucast (bytes_per_sector fs)) :: u64"
    have u: "unat ?u = ?n * ?z" using unat_clusters [OF nz] nz by (simp add: unsigned_ucast_eq take_bit_nat_eq_self)
    have "unat (fat_data fs + ?u) = unat (fat_data fs) + unat ?u"
      using assms(4) unfolding acc(2) by (metis unat_plus_simple)
    then show ?thesis using u acc(2) by simp
  qed
  have c2: "unat (c - 2) = unat c - 2" using c(2) by (simp add: unat_sub word_le_nat_alt)
  have cn: "unat c \<le> ?n" "2 \<le> unat c" using c by (simp_all add: word_le_nat_alt)
  then have le: "(unat c - 2) * ?z + ?z \<le> ?n * ?z"
    by (metis add.commute diff_le_self le_trans mult_Suc mult_le_mono1 Suc_diff_le Suc_leD diff_Suc_Suc numeral_2_eq_2 One_nat_def)
  have off: "unat (ucast ((c - 2) * ucast (sectors_per_cluster fs) * ucast (bytes_per_sector fs)) :: u64) = (unat c - 2) * ?z"
    using unat_clusters [of "c - 2" fs] c2 le nz by (simp add: unsigned_ucast_eq take_bit_nat_eq_self)
  have d: "unat (get_fat_cluster_data fs c) = ?d + (unat c - 2) * ?z"
  proof -
    have "unat stop < 2 ^ 64" by simp
    then have "?d + (unat c - 2) * ?z < 2 ^ 64" using stop le by linarith
    then show ?thesis using c off by (auto simp: get_fat_cluster_data_def unat_word_ariths)
  qed
  have "unat (cluster_size fs) = ?z" using assms(3) by (simp add: cluster_size_eq unat_of_nat64)
  then show ?thesis using d le stop by (simp add: word_le_nat_alt)
qed

subsection \<open>Reading a chain of clusters\<close>

primrec cluster_chain :: "kstate \<Rightarrow> fat16_fs_t \<Rightarrow> u32 \<Rightarrow> u32 list \<Rightarrow> bool" where
  "cluster_chain s fs c [] \<longleftrightarrow> get_fat_cluster_data fs c = 0"
| "cluster_chain s fs c (d # ds) \<longleftrightarrow> c = d \<and> get_fat_cluster_data fs c \<noteq> 0 \<and> cluster_chain s fs (get_next_cluster s fs c) ds"

text \<open>The FAT entry and the data of a cluster are apart from the \<open>n\<close> bytes at the physical address \<open>a\<close>.\<close>

definition cluster_apart :: "kstate \<Rightarrow> fat16_fs_t \<Rightarrow> u64 \<Rightarrow> nat \<Rightarrow> u32 \<Rightarrow> bool" where
  "cluster_apart s fs a n c \<longleftrightarrow> span s (get_fat_cluster_data fs c) (cluster_bytes fs) \<and>
     sep a n (kaddr s (get_fat_cluster_data fs c)) (cluster_bytes fs) \<and> sep a n (kaddr s (fat fs + 2 * ucast c)) 2"

lemma cluster_apart_mono:
  "cluster_apart s fs a n c \<Longrightarrow> (\<And>x. in_rng b k x \<Longrightarrow> in_rng a n x) \<Longrightarrow> cluster_apart s fs b k c"
  by (auto simp: cluster_apart_def sep_def)

lemma cluster_apart_mem [simp]: "cluster_apart (s\<lparr>mem := m\<rparr>) fs a n c = cluster_apart s fs a n c"
  by (simp add: cluster_apart_def)

lemma cluster_chain_mem:
  "cluster_chain s fs c cs \<Longrightarrow> \<forall>d\<in>set cs. cluster_apart s fs a n d \<Longrightarrow> (\<And>b. \<not> in_rng a n b \<Longrightarrow> m b = mem s b) \<Longrightarrow>
     cluster_chain (s\<lparr>mem := m\<rparr>) fs c cs"
proof (induction cs arbitrary: c)
  case (Cons d ds)
  have "ld16 (s\<lparr>mem := m\<rparr>) (fat fs + 2 * ucast c) = ld16 s (fat fs + 2 * ucast c)"
    unfolding ld16_def kaddr_update using Cons.prems
    by (auto intro!: read_le_cong simp: cluster_apart_def sep_def)
  then have "get_next_cluster (s\<lparr>mem := m\<rparr>) fs c = get_next_cluster s fs c" by (simp add: get_next_cluster_def)
  then show ?case using Cons by auto
qed simp

text \<open>One round of the copy loop.\<close>

lemma copy_clusters_step:
  assumes "get_fat_cluster_data fs c \<noteq> 0" "span s (data + of_nat (i * cluster_bytes fs)) (cluster_bytes fs)"
    and "cluster_apart s fs (kaddr s (data + of_nat (i * cluster_bytes fs))) (cluster_bytes fs) c"
  shows "copy_clusters fs data c (of_nat i) s =
    (let t = s\<lparr>mem := copy_bytes (kaddr s (data + of_nat (i * cluster_bytes fs)))
                     (kaddr s (get_fat_cluster_data fs c)) (cluster_bytes fs) (mem s)\<rparr>
     in copy_clusters fs data (get_next_cluster t fs c) (of_nat (Suc i)) t)"
proof -
  have "data + of_nat i * cluster_size fs = data + of_nat (i * cluster_bytes fs)" by (simp add: cluster_size_eq)
  then show ?thesis
    using assms memcpy_eq [of s "data + of_nat (i * cluster_bytes fs)" "cluster_bytes fs" "get_fat_cluster_data fs c"]
    by (subst copy_clusters.simps) (simp add: cluster_size_eq cluster_apart_def Let_def add.commute)
qed

lemma in_rng_disjoint: "in_rng a n b \<Longrightarrow> n + k \<le> 2 ^ 64 \<Longrightarrow> \<not> in_rng (a + of_nat n) k b"
proof
  assume b: "in_rng a n b" and n: "n + k \<le> 2 ^ 64" and c: "in_rng (a + of_nat n) k b"
  then have un: "unat (of_nat n :: u64) = n" by (cases "k = 0") (simp_all add: unat_of_nat64)
  have "unat (b - a - of_nat n) < k" using c by (simp add: in_rng_def diff_diff_eq)
  then show False using b n unat_sub_wrap [of "b - a" "of_nat n"] un by (simp add: in_rng_def split: if_splits)
qed

lemma cluster_data_kept:
  assumes "cluster_apart s fs a n d" "j < cluster_bytes fs" "\<And>b. \<not> in_rng a n b \<Longrightarrow> m b = mem s b"
  shows "m (kaddr s (get_fat_cluster_data fs d) + of_nat j) = mem s (kaddr s (get_fat_cluster_data fs d) + of_nat j)"
proof (rule assms(3))
  have "in_rng (kaddr s (get_fat_cluster_data fs d)) (cluster_bytes fs) (kaddr s (get_fat_cluster_data fs d) + of_nat j)"
    using assms(1,2) by (intro in_rng_offset) (auto simp: cluster_apart_def span_def)
  then show "\<not> in_rng a n (kaddr s (get_fat_cluster_data fs d) + of_nat j)"
    using assms(1) by (auto simp: cluster_apart_def sep_def)
qed

lemma copied_first:
  assumes "z + n \<le> 2 ^ 64" "k < z" "\<And>b. \<not> in_rng (A + of_nat z) n b \<Longrightarrow> m b = copy_bytes A C z m0 b"
  shows "m (A + of_nat k) = m0 (C + of_nat k)"
proof -
  have r: "in_rng A z (A + of_nat k)" using assms(1,2) by (intro in_rng_offset) auto
  then have "m (A + of_nat k) = copy_bytes A C z m0 (A + of_nat k)"
    using assms(3) in_rng_disjoint [OF r assms(1)] by blast
  then show ?thesis using r by (simp add: copy_bytes_def)
qed

lemma copy_clusters_eq:
  assumes z: "0 < cluster_bytes fs"
  shows "cluster_chain s fs c cs \<Longrightarrow> span s data ((i + length cs) * cluster_bytes fs) \<Longrightarrow>
    \<forall>d\<in>set cs. cluster_apart s fs (kaddr s data + of_nat (i * cluster_bytes fs)) (length cs * cluster_bytes fs) d \<Longrightarrow>
    \<exists>m. copy_clusters fs data c (of_nat i) s = Some (s\<lparr>mem := m\<rparr>) \<and>
      (\<forall>b. \<not> in_rng (kaddr s data + of_nat (i * cluster_bytes fs)) (length cs * cluster_bytes fs) b \<longrightarrow> m b = mem s b) \<and>
      (\<forall>j<length cs. \<forall>k<cluster_bytes fs. m (kaddr s data + of_nat ((i + j) * cluster_bytes fs + k)) =
         mem s (kaddr s (get_fat_cluster_data fs (cs ! j)) + of_nat k))"
proof (induction cs arbitrary: c i s)
  case Nil
  then show ?case by (intro exI [of _ "mem s"]) (subst copy_clusters.simps, simp)
next
  case (Cons d ds)
  let ?z = "cluster_bytes fs" and ?n = "length ds"
  let ?D = "kaddr s data"
  let ?A = "?D + of_nat (i * ?z)"
  let ?C = "kaddr s (get_fat_cluster_data fs c)"
  define m1 where "m1 = copy_bytes ?A ?C ?z (mem s)"
  have c: "c = d" "get_fat_cluster_data fs c \<noteq> 0" "cluster_chain s fs (get_next_cluster s fs c) ds" using Cons.prems(1) by auto
  have tot: "?z + ?n * ?z \<le> 2 ^ 64" using spanD(1) [OF Cons.prems(2)] by (simp add: algebra_simps)
  have sh: "span s (data + of_nat (i * ?z)) ?z" "kaddr s (data + of_nat (i * ?z)) = ?A"
    using span_shift [OF Cons.prems(2), of "i * ?z" ?z] z by (simp_all add: algebra_simps)
  have split: "in_rng ?A (length (d # ds) * ?z) b \<longleftrightarrow> in_rng ?A ?z b \<or> in_rng (?A + of_nat ?z) (?n * ?z) b" for b
    using in_rng_split [OF tot, of ?A b] by simp
  have ap: "cluster_apart s fs ?A ?z e" "cluster_apart s fs (?A + of_nat ?z) (?n * ?z) e" if "e \<in> set (d # ds)" for e
    using cluster_apart_mono [of s fs ?A "length (d # ds) * ?z" e] Cons.prems(3) that split by blast+
  have m1: "\<not> in_rng ?A ?z b \<Longrightarrow> m1 b = mem s b" for b by (simp add: m1_def copy_bytes_def)
  have A: "?A + of_nat ?z = ?D + of_nat (Suc i * ?z)" by (simp add: algebra_simps)
  have ch: "cluster_chain (s\<lparr>mem := m1\<rparr>) fs c (d # ds)"
    by (rule cluster_chain_mem [OF Cons.prems(1), of ?A ?z]) (use ap(1) m1 in blast)+
  have "\<exists>m. copy_clusters fs data (get_next_cluster (s\<lparr>mem := m1\<rparr>) fs c) (of_nat (Suc i)) (s\<lparr>mem := m1\<rparr>) = Some (s\<lparr>mem := m1\<rparr>\<lparr>mem := m\<rparr>) \<and>
      (\<forall>b. \<not> in_rng (kaddr (s\<lparr>mem := m1\<rparr>) data + of_nat (Suc i * ?z)) (?n * ?z) b \<longrightarrow> m b = mem (s\<lparr>mem := m1\<rparr>) b) \<and>
      (\<forall>j<?n. \<forall>k<?z. m (kaddr (s\<lparr>mem := m1\<rparr>) data + of_nat ((Suc i + j) * ?z + k)) =
         mem (s\<lparr>mem := m1\<rparr>) (kaddr (s\<lparr>mem := m1\<rparr>) (get_fat_cluster_data fs (ds ! j)) + of_nat k))"
  proof (rule Cons.IH)
    show "cluster_chain (s\<lparr>mem := m1\<rparr>) fs (get_next_cluster (s\<lparr>mem := m1\<rparr>) fs c) ds" using ch by auto
    show "span (s\<lparr>mem := m1\<rparr>) data ((Suc i + ?n) * ?z)" using Cons.prems(2) by (simp add: algebra_simps)
    show "\<forall>e\<in>set ds. cluster_apart (s\<lparr>mem := m1\<rparr>) fs (kaddr (s\<lparr>mem := m1\<rparr>) data + of_nat (Suc i * ?z)) (?n * ?z) e"
      using ap(2) unfolding A by simp
  qed
  then obtain m where m: "copy_clusters fs data (get_next_cluster (s\<lparr>mem := m1\<rparr>) fs c) (of_nat (Suc i)) (s\<lparr>mem := m1\<rparr>) = Some (s\<lparr>mem := m\<rparr>)"
    "\<And>b. \<not> in_rng (?A + of_nat ?z) (?n * ?z) b \<Longrightarrow> m b = m1 b"
    "\<And>j k. j < ?n \<Longrightarrow> k < ?z \<Longrightarrow> m (?D + of_nat ((Suc i + j) * ?z + k)) = m1 (kaddr s (get_fat_cluster_data fs (ds ! j)) + of_nat k)"
    unfolding A by (simp del: of_nat_Suc of_nat_mult of_nat_add mult_Suc) blast
  have "copy_clusters fs data c (of_nat i) s = Some (s\<lparr>mem := m\<rparr>)"
    using copy_clusters_step [OF c(2) sh(1)] ap(1) [of d] c(1) m(1) sh(2) by (simp add: Let_def m1_def)
  moreover have "m b = mem s b" if "\<not> in_rng ?A (length (d # ds) * ?z) b" for b
    using that split m(2) m1 by simp
  moreover have "m (?D + of_nat ((i + j) * ?z + k)) = mem s (kaddr s (get_fat_cluster_data fs ((d # ds) ! j)) + of_nat k)"
    if jk: "j < length (d # ds)" "k < ?z" for j k
  proof (cases j)
    case 0
    have b: "?D + of_nat ((i + j) * ?z + k) = ?A + of_nat k" using 0 by (simp add: add.assoc)
    have "m (?A + of_nat k) = mem s (?C + of_nat k)"
      using m(2) unfolding m1_def by (rule copied_first [OF tot jk(2)])
    then show ?thesis unfolding b using 0 c(1) by simp
  next
    case (Suc j')
    then have j': "j' < ?n" using jk(1) by simp
    have "m (?D + of_nat ((Suc i + j') * ?z + k)) = mem s (kaddr s (get_fat_cluster_data fs (ds ! j')) + of_nat k)"
      using m(3) [OF j' jk(2)] cluster_data_kept [OF ap(1) [of "ds ! j'"] jk(2), of m1] m1 j' by simp
    then show ?thesis using Suc by (simp add: algebra_simps)
  qed
  ultimately show ?case by blast
qed

text \<open>Reading a file whose FAT entries form a chain that ends: the loop returns, the buffer then holds the clusters of
  the chain one after the other, and no byte outside of the buffer has changed. The buffer has to have room
  for whole clusters and must not overlap the image.\<close>

theorem copy_clusters_spec:
  assumes "0 < cluster_bytes fs" "cluster_chain s fs c cs" "span s data (length cs * cluster_bytes fs)"
    and "\<forall>d\<in>set cs. cluster_apart s fs (kaddr s data) (length cs * cluster_bytes fs) d"
  shows "\<exists>t. copy_clusters fs data c 0 s = Some t \<and> same_regs s t \<and>
    (\<forall>j<length cs. \<forall>k<cluster_bytes fs.
       ld8 t (data + of_nat (j * cluster_bytes fs + k)) = ld8 s (get_fat_cluster_data fs (cs ! j) + of_nat k)) \<and>
    (\<forall>b. \<not> in_rng (kaddr s data) (length cs * cluster_bytes fs) b \<longrightarrow> mem t b = mem s b)"
proof -
  obtain m where m: "copy_clusters fs data c 0 s = Some (s\<lparr>mem := m\<rparr>)"
    "\<forall>b. \<not> in_rng (kaddr s data) (length cs * cluster_bytes fs) b \<longrightarrow> m b = mem s b"
    "\<forall>j<length cs. \<forall>k<cluster_bytes fs. m (kaddr s data + of_nat (j * cluster_bytes fs + k)) =
         mem s (kaddr s (get_fat_cluster_data fs (cs ! j)) + of_nat k)"
    using copy_clusters_eq [OF assms(1,2), of data 0] assms(3,4) by auto
  have "ld8 (s\<lparr>mem := m\<rparr>) (data + of_nat (j * cluster_bytes fs + k)) = ld8 s (get_fat_cluster_data fs (cs ! j) + of_nat k)"
    if jk: "j < length cs" "k < cluster_bytes fs" for j k
  proof -
    have "j * cluster_bytes fs + k < Suc j * cluster_bytes fs" using jk(2) by simp
    also have "\<dots> \<le> length cs * cluster_bytes fs" using jk(1) by (intro mult_le_mono1) simp
    finally have "kaddr s (data + of_nat (j * cluster_bytes fs + k)) = kaddr s data + of_nat (j * cluster_bytes fs + k)"
      by (rule spanD(3) [OF assms(3)])
    moreover have "kaddr s (get_fat_cluster_data fs (cs ! j) + of_nat k) = kaddr s (get_fat_cluster_data fs (cs ! j)) + of_nat k"
      using assms(4) jk by (intro spanD(3)) (auto simp: cluster_apart_def)
    ultimately show ?thesis using m(3) jk by (simp add: ld8_def)
  qed
  then show ?thesis using m(1,2) by (auto simp: same_regs_def)
qed

subsection \<open>Examples\<close>

text \<open>A boot sector with 5000 clusters of 512 bytes, and a file of two clusters of two bytes.\<close>

definition demo_boot :: kstate where
  "demo_boot = kstate0\<lparr>mem := (\<lambda>a.
     if 0x1000b \<le> a \<and> a < 0x10018 then [0, 2, 1, 1, 0, 2, 0, 2, 0xd1, 0x13, 0, 20, 0] ! unat (a - 0x1000b)
     else if a = 0x101fe then 0x55 else if a = 0x101ff then 0xaa else 0)\<rparr>"

definition demo_boot_fs :: fat16_fs_t where
  "demo_boot_fs = fat_layout demo_boot 0x10000 5000"

theorem cluster_in_image_witness:
  "unat (get_fat_cluster_data demo_boot_fs 5000) + 512 \<le> unat (0x19200 + 5000 * 512 :: u64)"
proof -
  have l: "ld16 demo_boot 0x101fe = SIGNATURE" "ld16 demo_boot 0x1000b = 512" "ld8 demo_boot 0x1000d = 1" "ld16 demo_boot 0x1000e = 1"
    "ld8 demo_boot 0x10010 = 2" "ld16 demo_boot 0x10011 = 512" "ld16 demo_boot 0x10013 = 5073" "ld16 demo_boot 0x10016 = 20"
    by code_simp+
  have d: "fat_data demo_boot_fs = 0x19200" by code_simp
  have v: "verify_initrd 0x10000 (0x19200 + 5000 * 512) demo_boot = Some (demo_boot_fs, demo_boot)"
    using l d by (simp add: verify_initrd_def Let_def demo_boot_fs_def FAT12_LIMIT_def FAT16_LIMIT_def)
  have f: "fat demo_boot_fs \<noteq> 0" "get_fat_cluster_data demo_boot_fs 5000 \<noteq> 0"
    "sectors_per_cluster demo_boot_fs = 1" "bytes_per_sector demo_boot_fs = 512"
    by code_simp+
  have z: "cluster_bytes demo_boot_fs = 512" by (simp add: cluster_bytes_def f)
  have "unat (get_fat_cluster_data demo_boot_fs 5000) + unat (cluster_size demo_boot_fs) \<le> unat (0x19200 + 5000 * 512 :: u64)"
    using cluster_in_image [OF v f(1) _ _ f(2)] z d by simp
  then show ?thesis by (simp add: cluster_size_eq z)
qed

definition demo_file_fs :: fat16_fs_t where
  "demo_file_fs = \<lparr>bytes_per_sector = 2, sectors_per_cluster = 1, cluster_count = 10, root_entry_count = 0,
     boot_sector = 0x800, fat = 0x1000, root_dir = 0x1800, fat_data = 0x2000\<rparr>"

definition demo_file :: kstate where
  "demo_file = kstate0\<lparr>mem := (\<lambda>_. 0)(0x1006 := 5, 0x100a := 0xff, 0x100b := 0xff,
     0x2002 := 1, 0x2003 := 2, 0x2006 := 3, 0x2007 := 4)\<rparr>"

theorem copy_clusters_spec_witness:
  "\<exists>t. copy_clusters demo_file_fs 0x3000 3 0 demo_file = Some t \<and> ld8 t 0x3000 = 1 \<and> ld8 t 0x3003 = 4"
proof -
  have off: "kaddr demo_file a = a" for a by (rule kaddr_off) (simp add: demo_file_def kstate0_def mmu_enabled_def)
  have sp: "span demo_file a n" if "unat a + n < 2 ^ 64" for a n using that by (simp add: span_def off)
  have z: "cluster_bytes demo_file_fs = 2" by code_simp
  have g: "get_fat_cluster_data demo_file_fs 3 = 0x2002" "get_fat_cluster_data demo_file_fs 5 = 0x2006"
    "get_next_cluster demo_file demo_file_fs 3 = 5" "get_next_cluster demo_file demo_file_fs 5 = 0" "get_fat_cluster_data demo_file_fs 0 = 0"
    "fat demo_file_fs = 0x1000" "ld8 demo_file 0x2002 = 1" "ld8 demo_file 0x2007 = 4"
    by code_simp+
  have ch: "cluster_chain demo_file demo_file_fs 3 [3, 5]" using g by simp
  have ap: "\<forall>d\<in>set [3, 5]. cluster_apart demo_file demo_file_fs (kaddr demo_file 0x3000) (length [3 :: u32, 5] * cluster_bytes demo_file_fs) d"
    unfolding cluster_apart_def off z by (auto simp: g sp intro!: sep_nat)
  from copy_clusters_spec [OF _ ch sp ap] obtain t where t: "copy_clusters demo_file_fs 0x3000 3 0 demo_file = Some t"
    "\<forall>j<length [3 :: u32, 5]. \<forall>k<cluster_bytes demo_file_fs.
       ld8 t (0x3000 + of_nat (j * cluster_bytes demo_file_fs + k)) = ld8 demo_file (get_fat_cluster_data demo_file_fs ([3, 5] ! j) + of_nat k)"
    by (auto simp: z)
  have "ld8 t 0x3000 = 1" "ld8 t 0x3003 = 4"
    using t(2) [rule_format, of 0 0] t(2) [rule_format, of 1 1] g by (simp_all add: z)
  then show ?thesis using t(1) by blast
qed

end
