(* ===== verification/Fat16_Dir.thy ===== *)
theory Fat16_Dir
  imports Fat16_Spec
begin

text \<open>
  The search in the root directory. The 13 characters of a long-name entry are its \<open>units\<close>; for names of fewer than 13
  characters, as those of the programs of the kernel, one entry holds the whole name.
\<close>

subsection \<open>One entry\<close>

definition units_at :: "kstate \<Rightarrow> u64 \<Rightarrow> nat list \<Rightarrow> u16 list" where
  "units_at s part ls = map (\<lambda>l. ld16 s (part + 2 * of_nat l)) ls"

definition units :: "kstate \<Rightarrow> u64 \<Rightarrow> u16 list" where
  "units s e = units_at s (e + 1) [0..<5] @ units_at s (e + 14) [0..<6] @ units_at s (e + 28) [0..<2]"

text \<open>Comparison of characters up to a NUL: whether they agree, and whether the NUL was met.\<close>

fun cmp_units :: "u16 list \<Rightarrow> u16 list \<Rightarrow> bool \<times> bool" where
  "cmp_units (u # us) (w # ws) = (if u \<noteq> w then (False, False) else if w = 0 then (True, True) else cmp_units us ws)"
| "cmp_units us ws = (True, False)"

lemma cmp_units_append:
  "length a \<le> length ws \<Longrightarrow> cmp_units (a @ b) ws =
     (if \<not> fst (cmp_units a ws) \<or> snd (cmp_units a ws) then cmp_units a ws else cmp_units b (drop (length a) ws))"
  by (induction a ws rule: cmp_units.induct) auto

lemma cmp_units_short:
  "\<not> fst (cmp_units a ws) \<or> snd (cmp_units a ws) \<Longrightarrow> cmp_units (a @ b) ws = cmp_units a ws"
  by (induction a ws rule: cmp_units.induct) auto

lemma cmp_units_name:
  "0 \<notin> set cs \<Longrightarrow> length cs < length us \<Longrightarrow> cmp_units us (cs @ [0]) = (let b = take (Suc (length cs)) us = cs @ [0] in (b, b))"
proof (induction us arbitrary: cs)
  case (Cons u us)
  then show ?case by (cases cs) (auto simp: Let_def)
qed simp

lemma cmp_units_room: "0 \<notin> set cs \<Longrightarrow> cmp_units us (cs @ [0]) = (True, False) \<Longrightarrow> length us \<le> length cs"
proof (induction us arbitrary: cs)
  case (Cons u us)
  then show ?case by (cases cs) (auto split: if_splits)
qed simp

definition name_units :: "u8 list \<Rightarrow> u16 list" where "name_units cs = map ucast cs @ [0]"

lemma name_unit:
  assumes "str_at s name cs" "k \<le> length cs"
  shows "ucast (ld8 s (name + of_nat k)) = name_units cs ! k" "ld8 s (name + of_nat k) = 0 \<longleftrightarrow> name_units cs ! k = 0"
proof -
  have n: "k < length cs \<Longrightarrow> ld8 s (name + of_nat k) = cs ! k \<and> cs ! k \<noteq> 0" using str_at_nth [OF assms(1)] by blast
  have z: "(ucast (c :: u8) :: u16) = 0 \<longleftrightarrow> c = 0" for c
    using unat_u8_less [of c] by (simp add: word_unat_eq_iff unsigned_ucast_eq take_bit_nat_eq_self)
  show "ucast (ld8 s (name + of_nat k)) = name_units cs ! k" "ld8 s (name + of_nat k) = 0 \<longleftrightarrow> name_units cs ! k = 0"
    using n str_at_end [OF assms(1)] assms(2) by (cases "k = length cs"; simp add: name_units_def nth_append z)+
qed

lemma cmp_part_eq:
  assumes "str_at s name cs"
  shows "k \<le> length cs \<Longrightarrow> cmp_part s part name ls (of_nat k) = (e, st, k') \<Longrightarrow>
    cmp_units (units_at s part ls) (drop k (name_units cs)) = (e, st) \<and> (e \<and> \<not> st \<longrightarrow> k' = of_nat (k + length ls))"
proof (induction ls arbitrary: k)
  case (Cons l ls)
  have d: "drop k (name_units cs) = name_units cs ! k # drop (Suc k) (name_units cs)"
    using Cons.prems(1) by (intro Cons_nth_drop_Suc [symmetric]) (simp add: name_units_def)
  note u = name_unit [OF assms Cons.prems(1)]
  show ?case
  proof (cases "ld16 s (part + 2 * of_nat l) = name_units cs ! k \<and> name_units cs ! k \<noteq> 0")
    case True
    then have "k < length cs" using Cons.prems(1) by (cases "k = length cs") (auto simp: name_units_def nth_append)
    moreover have "cmp_part s part name ls (of_nat (Suc k)) = (e, st, k')" using Cons.prems(2) True u by (simp add: add.commute)
    ultimately show ?thesis using Cons.IH [of "Suc k"] True by (simp add: units_at_def d add.commute)
  qed (use Cons.prems(2) u in \<open>auto simp: units_at_def d split: if_splits\<close>)
qed (simp add: units_at_def)


text \<open>Entry \<open>e\<close> holds exactly the name.\<close>

definition long_name_is :: "kstate \<Rightarrow> u64 \<Rightarrow> u8 list \<Rightarrow> bool" where
  "long_name_is s e cs \<longleftrightarrow> take (Suc (length cs)) (units s e) = name_units cs"

lemma long_name_loop_eq:
  assumes n: "str_at s name cs" and l: "length cs < 13"
  shows "long_name_loop s fs name j 0 = Some (long_name_is s (dir_entry fs j) cs)"
proof -
  let ?e = "dir_entry fs j" and ?w = "name_units cs"
  let ?a = "units_at s (?e + 1) [0..<5]" and ?b = "units_at s (?e + 14) [0..<6]" and ?c = "units_at s (?e + 28) [0..<2]"
  have nz: "0 \<notin> set (map ucast cs :: u16 list)"
  proof
    assume "0 \<in> set (map ucast cs :: u16 list)"
    then obtain i where i: "i < length cs" "(ucast (cs ! i) :: u16) = 0" by (auto simp: in_set_conv_nth)
    then have "name_units cs ! i = 0" by (simp add: name_units_def nth_append)
    then show False using str_at_nth [OF n i(1)] name_unit(2) [OF n, of i] i(1) by simp
  qed
  have len: "length (units s ?e) = 13" by (simp add: units_def units_at_def)
  have all: "cmp_units (units s ?e) ?w = (long_name_is s ?e cs, long_name_is s ?e cs)"
    using cmp_units_name [OF nz, of "units s ?e"] l len by (simp add: Let_def long_name_is_def name_units_def)
  have room: "length us \<le> length cs" if "cmp_units us ?w = (True, False)" for us
    using cmp_units_room [OF nz] that by (simp add: name_units_def)
  obtain e1 s1 k1 where c1: "cmp_part s (?e + 1) name [0..<5] 0 = (e1, s1, k1)" by (metis prod_cases3)
  have r1: "cmp_units ?a ?w = (e1, s1)" "e1 \<and> \<not> s1 \<longrightarrow> k1 = of_nat 5"
    using cmp_part_eq [OF n, of 0 "?e + 1" "[0..<5]"] c1 by simp_all
  show ?thesis
  proof (cases "\<not> e1 \<or> s1")
    case True
    then have "cmp_units (units s ?e) ?w = (e1, s1)" using cmp_units_short [of ?a ?w] r1(1) by (simp add: units_def)
    then show ?thesis using True all c1 by (subst long_name_loop.simps) (auto simp: Let_def)
  next
    case F1: False
    then have l1: "5 \<le> length cs" using room [of ?a] r1(1) by (simp add: units_at_def)
    have w1: "cmp_units (units s ?e) ?w = cmp_units (?b @ ?c) (drop 5 ?w)"
      using cmp_units_append [of ?a ?w "?b @ ?c"] F1 r1(1) l1 by (simp add: units_def units_at_def name_units_def)
    obtain e2 s2 k2 where c2: "cmp_part s (?e + 14) name [0..<6] (of_nat 5) = (e2, s2, k2)" by (metis prod_cases3)
    have r2: "cmp_units ?b (drop 5 ?w) = (e2, s2)" "e2 \<and> \<not> s2 \<longrightarrow> k2 = of_nat 11"
      using cmp_part_eq [OF n l1 c2] by simp_all
    show ?thesis
    proof (cases "\<not> e2 \<or> s2")
      case True
      then have "cmp_units (units s ?e) ?w = (e2, s2)" using cmp_units_short [of ?b "drop 5 ?w"] r2(1) w1 by simp
      then show ?thesis using True all c1 c2 F1 r1 by (subst long_name_loop.simps) (auto simp: Let_def)
    next
      case F2: False
      have "cmp_units (?a @ ?b) ?w = (True, False)"
        using cmp_units_append [of ?a ?w ?b] F1 F2 r1(1) r2(1) l1 by (simp add: units_at_def name_units_def)
      then have l2: "11 \<le> length cs" using room by (fastforce simp: units_at_def)
      have w2: "cmp_units (units s ?e) ?w = cmp_units ?c (drop 11 ?w)"
        using cmp_units_append [of ?b "drop 5 ?w" ?c] F2 r2(1) l2 w1 by (simp add: units_at_def name_units_def)
      obtain e3 s3 k3 where c3: "cmp_part s (?e + 28) name [0..<2] (of_nat 11) = (e3, s3, k3)" by (metis prod_cases3)
      have "cmp_units ?c (drop 11 ?w) = (e3, s3)" using cmp_part_eq [OF n l2 c3] by simp
      then have "e3 = long_name_is s ?e cs" "s3 = e3" using all w2 by simp_all
      then show ?thesis using c1 c2 c3 F1 F2 r1(2) r2(2) by (subst long_name_loop.simps) (auto simp: Let_def)
    qed
  qed
qed

subsection \<open>The directory\<close>

definition is_long :: "kstate \<Rightarrow> fat16_fs_t \<Rightarrow> nat \<Rightarrow> bool" where
  "is_long s fs i \<longleftrightarrow> ld8 s (dir_entry fs (of_nat i) + 11) AND ATTR_LONG_NAME = ATTR_LONG_NAME"

text \<open>Each long-name entry is followed by the short entry of the file.\<close>

definition dir_ok :: "kstate \<Rightarrow> fat16_fs_t \<Rightarrow> bool" where
  "dir_ok s fs \<longleftrightarrow> (\<forall>i<unat (root_entry_count fs). is_long s fs i \<longrightarrow> \<not> is_long s fs (Suc i))"

definition named_entry :: "kstate \<Rightarrow> fat16_fs_t \<Rightarrow> u8 list \<Rightarrow> nat \<Rightarrow> bool" where
  "named_entry s fs cs i \<longleftrightarrow> is_long s fs i \<and> long_name_is s (dir_entry fs (of_nat i)) cs"

definition entry_after :: "fat16_fs_t \<Rightarrow> nat option \<Rightarrow> u64" where
  "entry_after fs r = (case r of Some i \<Rightarrow> dir_entry fs (of_nat i) + 32 | None \<Rightarrow> 0)"

lemma find_upt_step:
  "i < n \<Longrightarrow> find P [i..<n] = (if P i then Some i else find P [Suc i..<n])"
  by (simp add: upt_conv_Cons)

lemma find_upt_skip: "\<not> P i \<Longrightarrow> find P [i..<n] = find P [Suc i..<n]"
  by (cases "i < n") (simp_all add: find_upt_step)

lemma find_file_loop_eq:
  assumes n: "str_at s name cs" "length cs < 13" and ok: "dir_ok s fs" and c: "unat (root_entry_count fs) < 65535"
  shows "i \<le> Suc (unat (root_entry_count fs)) \<Longrightarrow>
    find_file_loop s fs name (of_nat i) = Some (entry_after fs (find (named_entry s fs cs) [i..<unat (root_entry_count fs)]))"
proof (induction "Suc (unat (root_entry_count fs)) - i" arbitrary: i rule: less_induct)
  case less
  let ?n = "unat (root_entry_count fs)"
  have u: "unat (of_nat i :: u16) = i" using less.prems c by (simp add: unat_of_nat)
  show ?case
  proof (cases "i < ?n")
    case False
    then show ?thesis using u by (subst find_file_loop.simps) (simp add: word_less_nat_alt entry_after_def)
  next
    case True
    have lt: "(of_nat i :: u16) < root_entry_count fs" using True u by (simp add: word_less_nat_alt)
    have IH: "find_file_loop s fs name (of_nat j) = Some (entry_after fs (find (named_entry s fs cs) [j..<?n]))"
      if "i < j" "j \<le> Suc ?n" for j using less.hyps [of j] that True by simp
    show ?thesis
    proof (cases "is_long s fs i")
      case False
      then have "find_file_loop s fs name (of_nat i) = find_file_loop s fs name (of_nat (Suc i))"
        using lt by (subst find_file_loop.simps) (simp add: is_long_def add.commute)
      then show ?thesis using IH [of "Suc i"] True False find_upt_skip [of "named_entry s fs cs" i] by (simp add: named_entry_def)
    next
      case L: True
      have step: "find_file_loop s fs name (of_nat i) = (if long_name_is s (dir_entry fs (of_nat i)) cs
          then Some (dir_entry fs (of_nat i) + 32) else find_file_loop s fs name (of_nat (i + 2)))"
        using lt L long_name_loop_eq [OF n, of fs "of_nat i"] by (subst find_file_loop.simps) (simp add: is_long_def add.commute)
      show ?thesis
      proof (cases "named_entry s fs cs i")
        case True
        then show ?thesis using step find_upt_step [OF \<open>i < ?n\<close>] by (simp add: named_entry_def entry_after_def)
      next
        case False
        have "\<not> named_entry s fs cs (Suc i)" using ok L True by (auto simp: dir_ok_def named_entry_def)
        then have "find (named_entry s fs cs) [i..<?n] = find (named_entry s fs cs) [i + 2..<?n]"
          using find_upt_skip [of "named_entry s fs cs" i] find_upt_skip [of "named_entry s fs cs" "Suc i"] False by simp
        then show ?thesis using step False L True IH [of "i + 2"] by (simp add: named_entry_def)
      qed
    qed
  qed
qed



subsection \<open>An example\<close>

text \<open>A directory of two files, \<^verbatim>\<open>uwu\<close> and \<^verbatim>\<open>initd\<close>, each with a long-name and a short entry.\<close>

definition dir_bytes :: "u8 list" where
  "dir_bytes =
     [0x41, 117, 0, 119, 0, 117, 0, 0, 0, 255, 255, 0x0f, 0, 0, 255, 255] @ replicate 16 255 @
     [85, 87, 85, 32, 32, 32, 32, 32, 32, 32, 32, 0x20] @ replicate 14 0 @ [3, 0, 4, 0, 0, 0] @
     [0x41, 105, 0, 110, 0, 105, 0, 116, 0, 100, 0, 0x0f, 0, 0, 0, 0] @ replicate 16 255 @
     [73, 78, 73, 84, 68, 32, 32, 32, 32, 32, 32, 0x20] @ replicate 14 0 @ [7, 0, 2, 0, 0, 0]"

definition demo_dir :: kstate where
  "demo_dir = kstate0\<lparr>mem := (\<lambda>a. if 0x1800 \<le> a \<and> a < 0x1880 then dir_bytes ! unat (a - 0x1800)
     else if 0x4000 \<le> a \<and> a < 0x4005 then [105, 110, 105, 116, 100] ! unat (a - 0x4000) else 0)\<rparr>"

definition demo_dir_fs :: fat16_fs_t where "demo_dir_fs = demo_file_fs\<lparr>root_entry_count := 4\<rparr>"


end
