(* ===== verification/Fat16_Read.thy ===== *)
theory Fat16_Read
  imports Fat16_Dir Malloc
begin

text \<open>
  \<^verbatim>\<open>read_file_full\<close>: the search in the directory, the block from the heap and the copy of the clusters together. The image
  lies in pages that are in use and that do not belong to the heap.
\<close>

subsection \<open>Memory that the heap does not own\<close>

definition foreign :: "kstate \<Rightarrow> u64 set \<Rightarrow> u64 \<Rightarrow> nat \<Rightarrow> bool" where
  "foreign s H a n \<longleftrightarrow> (\<forall>x. in_rng a n x \<longrightarrow> pool_held s x \<and> (\<forall>h\<in>H. \<not> in_rng (kaddr s h) (extent (bsize s h)) x))"

lemma foreign_kept:
  assumes "foreign s H a n" "data_frame H s t" "in_rng a n x"
  shows "mem t x = mem s x"
proof -
  have "\<not> in_rng (kaddr s h) 32 x" if "h \<in> H" for h
    using assms(1,3) that in_rng_mono [OF _ extent_ge(1), of "kaddr s h" x "bsize s h"] unfolding foreign_def by blast
  then show ?thesis using assms by (auto simp: foreign_def data_frame_def)
qed

lemma foreign_new:
  assumes "foreign s H a n" "new_room s H b k" "in_rng (kaddr s b) (extent k) x"
  shows "\<not> in_rng a n x"
  using assms by (auto simp: foreign_def new_room_def)

lemma foreign_ld:
  assumes "data_frame H s t"
  shows "foreign s H (kaddr s a) 2 \<Longrightarrow> ld16 t a = ld16 s a" "foreign s H (kaddr s a) 4 \<Longrightarrow> ld32 t a = ld32 s a"
    "foreign s H (kaddr s a) 1 \<Longrightarrow> ld8 t a = ld8 s a"
proof -
  have k: "kaddr t = kaddr s" using assms by (simp add: data_frame_def)
  show "foreign s H (kaddr s a) 2 \<Longrightarrow> ld16 t a = ld16 s a" "foreign s H (kaddr s a) 4 \<Longrightarrow> ld32 t a = ld32 s a"
    using foreign_kept [OF _ assms] by (auto simp: ld16_def ld32_def k intro!: read_le_cong)
  show "foreign s H (kaddr s a) 1 \<Longrightarrow> ld8 t a = ld8 s a"
    using foreign_kept [OF _ assms, of "kaddr s a" 1 "kaddr s a"] by (simp add: ld8_def k)
qed

lemma foreign_cluster_byte:
  assumes fr: "data_frame H s t" and f: "foreign s H (kaddr s a) n" "span s a n" "k < n"
  shows "ld8 t (a + of_nat k) = ld8 s (a + of_nat k)"
proof -
  have "in_rng (kaddr s a) n (kaddr s a + of_nat k)" using spanD(2) [OF f(2)] f(3) by (intro in_rng_offset) simp_all
  then have "mem t (kaddr s a + of_nat k) = mem s (kaddr s a + of_nat k)" by (rule foreign_kept [OF f(1) fr])
  then show ?thesis using fr spanD(3) [OF f(2,3)] by (simp add: ld8_def data_frame_def)
qed

subsection \<open>A file of the image\<close>

text \<open>The directory entry at \<open>e\<close> names a file with the clusters \<open>ds\<close>; the parts of the image that reading it touches are apart
  from the heap.\<close>

definition file_at :: "kstate \<Rightarrow> u64 set \<Rightarrow> fat16_fs_t \<Rightarrow> u64 \<Rightarrow> u32 list \<Rightarrow> bool" where
  "file_at s H fs e ds \<longleftrightarrow> foreign s H (kaddr s (e + 26)) 2 \<and> foreign s H (kaddr s (e + 28)) 4 \<and>
     cluster_chain s fs (ucast (first_cluster_low s e)) ds \<and>
     (\<forall>d\<in>set ds. span s (get_fat_cluster_data fs d) (cluster_bytes fs) \<and> foreign s H (kaddr s (get_fat_cluster_data fs d)) (cluster_bytes fs) \<and>
        foreign s H (kaddr s (fat fs + 2 * ucast d)) 2)"

lemma cluster_chain_kept:
  assumes fr: "data_frame H s t"
  shows "cluster_chain s fs c ds \<Longrightarrow> \<forall>d\<in>set ds. foreign s H (kaddr s (fat fs + 2 * ucast d)) 2 \<Longrightarrow> cluster_chain t fs c ds"
proof (induction ds arbitrary: c)
  case (Cons d ds)
  then have "get_next_cluster t fs c = get_next_cluster s fs c"
    using foreign_ld(1) [OF fr, of "fat fs + 2 * ucast c"] by (simp add: get_next_cluster_def)
  then show ?case using Cons.prems Cons.IH [of "get_next_cluster s fs c"] by auto
qed simp

lemma foreign_sep:
  assumes f: "foreign s H a n" and r: "new_room s H b k" and sub: "\<And>x. in_rng c j x \<Longrightarrow> in_rng (kaddr s b) (extent k) x"
  shows "sep c j a n"
  unfolding sep_def using foreign_new [OF f r] sub by blast

lemma file_apart:
  assumes f: "file_at s H fs e ds" and fr: "data_frame H s t" and r: "new_room s H b k"
    and sub: "\<And>x. in_rng c j x \<Longrightarrow> in_rng (kaddr s b) (extent k) x" and d: "d \<in> set ds"
  shows "cluster_apart t fs c j d"
proof -
  have k: "kaddr t = kaddr s" using fr by (simp add: data_frame_def)
  then have sp: "span t = span s" by (simp add: span_def fun_eq_iff)
  show ?thesis using f d foreign_sep [OF _ r sub] by (auto simp: cluster_apart_def k sp file_at_def)
qed

lemma copied_block:
  assumes inv: "heap_inv t F (b # U)" and z: "0 < cluster_bytes fs" and ch: "cluster_chain t fs c ds"
    and le: "length ds * cluster_bytes fs \<le> bsize t b" "0 < bsize t b"
    and ap: "\<forall>d\<in>set ds. cluster_apart t fs (kaddr t b + 32) (length ds * cluster_bytes fs) d"
  shows "\<exists>m. copy_clusters fs (b + 32) c 0 t = Some (t\<lparr>mem := m\<rparr>) \<and> heap_inv (t\<lparr>mem := m\<rparr>) F (b # U) \<and>
    (\<forall>x. \<not> in_rng (kaddr t b + 32) (length ds * cluster_bytes fs) x \<longrightarrow> m x = mem t x) \<and>
    (\<forall>j<length ds. \<forall>k<cluster_bytes fs.
       ld8 (t\<lparr>mem := m\<rparr>) (b + 32 + of_nat (j * cluster_bytes fs + k)) = ld8 t (get_fat_cluster_data fs (ds ! j) + of_nat k))"
proof -
  let ?n = "length ds * cluster_bytes fs"
  note ok = heap_invD(1) [OF inv]
  have bH: "b \<in> buckets F (b # U)" by (simp add: buckets_def)
  have kb: "kaddr t (b + 32) = kaddr t b + 32" and sp: "span t (b + 32) ?n"
    using block_data(5,6) [OF ok bH le(2)] span_mono [OF _ le(1)] by simp_all
  obtain m where m: "copy_clusters fs (b + 32) c 0 t = Some (t\<lparr>mem := m\<rparr>)" "\<forall>x. \<not> in_rng (kaddr t b + 32) ?n x \<longrightarrow> m x = mem t x"
    "\<forall>j<length ds. \<forall>k<cluster_bytes fs. m (kaddr t b + 32 + of_nat (j * cluster_bytes fs + k)) =
       mem t (kaddr t (get_fat_cluster_data fs (ds ! j)) + of_nat k)"
    using copy_clusters_eq [OF z ch, of "b + 32" 0] sp ap kb by auto
  have "heap_inv (t\<lparr>mem := m\<rparr>) F (b # U)"
    using m(2) in_rng_mono [OF _ le(1)] by (intro heap_write [OF inv bH]) blast
  moreover have "ld8 (t\<lparr>mem := m\<rparr>) (b + 32 + of_nat (j * cluster_bytes fs + k)) = ld8 t (get_fat_cluster_data fs (ds ! j) + of_nat k)"
    if jk: "j < length ds" "k < cluster_bytes fs" for j k
  proof -
    have "j * cluster_bytes fs + k < Suc j * cluster_bytes fs" using jk(2) by simp
    also have "\<dots> \<le> ?n" using jk(1) by (intro mult_le_mono1) simp
    finally have "kaddr t (b + 32 + of_nat (j * cluster_bytes fs + k)) = kaddr t b + 32 + of_nat (j * cluster_bytes fs + k)"
      using le(1) by (intro data_byte(1) [OF ok bH]) simp
    moreover have "kaddr t (get_fat_cluster_data fs (ds ! j) + of_nat k) = kaddr t (get_fat_cluster_data fs (ds ! j)) + of_nat k"
      using ap jk by (intro spanD(3)) (auto simp: cluster_apart_def)
    ultimately show ?thesis using m(3) jk by (simp add: ld8_def)
  qed
  ultimately show ?thesis using m(1,2) by blast
qed

subsection \<open>Reading a file\<close>


subsection \<open>An example\<close>

text \<open>An image in the first page of the pool, marked as used: the FAT, the directory of two files and the data.\<close>

definition demo_image_fs :: fat16_fs_t where
  "demo_image_fs = \<lparr>bytes_per_sector = 2, sectors_per_cluster = 1, cluster_count = 10, root_entry_count = 4,
     boot_sector = 0x80421000, fat = 0x80421400, root_dir = 0x80421800, fat_data = 0x80421c00\<rparr>"

definition demo_image :: kstate where
  "demo_image = demo_state\<lparr>mem := (\<lambda>a. if 0x80421800 \<le> a \<and> a < 0x80421880 then dir_bytes ! unat (a - 0x80421800)
     else if 0x80421f00 \<le> a \<and> a < 0x80421f05 then [105, 110, 105, 116, 100] ! unat (a - 0x80421f00)
     else if a = 0x80420000 \<or> a = 0x80421c0a then 1 else if a = 0x80421c0b then 2
     else if a = 0x8042140e \<or> a = 0x8042140f then 0xff else 0)\<rparr>"

lemma demo_image_frame:
  "kaddr demo_image a = a" "npages demo_image = 2048" "page_addr demo_image 0 = 0x80421000" "rc demo_image 0 = 1"
  "heap_inv demo_image (\<lambda>_. []) []"
proof -
  show "kaddr demo_image a = a" by (rule kaddr_off) (simp add: demo_image_def demo_state_def kstate0_def mmu_enabled_def)
  have lay: "page_layout demo_image 2048" using demo_layout by (simp add: demo_image_def)
  then show n: "npages demo_image = 2048" by (rule page_layout_npages)
  show "page_addr demo_image 0 = 0x80421000" by (simp add: page_addr_def demo_image_def demo_state_def)
  show "rc demo_image 0 = 1" by code_simp
  show "heap_inv demo_image (\<lambda>_. []) []"
    using lay n by (intro empty_heap) (simp_all add: pool_inv_def demo_image_def demo_state_def kstate0_def)
qed

lemma demo_image_run: "has_run demo_image 65"
proof -
  have "list_all (\<lambda>j. rc demo_image (1 + j) = 0) [0..<65]" by code_simp
  then have "free_run demo_image 65 1" by (simp add: free_run_def list_all_iff)
  then show ?thesis using demo_image_frame(2) by (auto simp: has_run_def intro!: exI [of _ 1])
qed

lemma demo_image_foreign:
  assumes "0x80421000 \<le> unat a" "unat a + n \<le> 0x80422000"
  shows "foreign demo_image {} (kaddr demo_image a) n"
proof -
  have "in_rng 0x80421000 4096 x" if x: "in_rng a n x" for x
  proof -
    have "unat (x - a) < n" using x by (simp add: in_rng_def)
    have "unat (a - 0x80421000) = unat a - 0x80421000" using assms(1) by (simp add: unat_sub word_le_nat_alt)
    moreover have "x - 0x80421000 = (x - a) + (a - 0x80421000)" by simp
    ultimately have "unat (x - 0x80421000) \<le> unat (x - a) + (unat a - 0x80421000)" by (metis unat_word_ariths(1) mod_less_eq_dividend)
    then show ?thesis using \<open>unat (x - a) < n\<close> assms by (simp add: in_rng_def)
  qed
  then show ?thesis using demo_image_frame by (auto simp: foreign_def pool_held_def intro!: exI [of _ 0])
qed


end
