(* ===== verification/Spawn.thy ===== *)
theory Spawn
  imports Tasks Elf Bucket_Alloc
begin

text \<open>
  \<^verbatim>\<open>spawn_task_from_elf\<close> of \<^verbatim>\<open>kernel/src/process.c\<close>: a free slot of the task table, the pages of the program, its stack and its
  arguments, and the first trap frame. \<open>k\<close> are the addresses of the kernel image, \<open>ra\<close> the return address that
  the heap records.
\<close>

definition TASK_NAME_SIZE :: u64 where "TASK_NAME_SIZE = 255"

subsection \<open>Segments\<close>

definition segment_flags :: "u32 \<Rightarrow> u64" where
  "segment_flags flags_raw =
     (if flags_raw AND 2 \<noteq> 0 then MMU_BIT_WRITE else if flags_raw AND 1 \<noteq> 0 then MMU_BIT_EXEC else 0) OR
     (if flags_raw AND 4 \<noteq> 0 then MMU_BIT_READ else 0)"

definition segment_offset :: "elf_program_header_t \<Rightarrow> u64" where
  "segment_offset ph = ph_virtual_addr ph mod PAGE_SIZE"

definition segment_page_count :: "elf_program_header_t \<Rightarrow> u64" where
  "segment_page_count ph = (ph_memory_size ph + segment_offset ph + PAGE_SIZE - 1) div PAGE_SIZE"

text \<open>How many bytes of the file go to page \<open>i\<close> of a segment, before the correction for the first page.\<close>

definition copy_size :: "elf_program_header_t \<Rightarrow> u64 \<Rightarrow> u64" where
  "copy_size ph i =
     (if ph_file_size ph + segment_offset ph < i * PAGE_SIZE then
        if (i - 1) * PAGE_SIZE < ph_file_size ph + segment_offset ph then ph_file_size ph - (i - 1) * PAGE_SIZE else 0
      else PAGE_SIZE)"

text \<open>The page for \<open>virt_addr\<close>: a new one, or the user page that is mapped there already.\<close>

definition segment_page :: "u64 \<Rightarrow> u64 \<Rightarrow> u64 \<Rightarrow> u64 \<Rightarrow> kstate \<Rightarrow> (u64 option \<times> kstate) option" where
  "segment_page root virt_addr offset flags s = do {
     (page, s) \<leftarrow> mmu_alloc s root (virt_addr - offset) (flags OR MMU_BIT_USER);
     if page \<noteq> 0 then Some (Some page, s)
     else
       let entry = mmu_walk_to_entry s root virt_addr
       in if entry = 0 \<or> \<not> mmu_entry_valid (ld64 s entry) \<or> \<not> mmu_entry_frame (ld64 s entry) \<or> \<not> mmu_entry_user (ld64 s entry)
          then Some (None, s) else Some (Some (mmu_entry_phys s (ld64 s entry)), s) }"

definition load_page :: "elf_t \<Rightarrow> u64 \<Rightarrow> elf_program_header_t \<Rightarrow> u64 \<Rightarrow> u64 \<times> kstate \<Rightarrow> (u64 \<times> kstate) option" where
  "load_page elf root ph i = (\<lambda>(max_page, s).
     let offset = segment_offset ph;
         virt_addr = ph_virtual_addr ph + i * PAGE_SIZE
     in do {
       (page, s) \<leftarrow> segment_page root virt_addr offset (segment_flags (ph_flags ph)) s;
       case page of None \<Rightarrow> Some (max_page, s)
       | Some page \<Rightarrow>
           let page = phys2safe s page;
               max_page = (if virt_addr > max_page then virt_addr else max_page)
           in if ph_file_size ph \<noteq> 0 then
                let sz = copy_size ph i;
                    source = elf_header elf + ph_offset ph + i * PAGE_SIZE
                in do {
                  (_, s) \<leftarrow> (if i = 0 then memcpy s (page + offset) source (if sz > 0 then sz - offset else sz)
                             else memcpy s page (source - offset) sz);
                  Some (max_page, s) }
              else Some (max_page, s) })"

primrec load_pages :: "elf_t \<Rightarrow> u64 \<Rightarrow> elf_program_header_t \<Rightarrow> nat list \<Rightarrow> u64 \<times> kstate \<Rightarrow> (u64 \<times> kstate) option" where
  "load_pages elf root ph [] st = Some st"
| "load_pages elf root ph (i # is) st = do { st \<leftarrow> load_page elf root ph (of_nat i) st; load_pages elf root ph is st }"

primrec load_segments :: "elf_t \<Rightarrow> u64 \<Rightarrow> nat list \<Rightarrow> u64 \<times> kstate \<Rightarrow> (u64 \<times> kstate) option" where
  "load_segments elf root [] st = Some st"
| "load_segments elf root (i # is) st = do {
     let ph = load_program_header (snd st) (get_elf_program_header (snd st) elf (of_nat i));
     st \<leftarrow> (if ph_type ph \<noteq> 1 then Some st else load_pages elf root ph [0..<unat (segment_page_count ph)] st);
     load_segments elf root is st }"

subsection \<open>Stack and arguments\<close>

definition page_up :: "u64 \<Rightarrow> u64" where
  "page_up a = word_of_int (sint (a + PAGE_SIZE - 1) sdiv 4096 * 4096)"

primrec alloc_stack :: "u64 \<Rightarrow> nat \<Rightarrow> u64 \<times> kstate \<Rightarrow> (u64 \<times> kstate) option" where
  "alloc_stack root 0 st = Some st"
| "alloc_stack root (Suc n) st = do {
     (_, s) \<leftarrow> mmu_alloc (snd st) root (fst st) (MMU_BIT_READ OR MMU_BIT_WRITE OR MMU_BIT_USER);
     alloc_stack root n (fst st + PAGE_SIZE, s) }"

text \<open>The page that receives the arguments: its kernel and its virtual address, the next free virtual page and the
  position in the page.\<close>

record arg_page =
  ap_physical :: u64
  ap_virt_addr :: u64
  ap_last_virtual_page :: u64
  ap_offset :: u64

definition new_arg_page :: "u64 \<Rightarrow> u64 \<Rightarrow> kstate \<Rightarrow> (arg_page \<times> kstate) option" where
  "new_arg_page root last_virtual_page s = do {
     (physical, s) \<leftarrow> mmu_alloc s root last_virtual_page (MMU_BIT_READ OR MMU_BIT_WRITE OR MMU_BIT_USER);
     Some (\<lparr>ap_physical = phys2safe s physical, ap_virt_addr = last_virtual_page,
            ap_last_virtual_page = last_virtual_page + PAGE_SIZE, ap_offset = 0\<rparr>, s) }"

definition arg_room :: "u64 \<Rightarrow> arg_page \<times> kstate \<Rightarrow> (arg_page \<times> kstate) option" where
  "arg_room root st =
     (if ap_offset (fst st) \<ge> PAGE_SIZE then new_arg_page root (ap_last_virtual_page (fst st)) (snd st) else Some st)"

definition put_arg_byte :: "u8 \<Rightarrow> arg_page \<times> kstate \<Rightarrow> arg_page \<times> kstate" where
  "put_arg_byte b = (\<lambda>(a, s). (a\<lparr>ap_offset := ap_offset a + 1\<rparr>, st8 (ap_physical a + ap_offset a) b s))"

text \<open>\<open>pp\<close> points to the pointer to the argument, \<open>i\<close> is the index of the next character.\<close>

partial_function (option) copy_arg :: "u64 \<Rightarrow> u64 \<Rightarrow> u64 \<Rightarrow> arg_page \<times> kstate \<Rightarrow> (arg_page \<times> kstate) option" where
  "copy_arg root pp i st = do {
     let b = ld8 (snd st) (ld64 (snd st) pp + i);
     st \<leftarrow> arg_room root st;
     if b = 0 then Some (put_arg_byte 0 st)
     else copy_arg root pp (i + 1) (put_arg_byte (ld8 (snd st) (ld64 (snd st) pp + i)) st) }"

primrec copy_args :: "u64 \<Rightarrow> u64 \<Rightarrow> u64 \<Rightarrow> nat list \<Rightarrow> arg_page \<times> kstate \<Rightarrow> (arg_page \<times> kstate) option" where
  "copy_args root args args_new [] st = Some st"
| "copy_args root args args_new (i # is) st = do {
     let s = st64 (args_new + 8 * of_nat i) (ap_virt_addr (fst st) + ap_offset (fst st)) (snd st);
     st \<leftarrow> copy_arg root (args + 8 * of_nat i) 0 (fst st, s);
     copy_args root args args_new is st }"

primrec put_arg_pointers :: "u64 \<Rightarrow> u64 \<Rightarrow> nat list \<Rightarrow> arg_page \<times> kstate \<Rightarrow> (arg_page \<times> kstate) option" where
  "put_arg_pointers root args_new [] st = Some st"
| "put_arg_pointers root args_new (i # is) st = do {
     (a, s) \<leftarrow> arg_room root st;
     let s = st64 (ap_physical a + ap_offset a) (ld64 s (args_new + 8 * of_nat i)) s;
     put_arg_pointers root args_new is (a\<lparr>ap_offset := ap_offset a + 8\<rparr>, s) }"

text \<open>All of it: the result is the user address of the argument vector.\<close>

definition put_args :: "u64 \<Rightarrow> u64 \<Rightarrow> u64 \<Rightarrow> u64 \<Rightarrow> u64 \<Rightarrow> kstate \<Rightarrow> (u64 \<times> kstate) option" where
  "put_args ra root last_virtual_page argc args s = do {
     (args_new, s) \<leftarrow> malloc s ra (8 * argc);
     st \<leftarrow> new_arg_page root last_virtual_page s;
     (a, s) \<leftarrow> copy_args root args args_new [0..<unat argc] st;
     let a = a\<lparr>ap_offset := ap_offset a + (- ap_offset a AND 7)\<rparr>;
     let first = ap_virt_addr a + ap_offset a;
     (a, s) \<leftarrow> put_arg_pointers root args_new [0..<unat argc] (a, s);
     Some (first, s) }"

subsection \<open>The new task\<close>

definition name_bytes :: "kstate \<Rightarrow> u64 \<Rightarrow> u64 \<Rightarrow> string" where
  "name_bytes s name name_size =
     (let n = (if name_size > TASK_NAME_SIZE - 1 then TASK_NAME_SIZE - 1 else name_size)
      in takeWhile (\<lambda>c. c \<noteq> CHR 0x00) (map (\<lambda>i. to_char (ucast (ld8 s (name + of_nat i)))) [0..<unat n]))"

definition start_task :: "nat \<Rightarrow> u64 \<Rightarrow> u64 \<Rightarrow> u64 \<Rightarrow> u64 \<Rightarrow> u64 \<Rightarrow> string \<Rightarrow> s_task \<Rightarrow> s_task" where
  "start_task pid root entry sp argc first name t =
     t\<lparr>task_name := name, task_pid := int pid, task_ppid := 0, task_tid := int pid, task_gid := int pid,
       task_mmu_data := root, task_state := TASK_STATE_READY,
       task_trap := (task_trap t)\<lparr>trap_pid := int pid, trap_pc := entry,
         trap_xs := (trap_xs (task_trap t))[REGISTER_SP := sp, REGISTER_FP := sp, REGISTER_A0 := argc, REGISTER_A1 := first]\<rparr>\<rparr>"

definition spawn_task_from_elf ::
  "kernel_image \<Rightarrow> u64 \<Rightarrow> u64 \<Rightarrow> u64 \<Rightarrow> elf_t \<Rightarrow> u64 \<Rightarrow> u64 \<Rightarrow> u64 \<Rightarrow> os \<Rightarrow> (nat option \<times> os) option" where
  "spawn_task_from_elf k ra name name_size elf stack_size argc args s =
     (if elf_type (ks s) (elf_header elf) \<noteq> ELF_EXECUTABLE
      then Some (None, s\<lparr>ks := console_puts (''ELF file is not executable'' @ [CHR 0x0A]) (ks s)\<rparr>)
      else
        let pid = free_slot (tasks s) 0
        in if int pid = max_pid s then Some (None, s)
           else do {
             (root, m) \<leftarrow> (if pid = 0 then Some (get_mmu (ks s), ks s) else create_mmu_table k (ks s));
             (max_page, m) \<leftarrow> load_segments elf root [0..<unat (program_header_num m (elf_header elf))] (0, m);
             (max_page, m) \<leftarrow> alloc_stack root (unat stack_size) (page_up max_page, m);
             let last_virtual_page = max_page - PAGE_SIZE;
             (first, m) \<leftarrow> put_args ra root (last_virtual_page + PAGE_SIZE) argc args m;
             let s = s\<lparr>ks := m\<rparr>;
             let s = upd_task pid (start_task pid root (elf_entry m (elf_header elf)) (last_virtual_page - 8) argc first
                                     (name_bytes m name name_size)) s;
             let t = tasks s ! pid;
             Some (Some pid, s\<lparr>sched := schedule_task (task_pid t) (task_state t) (task_priority t) (sched s)\<rparr>) })"

end
