(* ===== verification/Boot.thy ===== *)
theory Boot
  imports Fdt Fat16 Spawn Interrupt
begin

text \<open>
  Start-up: \<^verbatim>\<open>init_pages\<close> (\<^verbatim>\<open>memory.c\<close>), \<^verbatim>\<open>init_interrupts\<close> (\<^verbatim>\<open>interrupt.c\<close>), \<^verbatim>\<open>init_hart_helper\<close> and \<^verbatim>\<open>kinit\<close> (\<^verbatim>\<open>kernel.c\<close>), which
  compose all components. What the linker and the compiler decide is the record \<open>build\<close>: the addresses of the
  kernel image, of the string literals and of the local variable \<^verbatim>\<open>devicetree\<close>, return addresses, and what the
  memory of the task table holds before it is written.
\<close>

record build =
  image :: kernel_image
  lit :: "string \<Rightarrow> u64"
  devicetree_addr :: u64
  ret_addr :: u64
  fresh_task :: "nat \<Rightarrow> s_task"

subsection \<open>The page pool\<close>

definition prop_cells :: "(string \<Rightarrow> u64) \<Rightarrow> kstate \<Rightarrow> fdt_t \<Rightarrow> u64 \<Rightarrow> string \<Rightarrow> u32 option" where
  "prop_cells lt s tree node key = do {
     p \<leftarrow> fdt_get_property s tree node (lt key);
     Some (ucast (be_to_le s 32 (fp_data p))) }"

text \<open>The address and the size in the first \<^verbatim>\<open>reg\<close> entry of the memory node.\<close>

definition memory_reg :: "(string \<Rightarrow> u64) \<Rightarrow> kstate \<Rightarrow> fdt_t \<Rightarrow> (u64 \<times> u64) option" where
  "memory_reg lt s tree = do {
     root \<leftarrow> fdt_path s tree (lt ''/'') 0;
     addr_cell \<leftarrow> prop_cells lt s tree root ''#address-cells'';
     size_cell \<leftarrow> prop_cells lt s tree root ''#size-cells'';
     memory_node \<leftarrow> fdt_find s tree (lt ''memory'') 0;
     reg \<leftarrow> fdt_get_property s tree memory_node (lt ''reg'');
     Some (be_to_le s (ucast (32 * addr_cell)) (fp_data reg),
           be_to_le s (ucast (32 * size_cell)) (fp_data reg + ucast (addr_cell * 4))) }"

definition init_pages :: "(string \<Rightarrow> u64) \<Rightarrow> fdt_t \<Rightarrow> kstate \<Rightarrow> kstate option" where
  "init_pages lt tree s =
     (if fdt_header tree = 0 then Some (console_puts ''[init_pages] device tree passed in is invalid'' s)
      else do {
        (start, sz) \<leftarrow> memory_reg lt s tree;
        let len = sz - word_of_int (sint (pages_bottom s - start) sdiv 4096);
        let page_rc_count = len div PAGE_SIZE div PAGE_SIZE * 2;
        s \<leftarrow> console_printf (''[init_pages] page_rc_count: 0x%lx'' @ [LF]) [VWord page_rc_count] (s\<lparr>memory_start := start\<rparr>);
        let s = s\<lparr>heap_bottom := pages_bottom s + 4096 * page_rc_count\<rparr>;
        for_ptr 8 (\<lambda>clear. st64 clear 0) (pages_bottom s) (heap_bottom s) s })"

definition get_memory_start :: "kstate \<Rightarrow> u64" where "get_memory_start s = memory_start s"

subsection \<open>The interrupt controller\<close>

definition CONTEXT :: "u64 \<Rightarrow> u64 \<Rightarrow> u64" where "CONTEXT hartid machine = 2 * hartid + machine"

definition init_interrupts :: "(string \<Rightarrow> u64) \<Rightarrow> u64 \<Rightarrow> fdt_t \<Rightarrow> os \<Rightarrow> os option" where
  "init_interrupts lt hartid fdt s = do {
     let k = ks s;
     node \<leftarrow> fdt_find k fdt (lt ''plic'') 0;
     reg \<leftarrow> fdt_get_property k fdt node (lt ''reg'');
     let base = phys2safe k (be_to_le k 64 (fp_data reg));
     let len = be_to_le k 64 (fp_data reg + 8);
     let k = fold (\<lambda>i. st32 (base + 4 * of_nat i) 0xffffffff) [1..<65] k;
     let k = fold (\<lambda>i. st32 (base + 0x002000 + 0x80 * CONTEXT hartid 1 + 4 * of_nat i) 0xffffffff) [0..<256] k;
     let k = st32 (base + 0x200000 + 0x1000 * CONTEXT hartid 1) 0 k;
     Some (s\<lparr>ks := k, plic_base := base, plic_len := len\<rparr>) }"

subsection \<open>Harts\<close>

definition STACK_SIZE :: u64 where "STACK_SIZE = 0x8000"

definition init_hart_helper :: "build \<Rightarrow> firmware \<Rightarrow> u64 \<Rightarrow> u64 \<Rightarrow> os \<Rightarrow> (trap_exit \<times> os) option" where
  "init_hart_helper b fw hartid mmu s = do {
     let r = Hart_Trap (unat hartid);
     t \<leftarrow> read_trap s r;
     let t = t\<lparr>trap_hartid := hartid, trap_interrupt_stack := stack_top (image b) - STACK_SIZE * hartid, trap_pid := - 1\<rparr>;
     let s = (write_trap r t s)\<lparr>sscratch := Some r\<rparr>;
     let s = s\<lparr>sstatus := sstatus s OR (push_bit 18 1 OR push_bit 8 1 OR push_bit 5 1), sie := 0x222\<rparr>;
     let s = s\<lparr>ks := set_mmu mmu (ks s)\<rparr>;
     let s = write_trap r (t\<lparr>trap_pc := do_nothing fw\<rparr>) s;
     Some (Jump_Out r, sbi_set_timer 0 s) }"

text \<open>\<^verbatim>\<open>sbi_hart_start\<close> asks the firmware to start a hart in \<^verbatim>\<open>init_hart\<close>, with the page table as its argument.\<close>

definition sbi_hart_start :: "u64 \<Rightarrow> u64 \<Rightarrow> os \<Rightarrow> os" where
  "sbi_hart_start hartid mmu s = s\<lparr>harts_started := harts_started s @ [(hartid, mmu)]\<rparr>"

definition start_harts :: "u64 \<Rightarrow> u64 \<Rightarrow> os \<Rightarrow> os" where
  "start_harts hartid mmu s =
     fold (\<lambda>i s. if of_nat i \<noteq> hartid then sbi_hart_start (of_nat i) mmu s else s) [0..<unat (cpu_count s)] s"

subsection \<open>The kernel entry\<close>

partial_function (option) cpu_loop :: "kstate \<Rightarrow> fdt_t \<Rightarrow> u64 \<Rightarrow> u64 \<Rightarrow> u64 \<Rightarrow> u64 option" where
  "cpu_loop s fdt name lst n = do {
     lst \<leftarrow> fdt_find s fdt name lst;
     if lst \<noteq> 0 then cpu_loop s fdt name lst (n + 1) else Some n }"

text \<open>Reading, verifying and spawning one program; \<open>None\<close> as the task stands for the NULL of \<^verbatim>\<open>spawn_task_from_elf\<close>, and \<open>Inl\<close> for the
  endless loop after a file that is not an ELF file.\<close>

definition boot_program :: "build \<Rightarrow> fat16_fs_t \<Rightarrow> string \<Rightarrow> u64 \<Rightarrow> os \<Rightarrow> (os + nat option \<times> os) option" where
  "boot_program b fs name name_size s = do {
     (data, sz, k) \<leftarrow> read_file_full (ks s) (ret_addr b) fs (lit b name);
     (elf, k) \<leftarrow> verify_elf data (case sz of Some n \<Rightarrow> n | None \<Rightarrow> 0) k;
     let s = s\<lparr>ks := k\<rparr>;
     if elf_header elf = 0
     then Some (Inl (s\<lparr>ks := console_puts (''[kinit] failed to verify '' @ name @ '' elf file'' @ [LF]) (ks s)\<rparr>))
     else do {
       (r, s) \<leftarrow> spawn_task_from_elf (image b) (ret_addr b) (lit b name) name_size elf 2 0 0 s;
       k \<leftarrow> kfree (ks s) data;
       Some (Inr (r, s\<lparr>ks := console_puts (''[kinit] succeeded '' @ name @ '' loading'' @ [LF]) k\<rparr>)) } }"

definition initrd_bound :: "build \<Rightarrow> kstate \<Rightarrow> fdt_t \<Rightarrow> u64 \<Rightarrow> string \<Rightarrow> u64 option" where
  "initrd_bound b s fdt chosen key = do {
     p \<leftarrow> fdt_get_property s fdt chosen (lit b key);
     Some (be_to_le s 32 (fp_data p)) }"

text \<open>The steps up to the interrupt controller: page pool, reserved memory, page table; the result is the device
  tree through the window and the bounds of the RAM disk.\<close>

definition init_memory :: "build \<Rightarrow> fdt_t \<Rightarrow> kstate \<Rightarrow> (fdt_t \<times> u64 \<times> u64 \<times> kstate) option" where
  "init_memory b fdt s = do {
     s \<leftarrow> init_pages (lit b) fdt s;
     s \<leftarrow> mark_as_used s (devicetree_addr b) ((fdt_header_field s (fdt_header fdt) 1 + PAGE_SIZE - 1) div PAGE_SIZE);
     chosen \<leftarrow> fdt_path s fdt (lit b ''/chosen'') 0;
     initrd_start \<leftarrow> initrd_bound b s fdt chosen ''linux,initrd-start'';
     initrd_end \<leftarrow> initrd_bound b s fdt chosen ''linux,initrd-end'';
     s \<leftarrow> mark_as_used s initrd_start (word_of_int (sint (initrd_end - initrd_start + 4096 - 1) sdiv 4096));
     (root, s) \<leftarrow> create_mmu_table (image b) s;
     let s = set_mmu root s;
     Some (fdt_phys2safe s fdt, phys2safe s initrd_start, phys2safe s initrd_end, s) }"

definition start_programs :: "build \<Rightarrow> firmware \<Rightarrow> u64 \<Rightarrow> fat16_fs_t \<Rightarrow> os \<Rightarrow> (trap_exit \<times> os) option" where
  "start_programs b fw hartid fs s = do {
     s \<leftarrow> init_processes (ret_addr b) 64 (fresh_task b) s;
     r \<leftarrow> boot_program b fs ''initd'' 5 s;
     case r of Inl s \<Rightarrow> Some (Panic, s)
     | Inr (initd, s) \<Rightarrow> do {
         r \<leftarrow> boot_program b fs ''uwu'' 3 s;
         case r of Inl s \<Rightarrow> Some (Panic, s)
         | Inr (_, s) \<Rightarrow> do {
             p \<leftarrow> initd;
             let mmu = task_mmu_data (tasks s ! p);
             let s = s\<lparr>ks := console_puts (''[kinit] initialising harts'' @ [LF]) (ks s)\<rparr>;
             let s = start_harts hartid mmu s;
             init_hart_helper b fw hartid (task_mmu_data (tasks s ! p)) s } } }"

definition kinit :: "build \<Rightarrow> firmware \<Rightarrow> u64 \<Rightarrow> u64 \<Rightarrow> os \<Rightarrow> (trap_exit \<times> os) option" where
  "kinit b fw hartid fdt s = do {
     s \<leftarrow> os_printf (''[kinit] toki, ale o!'' @ LF # ''[kinit] hartid: %lx'' @ LF # ''[kinit] fdt pointer: %p'' @ [LF]) [VWord hartid, VWord fdt] s;
     let devicetree = verify_fdt (ks s) fdt;
     if fdt_header devicetree = 0 then do {
       s \<leftarrow> os_printf (''[kinit] invalid fdt pointer %p'' @ [LF]) [VWord fdt] s;
       Some (Panic, s) }
     else do {
       n \<leftarrow> cpu_loop (ks s) devicetree (lit b ''cpu'') 0 (cpu_count s);
       let s = s\<lparr>cpu_count := n\<rparr>;
       s \<leftarrow> os_printf (''[kinit] %lx cpus present'' @ [LF]) [VWord n] s;
       (devicetree, initrd_start, initrd_end, k) \<leftarrow> init_memory b devicetree (ks s);
       let s = s\<lparr>ks := k\<rparr>;
       s \<leftarrow> os_printf (''[kinit] initrd start: %p'' @ LF # ''[kinit] initrd end: %p'' @ [LF]) [VWord initrd_start, VWord initrd_end] s;
       s \<leftarrow> init_interrupts (lit b) hartid devicetree s;
       (fs, k) \<leftarrow> verify_initrd initrd_start initrd_end (ks s);
       let s = s\<lparr>ks := k\<rparr>;
       if fat fs = 0 then Some (Panic, s\<lparr>ks := console_puts (''[kinit] initrd image is invalid'' @ [LF]) (ks s)\<rparr>)
       else start_programs b fw hartid fs (s\<lparr>ks := console_puts (''[kinit] verified initrd image'' @ [LF]) (ks s)\<rparr>) } }"

end
