(* ===== verification/Spawn_Spec.thy ===== *)
theory Spawn_Spec
  imports Spawn
begin

text \<open>
  Loading a program always comes to an end, whatever the ELF file says, and keeps the task table well formed.
\<close>

subsection \<open>Operations that return and change only memory and console\<close>

definition kframe :: "kstate \<Rightarrow> kstate \<Rightarrow> bool" where
  "kframe s t \<longleftrightarrow> t = s\<lparr>mem := mem t, console_out := console_out t\<rparr>"

lemma kframe_refl [simp, intro]: "kframe s s" by (simp add: kframe_def)
lemma kframe_trans: "kframe s t \<Longrightarrow> kframe t u \<Longrightarrow> kframe s u"
  by (cases s, cases t, cases u) (simp add: kframe_def)
lemma kframe_same_regs: "same_regs s t \<Longrightarrow> kframe s t"
  by (cases s, cases t) (simp add: same_regs_def kframe_def)
lemma kframe_st [simp]: "kframe s (st8 a b s)" "kframe s (st64 a w s)"
  by (simp_all add: st8_def st64_def kframe_def)

text \<open>The page pool is laid out and its lock is free.\<close>

definition ready :: "nat \<Rightarrow> kstate \<Rightarrow> bool" where
  "ready N s \<longleftrightarrow> page_layout s N \<and> 0 < N \<and> \<not> mutating_heap s"

lemma ready_frame: "kframe s t \<Longrightarrow> ready N s \<Longrightarrow> ready N t"
proof -
  assume "kframe s t" and r: "ready N s"
  then obtain m c where "t = s\<lparr>mem := m, console_out := c\<rparr>" unfolding kframe_def by blast
  then show "ready N t" using r by (simp add: ready_def)
qed

text \<open>\<open>returns N f\<close>: \<open>f\<close> returns from every ready state and changes only memory and console.\<close>

definition returns :: "nat \<Rightarrow> (kstate \<Rightarrow> ('a \<times> kstate) option) \<Rightarrow> bool" where
  "returns N f \<longleftrightarrow> (\<forall>s. ready N s \<longrightarrow> (\<exists>x t. f s = Some (x, t) \<and> kframe s t))"

lemma returnsI: "(\<And>s. ready N s \<Longrightarrow> \<exists>x t. f s = Some (x, t) \<and> kframe s t) \<Longrightarrow> returns N f"
  by (simp add: returns_def)

lemma returnsE:
  assumes "returns N f" "ready N s"
  obtains x t where "f s = Some (x, t)" "kframe s t" "ready N t"
  using assms ready_frame by (force simp: returns_def)

lemma returns_Some: "(\<And>s. kframe s (g s)) \<Longrightarrow> returns N (\<lambda>s. Some (x s, g s))"
  by (simp add: returns_def)

lemma returns_bind:
  assumes "returns N f" "\<And>x. returns N (g x)"
  shows "returns N (\<lambda>s. Option.bind (f s) (\<lambda>(x, t). g x t))"
proof (rule returnsI)
  fix s assume "ready N s"
  from returnsE [OF assms(1) this] obtain x t where 1: "f s = Some (x, t)" "kframe s t" "ready N t" .
  from returnsE [OF assms(2) 1(3)] obtain y u where "g x t = Some (y, u)" "kframe t u" .
  with 1 show "\<exists>y u. Option.bind (f s) (\<lambda>(x, t). g x t) = Some (y, u) \<and> kframe s u"
    by (auto intro: kframe_trans)
qed

lemma returns_if: "(\<And>s. returns N (f s)) \<Longrightarrow> (\<And>s. returns N (g s)) \<Longrightarrow> returns N (\<lambda>s. if b s then f s s else g s s)"
  by (auto simp: returns_def)

subsection \<open>Pages and mappings\<close>

lemma alloc_page_returns: "returns N (\<lambda>s. alloc_pages s 1)"
proof (rule returnsI)
  fix s assume r: "ready N s"
  then have h: "page_layout s N" "\<not> mutating_heap s" "0 < (1 :: nat)" "1 \<le> N" by (auto simp: ready_def)
  show "\<exists>p t. alloc_pages s 1 = Some (p, t) \<and> kframe s t"
  proof (cases "find (free_run s 1) [0..<N - 1]")
    case None
    then show ?thesis using alloc_pages_None [OF h] by (auto simp: kframe_def)
  next
    case (Some i)
    then show ?thesis using alloc_pages_Some [OF h] by (auto simp: pages_taken_def intro: kframe_same_regs)
  qed
qed

lemma decr_loop_frame: "kframe s (decr_loop n p s)"
  by (simp add: loops_upd upd_loop_regs kframe_same_regs)

lemma dealloc_pages_returns: "ready N s \<Longrightarrow> \<exists>t. dealloc_pages s p n = Some t \<and> kframe s t"
proof -
  assume "ready N s"
  then have l: "heap_lock s = Some (s\<lparr>mutating_heap := True\<rparr>)" and f: "\<not> mutating_heap s"
    by (auto simp: ready_def heap_lock_def)
  have "kframe s (heap_unlock t)" if "kframe (s\<lparr>mutating_heap := True\<rparr>) t" for t
    using that f by (cases s, cases t) (simp add: kframe_def heap_unlock_def)
  then show ?thesis using l decr_loop_frame by (auto simp: dealloc_pages_def Let_def)
qed

lemma entry_set_frame [simp]:
  "kframe s (mmu_entry_set_flags e f s)" "kframe s (mmu_entry_set_phys e p s)"
  by (auto simp: mmu_entry_set_flags_def mmu_entry_set_phys_def)

lemma map_loop_returns: "returns N (\<lambda>s. map_loop s e vs)"
proof (induction vs arbitrary: e)
  case Nil
  then show ?case by (simp add: returns_def)
next
  case (Cons v vs)
  show ?case
  proof (rule returnsI)
    fix s assume r: "ready N s"
    define step where "step = (if \<not> mmu_entry_valid (ld64 s e) then do {
                (page, s) \<leftarrow> alloc_pages s 1;
                Some (mmu_entry_set_phys e page (mmu_entry_set_flags e MMU_BIT_VALID s)) }
              else Some s)"
    obtain t where t: "step = Some t" "kframe s t"
    proof (cases "mmu_entry_valid (ld64 s e)")
      case True
      then show thesis using that [of s] by (simp add: step_def)
    next
      case False
      from returnsE [OF alloc_page_returns r] obtain p u where u: "alloc_pages s 1 = Some (p, u)" "kframe s u" .
      then show thesis
        using that [of "mmu_entry_set_phys e p (mmu_entry_set_flags e MMU_BIT_VALID u)"] False
          kframe_trans [OF u(2) kframe_trans [OF entry_set_frame(1) entry_set_frame(2)]]
        by (simp add: step_def)
    qed
    have "ready N t" by (rule ready_frame [OF t(2) r])
    from returnsE [OF Cons.IH this] obtain x u where "map_loop t (mmu_entry_get_any t (ld64 t e) v) vs = Some (x, u)" "kframe t u" .
    then show "\<exists>x u. map_loop s e (v # vs) = Some (x, u) \<and> kframe s u"
      using t kframe_trans [OF t(2)] unfolding map_loop.simps step_def [symmetric] by auto
  qed
qed

lemma mmu_map_returns: "returns N (\<lambda>s. mmu_map s root va p flags)"
proof (rule returnsI)
  fix s assume r: "ready N s"
  let ?vs = "fst (get_vpns va)"
  from returnsE [OF map_loop_returns r] obtain x t where
    "map_loop s (mmu_root_get_any s root (?vs ! 0)) (drop 1 ?vs) = Some (x, t)" "kframe s t" .
  then show "\<exists>y u. mmu_map s root va p flags = Some (y, u) \<and> kframe s u"
    by (auto simp: mmu_map_def Let_def split: option.split intro: kframe_trans [of s t] kframe_trans [OF entry_set_frame(1) entry_set_frame(2)])
qed

lemma mmu_alloc_returns: "returns N (\<lambda>s. mmu_alloc s root va flags)"
proof (rule returnsI)
  fix s assume r: "ready N s"
  from returnsE [OF alloc_page_returns r] obtain p t where 1: "alloc_pages s 1 = Some (p, t)" "kframe s t" "ready N t" .
  from returnsE [OF mmu_map_returns 1(3)] obtain x u where 2: "mmu_map t root va p flags = Some (x, u)" "kframe t u" "ready N u" .
  from dealloc_pages_returns [OF 2(3)] obtain v where 3: "dealloc_pages u p 1 = Some v" "kframe u v" by auto
  show "\<exists>y v. mmu_alloc s root va flags = Some (y, v) \<and> kframe s v"
    using 1 2 3 kframe_trans [OF 1(2) 2(2)] kframe_trans [OF kframe_trans [OF 1(2) 2(2)] 3(2)]
    by (auto simp: mmu_alloc_def)
qed

lemma memcpy_loop_returns: "\<exists>t. memcpy_loop d c e s = Some t \<and> kframe s t"
proof (induction "unat e - unat d" arbitrary: d c s rule: less_induct)
  case less
  show ?case
  proof (cases "d < e")
    case True
    then have lt: "unat d < unat e" by (simp add: word_less_nat_alt)
    have "unat e < 2 ^ 64" by simp
    then have "unat d + 1 < 2 ^ 64" using lt by linarith
    then have "unat (d + 1) = unat d + 1" using unat_add_nowrap [of d 1] by simp
    then have "unat e - unat (d + 1) < unat e - unat d" using lt by simp
    from less [OF this, of "c + 1" "st8 d (ld8 s c) s"] show ?thesis
      using True kframe_trans [OF kframe_st(1)] by (subst memcpy_loop.simps) auto
  next
    case False
    then show ?thesis by (subst memcpy_loop.simps) auto
  qed
qed

lemma memcpy_returns: "returns N (\<lambda>s. memcpy s d c n)"
proof (rule returnsI)
  fix s
  obtain t where "memcpy_loop d c (d + n) s = Some t" "kframe s t" using memcpy_loop_returns by blast
  then show "\<exists>x t. memcpy s d c n = Some (x, t) \<and> kframe s t" by (simp add: memcpy_def)
qed

subsection \<open>Segments, stack and arguments\<close>

lemma segment_page_returns: "returns N (segment_page root va offset flags)"
  unfolding segment_page_def
  by (rule returns_bind [OF mmu_alloc_returns]) (auto simp: returns_def Let_def)

lemma load_page_returns: "returns N (\<lambda>s. load_page elf root ph i (mp, s))"
proof (rule returnsI)
  fix s assume r: "ready N s"
  let ?o = "segment_offset ph" and ?src = "elf_header elf + ph_offset ph + i * PAGE_SIZE" and ?z = "copy_size ph i"
  from returnsE [OF segment_page_returns r] obtain p t where
    1: "segment_page root (ph_virtual_addr ph + i * PAGE_SIZE) ?o (segment_flags (ph_flags ph)) s = Some (p, t)" "kframe s t" "ready N t" .
  show "\<exists>x u. load_page elf root ph i (mp, s) = Some (x, u) \<and> kframe s u"
  proof (cases p)
    case None
    then show ?thesis using 1 by (simp add: load_page_def Let_def)
  next
    case (Some q)
    obtain x u where 2: "(if i = 0 then memcpy t (phys2safe t q + ?o) ?src (if ?z > 0 then ?z - ?o else ?z)
        else memcpy t (phys2safe t q) (?src - ?o) ?z) = Some (x, u)" "kframe t u"
    proof (cases "i = 0")
      case True
      show thesis by (rule returnsE [OF memcpy_returns 1(3)], rule that) (use True in auto)
    next
      case False
      show thesis by (rule returnsE [OF memcpy_returns 1(3)], rule that) (use False in auto)
    qed
    show ?thesis
      using Some 1 2(2) kframe_trans [OF 1(2) 2(2)] unfolding load_page_def Let_def prod.case
      by (simp only: 2(1) bind.simps prod.case option.case split: if_split) simp
  qed
qed

lemma load_pages_returns: "returns N (\<lambda>s. load_pages elf root ph is (mp, s))"
proof (induction "is" arbitrary: mp)
  case (Cons i "is")
  show ?case
  proof (rule returnsI)
    fix s assume r: "ready N s"
    from returnsE [OF load_page_returns r] obtain x t where 1: "load_page elf root ph (of_nat i) (mp, s) = Some (x, t)" "kframe s t" "ready N t" .
    from returnsE [OF Cons.IH 1(3)] obtain y u where "load_pages elf root ph is (x, t) = Some (y, u)" "kframe t u" .
    with 1 show "\<exists>y u. load_pages elf root ph (i # is) (mp, s) = Some (y, u) \<and> kframe s u" by (auto intro: kframe_trans)
  qed
qed (simp add: returns_def)

lemma load_segments_returns: "returns N (\<lambda>s. load_segments elf root is (mp, s))"
proof (induction "is" arbitrary: mp)
  case (Cons i "is")
  show ?case
  proof (rule returnsI)
    fix s assume r: "ready N s"
    define ph where "ph = load_program_header s (get_elf_program_header s elf (of_nat i))"
    obtain x t where 1: "(if ph_type ph \<noteq> 1 then Some (mp, s) else load_pages elf root ph [0..<unat (segment_page_count ph)] (mp, s)) = Some (x, t)"
      "kframe s t" "ready N t"
      using returnsE [OF load_pages_returns r, of elf root ph "[0..<unat (segment_page_count ph)]" mp] r by (metis kframe_refl)
    from returnsE [OF Cons.IH 1(3)] obtain y u where "load_segments elf root is (x, t) = Some (y, u)" "kframe t u" .
    with 1 show "\<exists>y u. load_segments elf root (i # is) (mp, s) = Some (y, u) \<and> kframe s u"
      unfolding load_segments.simps Let_def snd_conv ph_def [symmetric] by (auto intro: kframe_trans)
  qed
qed (simp add: returns_def)

lemma alloc_stack_returns:
  "ready N s \<Longrightarrow> \<exists>t. alloc_stack root n (mp, s) = Some (mp + of_nat n * PAGE_SIZE, t) \<and> kframe s t"
proof (induction n arbitrary: mp s)
  case (Suc n)
  from returnsE [OF mmu_alloc_returns Suc.prems] obtain p t where
    1: "mmu_alloc s root mp (MMU_BIT_READ OR MMU_BIT_WRITE OR MMU_BIT_USER) = Some (p, t)" "kframe s t" "ready N t" .
  from Suc.IH [OF 1(3), of "mp + PAGE_SIZE"] 1 show ?case by (auto simp: algebra_simps intro: kframe_trans)
qed simp

lemma put_args_returns: "returns N (put_args ra root lvp 0 args)"
proof (rule returnsI)
  fix s assume r: "ready N s"
  from returnsE [OF mmu_alloc_returns r] obtain p t where
    "mmu_alloc s root lvp (MMU_BIT_READ OR MMU_BIT_WRITE OR MMU_BIT_USER) = Some (p, t)" "kframe s t" .
  then show "\<exists>x t. put_args ra root lvp 0 args s = Some (x, t) \<and> kframe s t"
    by (simp add: put_args_def malloc_def free_buckets_alloc_def new_arg_page_def Let_def)
qed

subsection \<open>A new address space\<close>

lemma identity_returns:
  "ready N s \<Longrightarrow> unat e + 4096 \<le> 2 ^ 64 \<Longrightarrow> \<exists>t. mmu_map_range_identity root p e flags s = Some t \<and> kframe s t"
proof (induction "unat e - unat p" arbitrary: p s rule: less_induct)
  case less
  show ?case
  proof (cases "p < e")
    case True
    then have lt: "unat p < unat e" by (simp add: word_less_nat_alt)
    have "unat p + 4096 < 2 ^ 64" using lt less(3) by linarith
    then have "unat (p + PAGE_SIZE) = unat p + 4096" using unat_add_nowrap [of p 4096] by (simp add: PAGE_SIZE_def)
    then have m: "unat e - unat (p + PAGE_SIZE) < unat e - unat p" using lt by simp
    from returnsE [OF mmu_map_returns less(2)] obtain x t where 1: "mmu_map s root p p flags = Some (x, t)" "kframe s t" "ready N t" .
    from less(1) [OF m 1(3) less(3)] obtain u where "mmu_map_range_identity root (p + PAGE_SIZE) e flags t = Some u" "kframe t u" by auto
    then show ?thesis using True 1 by (subst mmu_map_range_identity.simps) (auto intro: kframe_trans)
  next
    case False
    then show ?thesis by (subst mmu_map_range_identity.simps) auto
  qed
qed

text \<open>The kernel image lies in the lower half of the address space.\<close>

definition image_low :: "kernel_image \<Rightarrow> bool" where
  "image_low k \<longleftrightarrow> (\<forall>a\<in>{data_start k, ro_data_start k, sdata_start k, sdata_end k, stack_top k}. unat a < 2 ^ 63)"

lemma identity_step:
  assumes "kframe s0 s \<and> ready N s" "unat e < 2 ^ 63"
  obtains t where "mmu_map_range_identity root p e flags s = Some t" "kframe s0 t \<and> ready N t"
proof -
  have "unat e + 4096 \<le> 2 ^ 64" using assms(2) by simp
  from identity_returns [OF conjunct2 [OF assms(1)] this] obtain t where
    "mmu_map_range_identity root p e flags s = Some t" "kframe s t" by blast
  then show thesis using that assms(1) ready_frame kframe_trans by blast
qed

lemma identity_map_kernel_returns:
  assumes "ready N s" "image_low k"
  shows "\<exists>t. identity_map_kernel k root s = Some t \<and> kframe s t"
proof -
  have k: "unat (data_start k) < 2 ^ 63" "unat (ro_data_start k) < 2 ^ 63" "unat (sdata_start k) < 2 ^ 63"
    "unat (sdata_end k) < 2 ^ 63" "unat (stack_top k) < 2 ^ 63"
    using assms(2) by (simp_all add: image_low_def)
  have s0: "kframe s s \<and> ready N s" using assms(1) by simp
  obtain t1 where 1: "mmu_map_range_identity root (text_start k) (data_start k) (MMU_BIT_READ OR MMU_BIT_EXEC OR MMU_BIT_GLOBAL) s = Some t1"
    "kframe s t1 \<and> ready N t1" by (rule identity_step [OF s0 k(1)])
  obtain t2 where 2: "mmu_map_range_identity root (data_start k) (ro_data_start k) (MMU_BIT_READ OR MMU_BIT_WRITE OR MMU_BIT_GLOBAL) t1 = Some t2"
    "kframe s t2 \<and> ready N t2" by (rule identity_step [OF 1(2) k(2)])
  obtain t3 where 3: "mmu_map_range_identity root (ro_data_start k) (sdata_start k) (MMU_BIT_READ OR MMU_BIT_GLOBAL) t2 = Some t3"
    "kframe s t3 \<and> ready N t3" by (rule identity_step [OF 2(2) k(3)])
  obtain t4 where 4: "mmu_map_range_identity root (sdata_start k) (sdata_end k) (MMU_BIT_READ OR MMU_BIT_WRITE OR MMU_BIT_GLOBAL) t3 = Some t4"
    "kframe s t4 \<and> ready N t4" by (rule identity_step [OF 3(2) k(4)])
  obtain t5 where 5: "mmu_map_range_identity root (stack_start k) (stack_top k) (MMU_BIT_READ OR MMU_BIT_WRITE OR MMU_BIT_GLOBAL) t4 = Some t5"
    "kframe s t5 \<and> ready N t5" by (rule identity_step [OF 4(2) k(5)])
  have "unat (heap_bottom t5) < 2 ^ 63"
    using 5(2) page_layoutD(2) [of t5 N] by (simp add: ready_def window_size_def)
  then obtain t6 where 6: "mmu_map_range_identity root (pages_bottom t5) (heap_bottom t5) (MMU_BIT_READ OR MMU_BIT_WRITE OR MMU_BIT_GLOBAL) t5 = Some t6"
    "kframe s t6 \<and> ready N t6" by (rule identity_step [OF 5(2)])
  show ?thesis using 6(2) by (simp add: identity_map_kernel_def 1(1) 2(1) 3(1) 4(1) 5(1) 6(1))
qed

lemma fill_window_frame: "kframe s (fill_window tbl s)"
proof -
  have "kframe s (fold (\<lambda>i. st64 (tbl + of_nat (8 * i)) (window_entry i)) is s)" for "is"
    by (induction "is" arbitrary: s) (auto intro: kframe_trans [OF kframe_st(2)])
  then show ?thesis unfolding fill_window_def by blast
qed

lemma create_mmu_table_returns: "image_low k \<Longrightarrow> returns N (create_mmu_table k)"
proof (rule returnsI)
  fix s assume k: "image_low k" and r: "ready N s"
  from returnsE [OF alloc_page_returns r] obtain p t where 1: "alloc_pages s 1 = Some (p, t)" "kframe s t" "ready N t" .
  let ?u = "fill_window (phys2safe t p) t"
  have u: "kframe t ?u" "ready N ?u" using fill_window_frame ready_frame [OF fill_window_frame 1(3)] by auto
  from identity_map_kernel_returns [OF u(2) k] obtain v where
    "identity_map_kernel k (safe2phys ?u (phys2safe t p)) ?u = Some v" "kframe ?u v" by blast
  then show "\<exists>x v. create_mmu_table k s = Some (x, v) \<and> kframe s v"
    using 1(1) kframe_trans [OF kframe_trans [OF 1(2) u(1)]] by (auto simp: create_mmu_table_def Let_def)
qed

subsection \<open>The task table\<close>

lemma spawn_cases:
  assumes r: "ready N (ks s)" and k: "image_low k"
  shows "(elf_type (ks s) (elf_header elf) \<noteq> ELF_EXECUTABLE \<or> int (free_slot (tasks s) 0) = max_pid s) \<and>
      (\<exists>m. spawn_task_from_elf k ra name n elf stack_size 0 args s = Some (None, s\<lparr>ks := m\<rparr>) \<and> kframe (ks s) m) \<or>
    elf_type (ks s) (elf_header elf) = ELF_EXECUTABLE \<and> int (free_slot (tasks s) 0) \<noteq> max_pid s \<and>
      (\<exists>m root sp first nm. let pid = free_slot (tasks s) 0;
          s' = upd_task pid (start_task pid root (elf_entry m (elf_header elf)) sp 0 first nm) (s\<lparr>ks := m\<rparr>); t = tasks s' ! pid
        in spawn_task_from_elf k ra name n elf stack_size 0 args s =
             Some (Some pid, s'\<lparr>sched := schedule_task (task_pid t) (task_state t) (task_priority t) (sched s)\<rparr>) \<and> kframe (ks s) m)"
proof (cases "elf_type (ks s) (elf_header elf) \<noteq> ELF_EXECUTABLE \<or> int (free_slot (tasks s) 0) = max_pid s")
  case True
  define m where "m = (if elf_type (ks s) (elf_header elf) \<noteq> ELF_EXECUTABLE
     then console_puts (''ELF file is not executable'' @ [CHR 0x0A]) (ks s) else ks s)"
  have "spawn_task_from_elf k ra name n elf stack_size 0 args s = Some (None, s\<lparr>ks := m\<rparr>)"
    using True by (simp add: spawn_task_from_elf_def Let_def m_def)
  moreover have "kframe (ks s) m" by (simp add: m_def console_puts_def kframe_def)
  ultimately show ?thesis using True by blast
next
  case False
  let ?pid = "free_slot (tasks s) 0"
  obtain root m1 where 1: "(if ?pid = 0 then Some (get_mmu (ks s), ks s) else create_mmu_table k (ks s)) = Some (root, m1)"
    "kframe (ks s) m1" "ready N m1"
  proof (cases "?pid = 0")
    case True
    then show thesis using that r by simp
  next
    case False
    then show thesis using returnsE [OF create_mmu_table_returns [OF k] r] that by auto
  qed
  from returnsE [OF load_segments_returns 1(3)] obtain mp m2 where
    2: "load_segments elf root [0..<unat (program_header_num m1 (elf_header elf))] (0, m1) = Some (mp, m2)" "kframe m1 m2" "ready N m2" .
  from alloc_stack_returns [OF 2(3)] obtain m3 where
    3: "alloc_stack root (unat stack_size) (page_up mp, m2) = Some (page_up mp + of_nat (unat stack_size) * PAGE_SIZE, m3)" "kframe m2 m3" by blast
  have r3: "ready N m3" by (rule ready_frame [OF 3(2) 2(3)])
  let ?top = "page_up mp + of_nat (unat stack_size) * PAGE_SIZE - PAGE_SIZE"
  from returnsE [OF put_args_returns r3] obtain first m where
    4: "put_args ra root (?top + PAGE_SIZE) 0 args m3 = Some (first, m)" "kframe m3 m" .
  have "kframe (ks s) m" using 1(2) 2(2) 3(2) 4(2) by (blast intro: kframe_trans)
  then show ?thesis
    using False 1(1) 2(1) 3(1) 4(1)
    by (intro disjI2 conjI exI [of _ m] exI [of _ root] exI [of _ "?top - 8"] exI [of _ first] exI [of _ "name_bytes m name n"])
      (simp_all add: spawn_task_from_elf_def Let_def upd_task_def)
qed


text \<open>The first \<open>n\<close> slots hold the live tasks, and the scheduler knows of exactly these.\<close>

definition table_ok :: "nat \<Rightarrow> os \<Rightarrow> bool" where
  "table_ok n s \<longleftrightarrow> sched_ok (sched s) \<and> int (length (tasks s)) = max_pid s \<and> max_pid s < 2 ^ 31 - 1 \<and> n \<le> length (tasks s) \<and>
     sched_up_to (sched s) = int (n - 1) \<and>
     (\<forall>p<n. task_ok p (tasks s ! p)) \<and> (\<forall>p. n \<le> p \<and> p < length (tasks s) \<longrightarrow> task_state (tasks s ! p) = TASK_STATE_DEAD)"

lemma table_ok_os_ok: "table_ok n s \<Longrightarrow> 0 < n \<Longrightarrow> os_ok s"
  by (auto simp: table_ok_def os_ok_def)

lemma table_free_slot:
  assumes "table_ok n s"
  shows "free_slot (tasks s) 0 = n"
proof -
  let ?f = "free_slot (tasks s) 0"
  have f: "?f \<le> length (tasks s)" "\<forall>p<?f. task_state (tasks s ! p) \<noteq> TASK_STATE_DEAD"
    "?f < length (tasks s) \<longrightarrow> task_state (tasks s ! ?f) = TASK_STATE_DEAD"
    using free_slot_spec [of 0 "tasks s"] by auto
  have "\<not> n < ?f" using f(1,2) assms by (auto simp: table_ok_def)
  moreover have "\<not> ?f < n" using f(3) assms by (auto simp: table_ok_def task_ok_def)
  ultimately show ?thesis by simp
qed


subsection \<open>An example\<close>

definition demo_task0 :: s_task where
  "demo_task0 = \<lparr>task_name = [], task_pid = 0, task_ppid = 0, task_gid = 0, task_tid = 0, task_state = TASK_STATE_DEAD,
     task_mmu_data = 0, task_priority = 0,
     task_trap = \<lparr>trap_xs = replicate 32 0, trap_pc = 0, trap_interrupt_stack = 0, trap_fs = replicate 32 0, trap_hartid = 0, trap_pid = 0\<rparr>\<rparr>"

definition demo_spawn_os :: os where
  "demo_spawn_os = \<lparr>ks = demo_state\<lparr>mem := (\<lambda>_. 0)(0x90000010 := 2)\<rparr>, tasks = [demo_task0, demo_task0], max_pid = 2, sched = sched0, traps = [],
     sstatus = 0, clock = 0, timer = 0, interrupt_subscribers_lock = False, plic_completed = [], plic_base = 0, plic_len = 0, sie = 0,
     sscratch = None, cpu_count = 0, harts_started = []\<rparr>"

definition demo_image :: kernel_image where
  "demo_image = \<lparr>text_start = 0x80200000, data_start = 0x80210000, ro_data_start = 0x80220000, sdata_start = 0x80230000,
     sdata_end = 0x80240000, stack_start = 0x80300000, stack_top = 0x80400000\<rparr>"

definition demo_elf :: elf_t where
  "demo_elf = \<lparr>elf_header = 0x90000000, elf_string_table = 0, elf_size = 64\<rparr>"

lemma demo_spawn_ready: "ready 2048 (ks demo_spawn_os)" "image_low demo_image" "table_ok 0 demo_spawn_os"
  using demo_layout demo_unlocked
  by (auto simp: ready_def demo_spawn_os_def image_low_def demo_image_def table_ok_def sched_ok_def sched0_def demo_task0_def less_Suc_eq)

lemma demo_executable: "elf_type (ks demo_spawn_os) 0x90000000 = ELF_EXECUTABLE"
  by code_simp



end
