(* ===== verification/Boot_Spec.thy ===== *)
theory Boot_Spec
  imports Boot Fdt_Spec Spawn_Spec Interrupt_Spec
begin

text \<open>
  What start-up establishes: the number of harts, a page pool the allocator can work with, and a hart that
  will run the tasks one at a time.
\<close>

subsection \<open>Counting the harts\<close>

abbreviation named :: "u8 list \<Rightarrow> (u64 \<times> u8 list) list \<Rightarrow> (u64 \<times> u8 list) list" where
  "named cs ns \<equiv> filter (\<lambda>n. base_name (snd n) = cs) ns"

lemma first_node_none: "\<forall>n\<in>set ns. fst n \<noteq> 0 \<Longrightarrow> first_node cs ns = 0 \<Longrightarrow> named cs ns = []"
  by (induction ns) (auto split: if_splits)

lemma cpu_loop_eq:
  assumes name: "str_at s name cs" "AT \<notin> set cs"
  shows "block_at s p ts \<Longrightarrow> \<forall>n\<in>set (nodes p ts). fst n \<noteq> 0 \<and> (base_name (snd n) = cs \<longrightarrow> resumable n) \<Longrightarrow>
    fdt_find s fdt name lst = fdt_find_loop s name p \<Longrightarrow>
    cpu_loop s fdt name lst k = Some (k + of_nat (length (named cs (nodes p ts))))"
proof (induction "length ts" arbitrary: p ts lst k rule: less_induct)
  case less
  let ?a = "first_node cs (nodes p ts)"
  have nz: "\<forall>n\<in>set (nodes p ts). fst n \<noteq> 0" using less.prems(2) by blast
  have f: "fdt_find s fdt name lst = Some ?a"
    unfolding less.prems(3) by (rule fdt_find_loop_eq [OF less.prems(1) name])
  show ?case
  proof (cases "?a = 0")
    case True
    then show ?thesis using f first_node_none [OF nz True] by (subst cpu_loop.simps) simp
  next
    case False
    obtain nm ts' where split: "token_at s ?a (Tbegin nm)" "block_at s (next_token ?a (Tbegin nm)) ts'" "length ts' < length ts"
      "named cs (nodes p ts) = (?a, nm) # named cs (nodes (next_token ?a (Tbegin nm)) ts')"
      "set (nodes (next_token ?a (Tbegin nm)) ts') \<subseteq> set (nodes p ts)"
      using first_node_split [OF less.prems(1) nz False] by blast
    have "(?a, nm) \<in> set (named cs (nodes p ts))" using split(4) by simp
    then have "resumable (?a, nm)" using less.prems(2) by auto
    from resume_after_eq [OF split(1) this] have "fdt_find s fdt name ?a = fdt_find_loop s name (next_token ?a (Tbegin nm))"
      using False by (simp add: fdt_find_def)
    then have "cpu_loop s fdt name ?a (k + 1) = Some (k + 1 + of_nat (length (named cs (nodes (next_token ?a (Tbegin nm)) ts'))))"
      using less.hyps [OF split(3,2)] less.prems(2) split(5) by blast
    then show ?thesis using f False split(4) by (subst cpu_loop.simps) (simp add: add_ac)
  qed
qed

text \<open>C26. \<^verbatim>\<open>kinit\<close> counts the harts: the loop over \<^verbatim>\<open>fdt_find\<close>, each time continued after the node found last, returns, and the result is the
  number of nodes of that name in the whole tree. For each of them the name and its NUL must not end at a multiple of four.\<close>

theorem cpu_count_spec:
  assumes "block_at s (structure_block fdt) ts" "str_at s name cs" "AT \<notin> set cs"
    and "\<forall>n\<in>set (nodes (structure_block fdt) ts). fst n \<noteq> 0 \<and> (base_name (snd n) = cs \<longrightarrow> resumable n)"
  shows "cpu_loop s fdt name 0 0 = Some (of_nat (length (named cs (nodes (structure_block fdt) ts))))"
  using cpu_loop_eq [OF assms(2,3,1,4), of fdt 0 0] by (simp add: fdt_find_def)

theorem cpu_count_spec_witness: "cpu_loop demo_dt demo_fdt 0x3000 0 0 = Some 1"
proof -
  let ?ts = "encode demo_node"
  have n: "nodes (structure_block demo_fdt) ?ts = [(0x1000, []), (0x1018, [99, 112, 117, 64, 97])]"
    by (simp add: demo_fdt_def demo_tokens demo_next del: next_token.simps(1,2))
  have "cpu_loop demo_dt demo_fdt 0x3000 0 0 = Some (of_nat (length (named [99, 112, 117] (nodes (structure_block demo_fdt) ?ts))))"
    by (rule cpu_count_spec) (use demo_block demo_str(1) in \<open>simp_all add: n\<close>, simp_all add: demo_fdt_def AT_def base_name_def resumable_def)
  then show ?thesis by (simp add: n base_name_def AT_def)
qed

subsection \<open>The page pool\<close>

text \<open>The number of pages \<^verbatim>\<open>init_pages\<close> manages, for \<open>z\<close> bytes of RAM of which the first \<open>d\<close> come before the table.\<close>

definition pool_pages :: "nat \<Rightarrow> nat \<Rightarrow> nat" where
  "pool_pages z d = 4096 * ((z - d div 4096) div 16777216)"

lemma rc_count:
  assumes "d div 4096 \<le> z" "z < 2 ^ 38" "d < 2 ^ 63"
  shows "(of_nat z - word_of_int (sint (of_nat d :: u64) sdiv 4096)) div PAGE_SIZE div PAGE_SIZE * 2 =
    (of_nat ((z - d div 4096) div 16777216 * 2) :: u64)"
proof -
  let ?l = "z - d div 4096"
  have "of_nat z - word_of_int (sint (of_nat d :: u64) sdiv 4096) = (of_nat ?l :: u64)"
    using assms(1) signed_div_of_nat [OF assms(3), of 4096] by (simp add: of_nat_diff)
  moreover have "(of_nat ?l :: u64) div PAGE_SIZE div PAGE_SIZE = of_nat (?l div 16777216)"
    using assms(2) by (simp add: word_unat_eq_iff unat_div unat_of_nat64 PAGE_SIZE_def div_mult2_eq [symmetric])
  ultimately show ?thesis by simp
qed

lemma clear_table:
  assumes "unat p + 4096 * c < window_size"
  shows "for_ptr 8 (\<lambda>q. st64 q 0) p (p + 4096 * of_nat c) s = Some (s\<lparr>mem := (\<lambda>b. if in_rng p (4096 * c) b then 0 else mem s b)\<rparr>)"
proof -
  have "for_ptr 8 (\<lambda>q. st64 q 0) p (p + of_nat (unat (8 :: u64) * (512 * c))) s = Some (ptr_iter (512 * c) 8 (\<lambda>q. st64 q 0) p s)"
    by (rule for_ptr_iter) (use assms in \<open>simp_all add: window_size_def\<close>)
  moreover have "ptr_iter (512 * c) 8 (\<lambda>q. st64 q 0) p s = s\<lparr>mem := (\<lambda>b. if in_rng p (8 * (512 * c)) b then 0 else mem s b)\<rparr>"
  proof (rule zero_iter)
    fix i assume i: "i < 512 * c"
    then have "unat (p + of_nat (8 * i)) = unat p + 8 * i" using assms by (intro unat_add_nowrap) (simp add: window_size_def)
    then show "kaddr s (p + of_nat (8 * i)) = p + of_nat (8 * i)" using i assms by (intro kaddr_small) simp
  qed (use assms in \<open>simp add: window_size_def\<close>)
  moreover have "8 * (512 * c) = 4096 * c" by simp
  ultimately show ?thesis by (simp add: unat8)
qed

text \<open>C13. \<^verbatim>\<open>init_pages\<close> sets up the page allocator: with \<open>sz\<close> bytes of RAM from \<open>start\<close> on it returns a state in which table and pool are laid
  out as the allocator requires, every page is free, and nothing outside of the table has changed.\<close>

theorem init_pages_layout:
  assumes "fdt_header tree \<noteq> 0" "memory_reg lt s tree = Some (start, sz)"
    and "4096 dvd unat (pages_bottom s)" "pages_bottom s \<noteq> 0" "start \<le> pages_bottom s"
    and "unat (pages_bottom s) + 2 * unat sz < window_size" "unat (pages_bottom s - start) div 4096 \<le> unat sz"
  shows "\<exists>t. init_pages lt tree s = Some t \<and> memory_start t = start \<and> pages_bottom t = pages_bottom s \<and>
    page_layout t (pool_pages (unat sz) (unat (pages_bottom s - start))) \<and>
    (\<forall>i<pool_pages (unat sz) (unat (pages_bottom s - start)). rc t i = 0) \<and>
    (\<forall>b. \<not> in_rng (pages_bottom s) (2 * pool_pages (unat sz) (unat (pages_bottom s - start))) b \<longrightarrow> mem t b = mem s b)"
proof -
  let ?p = "pages_bottom s" and ?d = "unat (pages_bottom s - start)"
  define c where "c = (unat sz - ?d div 4096) div 16777216 * 2"
  let ?N = "pool_pages (unat sz) ?d"
  have d: "unat (?p - start) \<le> unat ?p" using assms(5) by (simp add: unat_sub word_le_nat_alt)
  have b: "unat sz < 2 ^ 38" "unat ?p < 2 ^ 38" using assms(6) by (simp_all add: window_size_def)
  have N: "?N = 2048 * c" by (simp add: pool_pages_def c_def)
  have "16777216 * ((unat sz - ?d div 4096) div 16777216) \<le> unat sz - ?d div 4096" by (rule times_div_less_eq_dividend)
  then have c: "4096 * 2048 * c \<le> unat sz" by (simp add: c_def)
  have cnt: "(sz - word_of_int (sint (?p - start) sdiv 4096)) div PAGE_SIZE div PAGE_SIZE * 2 = of_nat c"
    unfolding c_def using rc_count [of ?d "unat sz"] assms(7) b d by simp
  define u where "u = s\<lparr>memory_start := start, console_out := console_out s @ ''[init_pages] page_rc_count: 0x'' @ put_hex (of_nat c) @ [LF],
      heap_bottom := ?p + 4096 * of_nat c\<rparr>"
  have pr: "console_printf (''[init_pages] page_rc_count: 0x%lx'' @ [LF]) [VWord w] v =
      Some (v\<lparr>console_out := console_out v @ ''[init_pages] page_rc_count: 0x'' @ put_hex w @ [LF]\<rparr>)" for w v
    by (simp add: console_printf_def console_puts_def va_arg_word_def long_size_def LF_def)
  have lim: "unat ?p + 4096 * c < window_size" using c assms(6) by simp
  have ip: "init_pages lt tree s = for_ptr 8 (\<lambda>q. st64 q 0) ?p (?p + 4096 * of_nat c) u"
    unfolding init_pages_def assms(2) bind.simps prod.case Let_def cnt pr using assms(1) by (simp add: u_def)
  define t where "t = u\<lparr>mem := (\<lambda>b. if in_rng ?p (4096 * c) b then 0 else mem u b)\<rparr>"
  have t: "init_pages lt tree s = Some t" unfolding ip t_def by (rule clear_table [OF lim])
  have hb: "unat (?p + 4096 * of_nat c) = unat ?p + 4096 * c"
    using unat_add_nowrap [of ?p "4096 * c"] lim by (simp add: window_size_def)
  have lay: "page_layout t ?N"
    using hb assms(3,4,6) c N by (simp add: page_layout_def t_def u_def)
  have "rc t i = 0" if i: "i < ?N" for i
  proof -
    have r: "unat (rc_ptr t i) = unat ?p + 2 * i" using unat_rc_ptr [OF lay, of i] i by (simp add: t_def u_def)
    have nat: "unat (rc_ptr t i) + 2 \<le> 2 ^ 64" "unat ?p + 4096 * c \<le> 2 ^ 64" using r i N lim by (simp_all add: window_size_def)
    have "in_rng ?p (4096 * c) x" if "in_rng (rc_ptr t i) 2 x" for x
      using that i N r by (simp add: in_rng_nat [OF nat(1)] in_rng_nat [OF nat(2)])
    then have "load16 (mem t) (rc_ptr t i) = load16 (\<lambda>_. 0) (rc_ptr t i)" by (intro read_le_cong) (simp add: t_def)
    then show ?thesis using kaddr_rc_ptr [OF lay, of i] i by (simp add: rc_def ld16_def read_le_zero)
  qed
  then show ?thesis using t lay N by (auto simp: t_def u_def)
qed

subsection \<open>An example\<close>

text \<open>The device tree of a machine with 128 MiB of RAM, as far as \<^verbatim>\<open>init_pages\<close> reads it.\<close>

definition ram_blob :: "u8 list" where
  "ram_blob = [0, 0, 0, 1, 0, 0, 0, 0, 0, 0, 0, 3, 0, 0, 0, 4, 0, 0, 0, 0, 0, 0, 0, 2, 0, 0, 0, 3, 0, 0, 0, 4, 0, 0, 0, 15, 0, 0, 0, 2, 0, 0, 0, 1, 109, 101, 109, 111, 114, 121, 64, 56, 48, 48, 48, 48, 48, 48, 48, 0, 0, 0, 0, 3, 0, 0, 0, 16, 0, 0, 0, 27, 0, 0, 0, 0, 128, 0, 0, 0, 0, 0, 0, 0, 8, 0, 0, 0, 0, 0, 0, 2, 0, 0, 0, 2, 0, 0, 0, 9]"

definition ram_strings :: "u8 list" where
  "ram_strings = [35, 97, 100, 100, 114, 101, 115, 115, 45, 99, 101, 108, 108, 115, 0, 35, 115, 105, 122, 101, 45, 99, 101, 108, 108, 115, 0, 114, 101, 103, 0]"

definition ram_state :: kstate where
  "ram_state = kstate0\<lparr>pages_bottom := 0x80420000, mem := (\<lambda>a.
     if 0x1000 \<le> a \<and> a < 0x1064 then ram_blob ! unat (a - 0x1000)
     else if 0x2000 \<le> a \<and> a < 0x201f then ram_strings ! unat (a - 0x2000)
     else if 0x3000 \<le> a \<and> a < 0x3009 then [47, 0, 109, 101, 109, 111, 114, 121, 0] ! unat (a - 0x3000)
     else 0)\<rparr>"

definition ram_fdt :: fdt_t where
  "ram_fdt = \<lparr>fdt_header = 0x800, memory_reservation_block = 0x900, structure_block = 0x1000, strings_block = 0x2000\<rparr>"

definition ram_lit :: "string \<Rightarrow> u64" where
  "ram_lit t = (if t = ''/'' then 0x3000 else if t = ''memory'' then 0x3002 else if t = ''#address-cells'' then 0x2000
     else if t = ''#size-cells'' then 0x200f else 0x201b)"

abbreviation ram_name :: "u8 list" where "ram_name \<equiv> [109, 101, 109, 111, 114, 121, 64, 56, 48, 48, 48, 48, 48, 48, 48]"
abbreviation ram_reg :: "u8 list" where "ram_reg \<equiv> [0, 0, 0, 0, 128, 0, 0, 0, 0, 0, 0, 0, 8, 0, 0, 0]"
abbreviation ram_node :: fdt_node where "ram_node \<equiv> Node ram_name [(27, ram_reg)] []"
abbreviation ram_root :: fdt_node where "ram_root \<equiv> Node [] [(0, [0, 0, 0, 2]), (15, [0, 0, 0, 2])] [ram_node]"

definition ram_pname :: "u32 \<Rightarrow> u8 list" where
  "ram_pname off = (if off = 0 then [35, 97, 100, 100, 114, 101, 115, 115, 45, 99, 101, 108, 108, 115] else if off = 15 then [35, 115, 105, 122, 101, 45, 99, 101, 108, 108, 115] else [114, 101, 103])"

lemma ram_str:
  "str_at ram_state 0x2000 (ram_pname 0)" "str_at ram_state 0x200f (ram_pname 15)" "str_at ram_state 0x201b (ram_pname 27)"
  "str_at ram_state 0x3000 [SLASH]" "str_at ram_state 0x3002 [109, 101, 109, 111, 114, 121]" "str_at ram_state 0x102c ram_name"
  by code_simp+

lemma ram_words:
  "be_to_le ram_state 32 0x1000 = 1" "be_to_le ram_state 32 0x1008 = 3" "be_to_le ram_state 32 0x100c = 4" "be_to_le ram_state 32 0x1010 = 0"
  "be_to_le ram_state 32 0x1018 = 3" "be_to_le ram_state 32 0x101c = 4" "be_to_le ram_state 32 0x1020 = 15"
  "be_to_le ram_state 32 0x1028 = 1" "be_to_le ram_state 32 0x103c = 3" "be_to_le ram_state 32 0x1040 = 16" "be_to_le ram_state 32 0x1044 = 27"
  "be_to_le ram_state 32 0x1058 = 2" "be_to_le ram_state 32 0x105c = 2" "be_to_le ram_state 32 0x1060 = 9"
  "ld8 ram_state 0x1004 = 0" "be_to_le ram_state 32 0x1014 = 2"
  "be_to_le ram_state 64 0x1048 = 0x80000000" "be_to_le ram_state 64 0x1050 = 0x8000000"
  by code_simp+

lemma ram_data:
  "map (\<lambda>i. ld8 ram_state (0x1014 + of_nat i)) [0..<4] = [0, 0, 0, 2]" "map (\<lambda>i. ld8 ram_state (0x1024 + of_nat i)) [0..<4] = [0, 0, 0, 2]"
  "map (\<lambda>i. ld8 ram_state (0x1048 + of_nat i)) [0..<16] = ram_reg"
  by code_simp+

lemma bytes_of_map: "map f [0..<n] = xs \<Longrightarrow> \<forall>i<length xs. f i = xs ! i"
  by auto

lemma ram_next:
  "next_token 0x1000 (Tbegin []) = 0x1008" "next_token 0x1008 (Tprop 0 [0, 0, 0, 2]) = 0x1018" "next_token 0x1018 (Tprop 15 [0, 0, 0, 2]) = 0x1028"
  "next_token 0x1028 (Tbegin ram_name) = 0x103c" "next_token 0x103c (Tprop 27 ram_reg) = 0x1058"
  by code_simp+

lemma ram_props:
  "token_at ram_state 0x1008 (Tprop 0 [0, 0, 0, 2])" "token_at ram_state 0x1018 (Tprop 15 [0, 0, 0, 2])" "token_at ram_state 0x103c (Tprop 27 ram_reg)"
  using bytes_of_map [OF ram_data(1)] bytes_of_map [OF ram_data(2)] bytes_of_map [OF ram_data(3)] ram_words
  by (simp_all add: fdt_tokens)

lemma ram_tokens:
  "encode ram_node = [Tbegin ram_name, Tprop 27 ram_reg, Tend]"
  "encode ram_root = [Tbegin [], Tprop 0 [0, 0, 0, 2], Tprop 15 [0, 0, 0, 2], Tbegin ram_name, Tprop 27 ram_reg, Tend, Tend]"
  by simp_all

lemma ram_block: "block_at ram_state 0x1000 (encode ram_root)" "tokens_at ram_state 0x1028 (encode ram_node)"
proof -
  have w: "token_at ram_state 0x1000 (Tbegin [])" "token_at ram_state 0x1028 (Tbegin ram_name)" "token_at ram_state 0x1058 Tend" "token_at ram_state 0x105c Tend"
    using ram_words ram_str(6) by (simp_all add: fdt_tokens)
  show "tokens_at ram_state 0x1028 (encode ram_node)"
    unfolding ram_tokens tokens_at.simps ram_next using w ram_props by simp
  show "block_at ram_state 0x1000 (encode ram_root)"
    unfolding ram_tokens block_at_simps ram_next using w ram_props ram_words by (simp add: fdt_tokens)
qed

lemma ram_prop_value:
  assumes "tokens_at ram_state p (encode (Node nm ps cs))" "p \<noteq> 0" "str_at ram_state key (ram_pname off)" "height (Node nm ps cs) < 2 ^ 63"
    and "fst ` set ps \<subseteq> {0, 15, 27}" "find (\<lambda>(ofs, d). ram_pname ofs = ram_pname off) ps = Some (o2, d)"
  obtains r where "fdt_get_property ram_state ram_fdt p key = Some r" "\<forall>i<length d. ld8 ram_state (fp_data r + of_nat i) = d ! i"
proof -
  have "\<forall>(ofs, d)\<in>set ps. str_at ram_state (strings_block ram_fdt + ucast ofs) (ram_pname ofs)"
    using assms(5) ram_str(1-3) by (fastforce simp: ram_fdt_def)
  from get_property_eq [OF assms(1-3) this assms(4)] assms(6) show thesis
    using that by (auto simp: property_result_def)
qed

lemma bits_to_bytes: "unat (64 div 8 :: u64) = 8"
  by code_simp

lemma ram_cells:
  assumes "str_at ram_state (ram_lit key) (ram_pname off)" "off = 0 \<or> off = 15"
  shows "prop_cells ram_lit ram_state ram_fdt 0x1000 key = Some 2"
proof -
  have t: "tokens_at ram_state 0x1000 (encode ram_root)" using ram_block(1) by (simp add: block_at_def)
  have "\<exists>o2. find (\<lambda>(ofs, d). ram_pname ofs = ram_pname off) [(0, [0, 0, 0, 2 :: u8]), (15, [0, 0, 0, 2])] = Some (o2, [0, 0, 0, 2])"
    using assms(2) by (auto simp: ram_pname_def)
  then obtain o2 where f: "find (\<lambda>(ofs, d). ram_pname ofs = ram_pname off) [(0, [0, 0, 0, 2 :: u8]), (15, [0, 0, 0, 2])] = Some (o2, [0, 0, 0, 2])" ..
  obtain r where r: "fdt_get_property ram_state ram_fdt 0x1000 (ram_lit key) = Some r"
    "\<forall>i<length [0, 0, 0, 2 :: u8]. ld8 ram_state (fp_data r + of_nat i) = [0, 0, 0, 2] ! i"
    by (rule ram_prop_value [OF t _ assms(1) _ _ f]) auto
  have "be_to_le ram_state 32 (fp_data r) = be_to_le ram_state 32 0x1014"
    by (rule be_to_le_cong) (use r(2) bytes_of_map [OF ram_data(1)] in simp)
  then show ?thesis using r(1) ram_words by (simp add: prop_cells_def)
qed

lemma ram_memory_reg: "memory_reg ram_lit ram_state ram_fdt = Some (0x80000000, 0x8000000)"
proof -
  have root: "fdt_path ram_state ram_fdt (ram_lit ''/'') 0 = Some 0x1000"
    using fdt_path_root [of ram_state "0x3000" ram_fdt] ram_str(4) ram_words by (simp add: ram_lit_def ram_fdt_def fdt_tokens)
  have cells: "prop_cells ram_lit ram_state ram_fdt 0x1000 ''#address-cells'' = Some 2" "prop_cells ram_lit ram_state ram_fdt 0x1000 ''#size-cells'' = Some 2"
    using ram_cells [of "''#address-cells''" 0] ram_cells [of "''#size-cells''" 15] ram_str(1,2) by (simp_all add: ram_lit_def)
  have node: "fdt_find ram_state ram_fdt (ram_lit ''memory'') 0 = Some 0x1028"
    using fdt_find_loop_eq [OF ram_block(1) ram_str(5)]
    unfolding ram_tokens nodes.simps ram_next first_node_simps
    by (simp add: fdt_find_def ram_fdt_def ram_lit_def AT_def base_name_def)
  obtain r where r: "fdt_get_property ram_state ram_fdt 0x1028 0x201b = Some r" "\<forall>i<length ram_reg. ld8 ram_state (fp_data r + of_nat i) = ram_reg ! i"
    by (rule ram_prop_value [OF ram_block(2) _ ram_str(3)]) auto
  have bytes: "ld8 ram_state (fp_data r + of_nat i) = ld8 ram_state (0x1048 + of_nat i)" if "i < 16" for i
    using r(2) bytes_of_map [OF ram_data(3)] that by simp
  have "be_to_le ram_state 64 (fp_data r) = be_to_le ram_state 64 0x1048"
    by (rule be_to_le_cong) (use bytes in simp)
  moreover have "be_to_le ram_state 64 (fp_data r + 8) = be_to_le ram_state 64 0x1050"
  proof (rule be_to_le_cong)
    fix i assume "i < unat (64 div 8 :: u64)"
    then show "ld8 ram_state (fp_data r + 8 + of_nat i) = ld8 ram_state (0x1050 + of_nat i)" unfolding bits_to_bytes using bytes [of "8 + i"] by (simp add: add_ac)
  qed
  ultimately show ?thesis
    using root cells node r(1) ram_words by (simp add: memory_reg_def) (simp add: ram_lit_def)
qed

theorem init_pages_layout_witness:
  "\<exists>t. init_pages ram_lit ram_fdt ram_state = Some t \<and> page_layout t 28672 \<and> rc t 100 = 0"
proof -
  have p: "pages_bottom ram_state = 0x80420000" by (simp add: ram_state_def)
  have h: "fdt_header ram_fdt \<noteq> 0" by (simp add: ram_fdt_def)
  obtain t where "init_pages ram_lit ram_fdt ram_state = Some t" "page_layout t 28672" "\<forall>i<28672. rc t i = 0"
    using init_pages_layout [OF h ram_memory_reg] unfolding p by (simp add: window_size_def) (force simp: pool_pages_def)
  then show ?thesis by (auto intro!: exI [of _ t])
qed

subsection \<open>The harts\<close>

lemma fold_start:
  "fold (\<lambda>i s. if of_nat i \<noteq> hartid then sbi_hart_start (of_nat i) mmu s else s) xs s =
     s\<lparr>harts_started := harts_started s @ map (\<lambda>i. (i, mmu)) (filter (\<lambda>i. i \<noteq> hartid) (map of_nat xs))\<rparr>"
  by (induction xs arbitrary: s) (simp_all add: sbi_hart_start_def)

lemma start_harts_eq:
  "start_harts hartid mmu s = s\<lparr>harts_started := harts_started s @
     map (\<lambda>i. (i, mmu)) (filter (\<lambda>i. i \<noteq> hartid) (map of_nat [0..<unat (cpu_count s)]))\<rparr>"
  by (simp add: start_harts_def fold_start)

text \<open>The hart is on its own frame, without a task, and no task runs yet.\<close>

lemma init_hart_helper_eq:
  assumes "unat hartid < length (traps s)" "os_ok s" "\<forall>q<length (tasks s). task_state (tasks s ! q) \<noteq> TASK_STATE_RUNNING"
  obtains t where "init_hart_helper b fw hartid mmu s = Some (Jump_Out (Hart_Trap (unat hartid)), t)"
    "one_running t (Hart_Trap (unat hartid))" "sscratch t = Some (Hart_Trap (unat hartid))" "timer t = 0" "sie t = 0x222"
    "trap_hartid (traps t ! unat hartid) = hartid" "trap_pc (traps t ! unat hartid) = do_nothing fw"
    "trap_interrupt_stack (traps t ! unat hartid) = stack_top (image b) - STACK_SIZE * hartid" "length (traps t) = length (traps s)"
    "tasks t = tasks s" "sched t = sched s" "harts_started t = harts_started s" "ks t = set_mmu mmu (ks s)"
proof -
  define u where "u = (traps s ! unat hartid)\<lparr>trap_hartid := hartid, trap_interrupt_stack := stack_top (image b) - STACK_SIZE * hartid,
    trap_pid := - 1, trap_pc := do_nothing fw\<rparr>"
  define t where "t = s\<lparr>sscratch := Some (Hart_Trap (unat hartid)), sstatus := sstatus s OR 262432, sie := 0x222,
    ks := set_mmu mmu (ks s), traps := (traps s)[unat hartid := u], timer := 0\<rparr>"
  have "init_hart_helper b fw hartid mmu s = Some (Jump_Out (Hart_Trap (unat hartid)), t)"
    using assms(1) by (simp add: init_hart_helper_def Let_def t_def u_def sbi_set_timer_def)
  then show thesis
    by (rule that) (use assms in \<open>auto simp: t_def u_def one_running_def os_ok_def current_ok_def\<close>)
qed



end
