(* ===== verification/Boot_Entry.thy ===== *)
theory Boot_Entry
  imports Boot_Spec Trap_Entry
begin

text \<open>
  \<^verbatim>\<open>kernel/src/boot.s\<close>: the first instructions of a hart, which give it a stack and the trap vector and go on in
  \<^verbatim>\<open>kinit\<close> (the hart that the firmware boots) or \<^verbatim>\<open>init_hart_helper\<close> (the harts that \<^verbatim>\<open>kinit\<close> starts). The addresses of
  \<^verbatim>\<open>handle_interrupt\<close> and of the global pointer are those of the record \<open>entry\<close>.
\<close>

record entry =
  entry_vector :: u64
  entry_gp :: u64

definition REGISTER_GP :: nat where "REGISTER_GP = 3"
definition REGISTER_T0 :: nat where "REGISTER_T0 = 5"
definition REGISTER_A2 :: nat where "REGISTER_A2 = 12"

definition set_stack :: "kernel_image \<Rightarrow> cpu \<Rightarrow> cpu" where
  "set_stack k c =
     (let t0 = 0x8000 * cpu_xs c ! REGISTER_A0; sp = stack_top k - t0
      in c\<lparr>cpu_xs := (cpu_xs c)[REGISTER_T0 := t0, REGISTER_SP := sp, REGISTER_FP := sp]\<rparr>)"

text \<open>The registers of the hart and the value of \<^verbatim>\<open>stvec\<close>.\<close>

definition hart_entry :: "kernel_image \<Rightarrow> entry \<Rightarrow> cpu \<Rightarrow> cpu \<times> u64" where
  "hart_entry k e c =
     (let c = set_stack k c
      in (c\<lparr>cpu_xs := (cpu_xs c)[REGISTER_GP := entry_gp e, REGISTER_T0 := entry_vector e]\<rparr>, entry_vector e))"

definition start :: "build \<Rightarrow> entry \<Rightarrow> firmware \<Rightarrow> cpu \<times> os \<Rightarrow> (trap_exit \<times> u64 \<times> cpu \<times> os) option" where
  "start b e fw = (\<lambda>(c, s). do {
     let (c, stvec) = hart_entry (image b) e c;
     (x, s) \<leftarrow> kinit b fw (cpu_xs c ! REGISTER_A0) (cpu_xs c ! REGISTER_A1) s;
     Some (x, stvec, c, s) })"

definition init_hart :: "build \<Rightarrow> entry \<Rightarrow> firmware \<Rightarrow> cpu \<times> os \<Rightarrow> (trap_exit \<times> u64 \<times> cpu \<times> os) option" where
  "init_hart b e fw = (\<lambda>(c, s). do {
     let (c, stvec) = hart_entry (image b) e c;
     let c = c\<lparr>cpu_xs := (cpu_xs c)[REGISTER_A2 := 0]\<rparr>;
     (x, s) \<leftarrow> init_hart_helper b fw (cpu_xs c ! REGISTER_A0) (cpu_xs c ! REGISTER_A1) s;
     Some (x, stvec, c, s) })"

lemmas registers_of_entry = REGISTER_GP_def REGISTER_T0_def REGISTER_A2_def REGISTER_SP_def REGISTER_FP_def REGISTER_A0_def REGISTER_A1_def

lemma hart_entry_eq:
  assumes "length (cpu_xs c) = 32" "hart_entry k e c = (c', v)"
  shows "cpu_xs c' ! REGISTER_SP = stack_top k - STACK_SIZE * cpu_xs c ! REGISTER_A0" "cpu_xs c' ! REGISTER_A0 = cpu_xs c ! REGISTER_A0"
    "cpu_xs c' ! REGISTER_A1 = cpu_xs c ! REGISTER_A1" "v = entry_vector e" "length (cpu_xs c') = 32"
  using assms by (auto simp: hart_entry_def set_stack_def Let_def registers_of_entry STACK_SIZE_def)

subsection \<open>The stacks\<close>

text \<open>As the linker script lays them out: 64 stacks of 32 kilobytes.\<close>

definition stacks_ok :: "kernel_image \<Rightarrow> bool" where
  "stacks_ok k \<longleftrightarrow> unat (stack_start k) + 0x8000 * 64 < 2 ^ 64 \<and> stack_top k = stack_start k + 0x8000 * 64"

definition stack_of :: "kernel_image \<Rightarrow> nat \<Rightarrow> u64" where
  "stack_of k h = stack_top k - STACK_SIZE * of_nat (Suc h)"

lemma unat_stack_of:
  assumes "stacks_ok k" "h < 64"
  shows "unat (stack_of k h) = unat (stack_start k) + 0x8000 * (63 - h)"
proof -
  have "stack_of k h = stack_start k + of_nat (0x8000 * (63 - h))"
    using assms by (simp add: stacks_ok_def stack_of_def STACK_SIZE_def of_nat_diff algebra_simps)
  moreover have "unat (stack_start k) + 0x8000 * (63 - h) < 2 ^ 64" using assms unfolding stacks_ok_def by linarith
  ultimately show ?thesis by (simp only: unat_add_nowrap)
qed

lemma stacks_apart:
  assumes k: "stacks_ok k" and h: "h < 64" "h' < 64" "h \<noteq> h'"
  shows "sep (stack_of k h) 0x8000 (stack_of k h') 0x8000"
proof (rule sep_nat)
  note u = unat_stack_of [OF k h(1)] unat_stack_of [OF k h(2)]
  show "unat (stack_of k h) + 0x8000 \<le> 2 ^ 64" "unat (stack_of k h') + 0x8000 \<le> 2 ^ 64"
    using k h unfolding u stacks_ok_def by linarith+
  show "unat (stack_of k h) + 0x8000 \<le> unat (stack_of k h') \<or> unat (stack_of k h') + 0x8000 \<le> unat (stack_of k h)"
    using h unfolding u by arith
qed

subsection \<open>The stack of a hart\<close>

text \<open>The frame that the hart uses names the hart and the stack it handles its traps on.\<close>

definition on_stack :: "u64 \<Rightarrow> u64 \<Rightarrow> os \<Rightarrow> trap_ref \<Rightarrow> bool" where
  "on_stack h sp s r \<longleftrightarrow> (\<exists>t. read_trap s r = Some t \<and> trap_hartid t = h \<and> trap_interrupt_stack t = sp)"

lemma on_stack_switch:
  assumes run: "one_running s r" and st: "on_stack h sp s r" and sw: "timer_switch fw r s = Some (Return r', s')"
  shows "on_stack h sp s' r'"
proof -
  have ok: "os_ok s" "current_ok s r" using run by (simp_all add: one_running_def)
  define n where "n = nat (sched_next (sched s))"
  have n: "n < length (tasks s)" using os_okD(1,3) [OF ok(1)] by (auto simp: n_def sched_ok_def)
  obtain s1 where s1: "timer_switch fw r s = Some (Return (Task_Trap n), s1)" "length (tasks s1) = length (tasks s)"
    "\<And>q. q < length (tasks s) \<Longrightarrow> tasks s1 ! q = switched s r n q"
    by (rule timer_switch_switched [OF ok, where fw = fw, folded n_def]) (rule that)
  have eq: "s' = s1" "r' = Task_Trap n" using sw s1(1) by simp_all
  show ?thesis using st s1(3) [OF n] n s1(2) unfolding eq on_stack_def
    by (cases "r = Task_Trap n") (auto simp: switched_def Let_def)
qed

lemma on_stack_step:
  "hart_step fw (s, r) (s', r') \<Longrightarrow> one_running s r \<Longrightarrow> on_stack h sp s r \<Longrightarrow> on_stack h sp s' r'"
proof (erule hart_stepE)
  fix c assume "s' = s\<lparr>clock := c\<rparr>" "r' = r" "on_stack h sp s r"
  then show "on_stack h sp s' r'" by (cases r) (auto simp: on_stack_def split: if_splits)
next
  fix t rs pc fs assume "s' = write_trap r (t\<lparr>trap_xs := rs, trap_pc := pc, trap_fs := fs\<rparr>) s" "read_trap s r = Some t" "r' = r"
    "on_stack h sp s r"
  then show "on_stack h sp s' r'" by (cases r) (auto simp: on_stack_def upd_task_def split: if_splits)
qed (auto dest: on_stack_switch)

lemma on_stack_run:
  assumes "hart_run fw (s, r) (s', r')" "one_running s r" "on_stack h sp s r"
  shows "on_stack h sp s' r'"
proof -
  have "one_running s' r' \<and> on_stack h sp s' r'"
    using assms(1) unfolding hart_run_def
  proof (induction rule: rtranclp_induct2)
    case (step s1 r1 s2 r2)
    then show ?case using one_running_step on_stack_step by blast
  qed (simp add: assms)
  then show ?thesis by blast
qed


subsection \<open>An example\<close>

definition demo_build :: build where
  "demo_build = \<lparr>image = \<lparr>text_start = 0x80200000, data_start = 0x80210000, ro_data_start = 0x80211000, sdata_start = 0x80212000,
       sdata_end = 0x80218000, stack_start = 0x80219000, stack_top = 0x80419000\<rparr>, lit = (\<lambda>_. 0x80211000),
     devicetree_addr = 0x80418000, ret_addr = 0x80200400, fresh_task = demo_task\<rparr>"

definition demo_entry :: entry where "demo_entry = \<lparr>entry_vector = 0x80201000, entry_gp = 0x80212800\<rparr>"

definition demo_entry_cpu :: cpu where "demo_entry_cpu = demo_cpu\<lparr>cpu_xs := (cpu_xs demo_cpu)[REGISTER_A0 := 2]\<rparr>"


end
