(* ===== verification/Spec2Isabelle.thy ===== *)
theory Spec2Isabelle
  imports Malloc_Client Mmu_Kernel User Strings Elf Queue Hashmap_Spec Hexdump Fdt_Spec Fat16_Read Boot_Entry
begin

text \<open>
  \<^bold>\<open>The ilo-pali kernel.\<close> A small operating system kernel for 64-bit RISC-V in C (\<^verbatim>\<open>src/kernel/src\<close>). The firmware starts
  \<^verbatim>\<open>kinit\<close>, which reads the device tree, sets up the page allocator and the page tables, finds the RAM disk, loads two
  programs from it and starts the other harts. From then on the kernel runs in the trap handler: a timer interrupt
  switches to the next task, a system call prints a string. The development models all of the C code that is compiled
  into the kernel, the assembly of the boot and trap entries, and the two user programs with the library they use; a definition has
  the name of the function it translates wherever that name is free.

  \<^bold>\<open>State.\<close> \<open>Machine\<close> has the record \<open>kstate\<close>: the byte memory, the globals of \<^verbatim>\<open>memory.c\<close>, the register \<^verbatim>\<open>satp\<close> and the text
  printed so far. Pointers are 64-bit words, NULL is 0, and structures that the code reaches through pointers (free lists,
  page tables, reference counts, device tree, RAM disk, ELF file) are read from and written to the bytes of the memory at
  the offsets of the C layout. Loads and stores go through \<open>kaddr\<close>, the linear window at \<^verbatim>\<open>KERNEL_SPACE_OFFSET\<close> when paging
  is on. \<open>Tasks\<close> has the record \<open>os\<close>: the machine with the task table, the scheduler, the trap frames, control registers,
  the timer and the harts that were started. Machine integers are words of their width, and their operations wrap. C \<^verbatim>\<open>int\<close>
  counters that the code never lets overflow are integers with the conversion written out.

  \<^bold>\<open>Results.\<close> An operation that can go wrong returns an option: \<open>None\<close> is a loop that does not end, a NULL dereference
  (of a task), a division by zero, a missing variadic argument, or an access outside of a buffer. Error results of the C
  code (NULL, -1, a printed message) are values. Loops over memory that may run forever are partial functions into
  option; no fuel is used. For these the properties state that there is a result.

  \<^bold>\<open>Theories, in the order of their imports.\<close>

  \<^item> \<open>Prelude\<close>: word types, lemma collections, byte ranges, little-endian loads and stores. \<open>Machine\<close>: the state.
  \<^item> \<open>Console\<close>, \<open>Hexdump\<close> (\<^verbatim>\<open>console.c\<close>): formatted output. Hexadecimal output denotes the number; the text and the line
    length of a hexdump.
  \<^item> \<open>Sync\<close> (\<^verbatim>\<open>sync.c\<close>): the spin lock, for one hart and as a step relation for any number of harts. Mutual exclusion.
  \<^item> \<open>Addr\<close> (\<^verbatim>\<open>mmu.c\<close>, conversions): \<^verbatim>\<open>phys2safe\<close> and \<^verbatim>\<open>safe2phys\<close>.
  \<^item> \<open>Page_Alloc\<close> (\<^verbatim>\<open>memory.c\<close>, pages): reference counts, first fit. \<open>Page_Pool\<close>: the locale \<open>page_source\<close>, what clients rely
    on, interpreted on \<^verbatim>\<open>alloc_pages\<close>.
  \<^item> \<open>Mem_Ops\<close> (\<^verbatim>\<open>memcpy\<close>, \<^verbatim>\<open>memset\<close>, \<^verbatim>\<open>memeq\<close>), \<open>Strings\<close> (\<^verbatim>\<open>string.c\<close>).
  \<^item> \<open>Bucket_Alloc\<close> (\<^verbatim>\<open>memory.c\<close>, \<^verbatim>\<open>malloc\<close>, \<^verbatim>\<open>free\<close>, \<^verbatim>\<open>realloc\<close>): the operations. \<open>Bucket_Heap\<close>, \<open>Heap_Spec\<close>, \<open>Heap_Refill\<close>: the
    heap invariant (lists, disjoint extents inside of pages in use) and its preservation. \<open>Malloc\<close>: the contracts.
    \<open>Malloc_Client\<close>: the locale \<open>block_allocator\<close> and its interpretation on the kernel heap, the separation of blocks of
    different owners, and the two places where the code breaks its contract.
  \<^item> \<open>Mmu\<close> (\<^verbatim>\<open>mmu.c\<close>, \<^verbatim>\<open>mmu.h\<close>): entries, lookup, mapping. \<open>Mmu_Tree\<close>, \<open>Mmu_Tables\<close>, \<open>Mmu_Map\<close>: the tables as a tree, its
    shape, and each write followed on it. \<open>Mmu_Spec\<close>: what an operation does to the translation of every address.
    \<open>Mmu_Kernel\<close>: the table of \<^verbatim>\<open>create_mmu_table\<close> realises the window that \<open>kaddr\<close> assumes.
  \<^item> \<open>Scheduler\<close> (\<^verbatim>\<open>schedulers/\<close>): the locale \<open>scheduler\<close>, interpreted on the round-robin scheduler. Fairness.
  \<^item> \<open>Tasks\<close> (\<^verbatim>\<open>process.c\<close>, \<^verbatim>\<open>process.h\<close>, \<^verbatim>\<open>interrupt.h\<close>): the task table. \<open>Interrupt\<close> (\<^verbatim>\<open>interrupt.c\<close>, \<^verbatim>\<open>time.c\<close>): the trap
    handler. \<open>Interrupt_Spec\<close>: the context switch, runs of one hart as a step relation with the invariant that exactly the
    installed task is running, system calls, and two failures.
  \<^item> \<open>Trap_Entry\<close> (\<^verbatim>\<open>interrupt.s\<close>): the registers of a hart, saved to and restored from the frames around the handler. A timer
    interrupt switches the integer registers exactly, and not the floating-point registers.
  \<^item> \<open>User\<close> (\<^verbatim>\<open>lib/c\<close>, \<^verbatim>\<open>boot/initd\<close>, \<^verbatim>\<open>boot/uwu\<close>): the user programs on the kernel. Along every sequence of timer interrupts and
    program steps they refine the record \<open>view\<close>, a machine that takes the tasks in turn and prints one line for each call.
  \<^item> \<open>Elf\<close> (\<^verbatim>\<open>elf.c\<close>, \<^verbatim>\<open>elf.h\<close>): header checks. \<open>Spawn\<close> (\<^verbatim>\<open>process.c\<close>, \<^verbatim>\<open>spawn_task_from_elf\<close>): loading a program. \<open>Spawn_Spec\<close>:
    it returns for every file, and keeps the task table well formed.
  \<^item> \<open>Buffer\<close>, \<open>Queue\<close> (\<^verbatim>\<open>queue.c\<close>), \<open>Hashmap\<close>, \<open>Hashmap_Spec\<close> (\<^verbatim>\<open>hashmap.c\<close>): the containers, whose buffers are byte lists; the
    locale \<open>fifo\<close>, interpreted on the ring; lookup after insertion, removal and growth.
  \<^item> \<open>Fdt\<close>, \<open>Fdt_Spec\<close> (\<^verbatim>\<open>fdt.c\<close>, \<^verbatim>\<open>fdt.h\<close>): the device tree. The searches compared with searches of a list of tokens and
    of a tree, on every block in the standard format.
  \<^item> \<open>Fat16\<close>, \<open>Fat16_Spec\<close> (\<^verbatim>\<open>fat16.c\<close>, \<^verbatim>\<open>fat16.h\<close>): the RAM disk. Clusters stay inside of the image; reading a chain.
    \<open>Fat16_Dir\<close>: the search in the directory finds the first entry that holds the name. \<open>Fat16_Read\<close>: \<^verbatim>\<open>read_file_full\<close> gives a
    block of the heap with the contents of the file.
  \<^item> \<open>Boot\<close>, \<open>Boot_Spec\<close> (\<^verbatim>\<open>kernel.c\<close>, \<^verbatim>\<open>init_pages\<close>, \<^verbatim>\<open>init_interrupts\<close>): start-up, the composition of all of the above. The
    count of harts, the layout of the page pool, and the hand-over to the scheduler.
  \<^item> \<open>Boot_Entry\<close> (\<^verbatim>\<open>boot.s\<close>): the first instructions of a hart. Each hart keeps to a stack of its own.

  \<^bold>\<open>Parameters.\<close> What is decided outside of the C code is an argument: the linker symbols of the kernel image
  (\<open>kernel_image\<close>), addresses of string literals and return addresses (\<open>build\<close>), the address of \<^verbatim>\<open>do_nothing\<close> and whether the
  firmware returns from a suspend call (\<open>firmware\<close>), the content of memory that was allocated and not yet written.

  \<^bold>\<open>Assumptions of the model.\<close> The memory has no translation cache, so \<^verbatim>\<open>sfence.vma\<close> does nothing. The inline assembly that
  writes control registers names its source register as an output operand; it is modelled as the write that is meant.
  The records of the task table are kept beside the byte memory, so a stray write does not change them. Page table
  properties assume tables in the pool of the page allocator and addresses below the window size of \<open>2 ^ 38\<close> bytes.
  Several harts are modelled at the level of the lock and of alternating traps, not of interleaved memory accesses.
  A hart is modelled by its registers and the frame in \<^verbatim>\<open>sscratch\<close>; a user program is taken to do one call of \<^verbatim>\<open>uart_puts\<close> or to return
  from it between two traps, and the compiled handler to leave the floating-point registers alone.

  \<^bold>\<open>Not modelled.\<close> The linker script, whose symbols are parameters; the stubs of the firmware calls (\<^verbatim>\<open>opensbi.s\<close>), whose
  effects are the console, the timer and the started harts of the state; everything that is commented out in the
  sources: most of \<^verbatim>\<open>interrupt_handler\<close>, the old process functions at the end of \<^verbatim>\<open>process.c\<close>, most of the user library, the FAT16 and
  memory code of \<^verbatim>\<open>initd\<close>; and the types of \<^verbatim>\<open>process.h\<close> (capabilities, messages, \<^verbatim>\<open>process_t\<close>) that no compiled function uses.
\<close>

end
